theory Spec2Isabelle
  imports Complex_Main "HOL-Library.Signed_Division" "HOL-Library.Word"
begin

unbundle bit_operations_syntax

section \<open>The automatic footprint placer of pcbnew (ar\_autoplacer.cpp)\<close>

text \<open>
  The development embeds the functions of \<^verbatim>\<open>pcbnew/autorouter/ar_autoplacer.cpp\<close>.
  Conventions of the embedding:
  \<^item> a C \<^verbatim>\<open>int\<close> is an Isabelle \<open>int\<close>; board coordinates are nanometres that stay far
    from the 32-bit limits, so no wrap-around is written out. The C operators \<^verbatim>\<open>/\<close> and
    \<^verbatim>\<open>%\<close> truncate towards zero: they are \<open>sdiv\<close> and \<open>smod\<close>. The keep-out cost, which
    the code adds up in an \<^verbatim>\<open>unsigned int\<close> and returns as an \<^verbatim>\<open>int\<close>, is a word of 32 bits;
  \<^item> a C \<^verbatim>\<open>double\<close> is a \<open>real\<close>. Where the rasterizer truncates a double to an \<^verbatim>\<open>int\<close>,
    the double is rounded as IEEE 754 rounds it (\<open>binary64\<close>). The costs of the search are
    kept exact, with \<^verbatim>\<open>hypot\<close> as the exact Euclidean length: the C library does not fix
    \<^verbatim>\<open>hypot\<close> to the last bit, and where its rounding matters it is a parameter
    (\<open>computePlacementRatsnestCost_lib\<close>);
  \<^item> the classes declared in headers that are not part of the sources at hand (\<^verbatim>\<open>wxPoint\<close>,
    \<^verbatim>\<open>EDA_RECT\<close>, \<^verbatim>\<open>AR_MATRIX\<close>, \<^verbatim>\<open>MODULE\<close>, \<^verbatim>\<open>PAD\<close>) are records with the fields that the
    placer reads and writes; the services it only calls are fields of an environment record.
\<close>

subsection \<open>Points and rectangles\<close>

type_synonym wxPoint = "int \<times> int"

definition pt_add :: "wxPoint \<Rightarrow> wxPoint \<Rightarrow> wxPoint" where
  "pt_add a b = (fst a + fst b, snd a + snd b)"

definition pt_sub :: "wxPoint \<Rightarrow> wxPoint \<Rightarrow> wxPoint" where
  "pt_sub a b = (fst a - fst b, snd a - snd b)"

definition pt_neg :: "wxPoint \<Rightarrow> wxPoint" where
  "pt_neg a = (- fst a, - snd a)"

record EDA_RECT =
  m_Pos :: wxPoint
  m_Size :: wxPoint

definition GetOrigin :: "EDA_RECT \<Rightarrow> wxPoint" where
  "GetOrigin r = m_Pos r"

definition GetEnd :: "EDA_RECT \<Rightarrow> wxPoint" where
  "GetEnd r = pt_add (m_Pos r) (m_Size r)"

definition GetX :: "EDA_RECT \<Rightarrow> int" where
  "GetX r = fst (m_Pos r)"

definition GetY :: "EDA_RECT \<Rightarrow> int" where
  "GetY r = snd (m_Pos r)"

definition GetWidth :: "EDA_RECT \<Rightarrow> int" where
  "GetWidth r = fst (m_Size r)"

definition GetHeight :: "EDA_RECT \<Rightarrow> int" where
  "GetHeight r = snd (m_Size r)"

definition GetRight :: "EDA_RECT \<Rightarrow> int" where
  "GetRight r = fst (m_Pos r) + fst (m_Size r)"

definition GetBottom :: "EDA_RECT \<Rightarrow> int" where
  "GetBottom r = snd (m_Pos r) + snd (m_Size r)"

definition Move :: "EDA_RECT \<Rightarrow> wxPoint \<Rightarrow> EDA_RECT" where
  "Move r d = r\<lparr>m_Pos := pt_add (m_Pos r) d\<rparr>"

definition SetOrigin :: "EDA_RECT \<Rightarrow> wxPoint \<Rightarrow> EDA_RECT" where
  "SetOrigin r p = r\<lparr>m_Pos := p\<rparr>"

text \<open>
  Modelled from the spec: \<^verbatim>\<open>EDA_RECT::Inflate\<close> is declared outside the sources. The placer
  only inflates rectangles of non-negative size by a non-negative margin, where inflating
  moves the origin back by the margin and grows each side by twice the margin.
\<close>

definition Inflate :: "EDA_RECT \<Rightarrow> int \<Rightarrow> EDA_RECT" where
  "Inflate r d = \<lparr>m_Pos = (fst (m_Pos r) - d, snd (m_Pos r) - d),
                  m_Size = (fst (m_Size r) + 2 * d, snd (m_Size r) + 2 * d)\<rparr>"

text \<open>
  Modelled from the spec: \<^verbatim>\<open>EDA_RECT::Contains\<close> is declared outside the sources; a point is
  contained when it lies between the origin and the end of the rectangle, borders included.
\<close>

definition Contains :: "EDA_RECT \<Rightarrow> wxPoint \<Rightarrow> bool" where
  "Contains r p \<longleftrightarrow>
     fst (m_Pos r) \<le> fst p \<and> snd (m_Pos r) \<le> snd p \<and>
     fst p \<le> fst (m_Pos r) + fst (m_Size r) \<and> snd p \<le> snd (m_Pos r) + snd (m_Size r)"

subsection \<open>The placement matrix\<close>

text \<open>Bits characterizing a cell (the \<^verbatim>\<open>CELL_IS_...\<close> macros).\<close>

type_synonym MATRIX_CELL = "8 word"

definition CELL_IS_EMPTY :: MATRIX_CELL where "CELL_IS_EMPTY = 0x00"
definition CELL_IS_HOLE :: MATRIX_CELL where "CELL_IS_HOLE = 0x01"
definition CELL_IS_MODULE :: MATRIX_CELL where "CELL_IS_MODULE = 0x02"
definition CELL_IS_EDGE :: MATRIX_CELL where "CELL_IS_EDGE = 0x20"
definition CELL_IS_FRIEND :: MATRIX_CELL where "CELL_IS_FRIEND = 0x40"
definition CELL_IS_ZONE :: MATRIX_CELL where "CELL_IS_ZONE = 0x80"

definition AR_GAIN :: int where "AR_GAIN = 16"
definition AR_KEEPOUT_MARGIN :: int where "AR_KEEPOUT_MARGIN = 500"
definition AR_ABORT_PLACEMENT :: int where "AR_ABORT_PLACEMENT = - 1"

datatype AR_SIDE = AR_SIDE_BOTTOM | AR_SIDE_TOP

text \<open>
  Modelled from the spec: \<^verbatim>\<open>AR_MATRIX\<close> is declared in ar\_matrix.h, outside the sources. It
  is a grid indexed by side, row and column; each cell holds a mask of cell bits and a
  separate keep-out cost (\<^verbatim>\<open>GetDist\<close>). \<^verbatim>\<open>GetCell\<close>, \<^verbatim>\<open>SetCell\<close> and \<^verbatim>\<open>GetDist\<close> read and
  write one cell.
\<close>

record AR_MATRIX =
  m_BrdBox :: EDA_RECT
  m_GridRouting :: int
  m_Nrows :: int
  m_Ncols :: int
  m_RoutingLayersCount :: int
  m_BoardSide :: "AR_SIDE \<Rightarrow> int \<Rightarrow> int \<Rightarrow> MATRIX_CELL"
  m_DistSide :: "AR_SIDE \<Rightarrow> int \<Rightarrow> int \<Rightarrow> nat"

definition GetCell :: "AR_MATRIX \<Rightarrow> int \<Rightarrow> int \<Rightarrow> AR_SIDE \<Rightarrow> MATRIX_CELL" where
  "GetCell m row col side = m_BoardSide m side row col"

definition SetCell :: "AR_MATRIX \<Rightarrow> int \<Rightarrow> int \<Rightarrow> AR_SIDE \<Rightarrow> MATRIX_CELL \<Rightarrow> AR_MATRIX" where
  "SetCell m row col side v =
     m\<lparr>m_BoardSide := (m_BoardSide m)(side := (m_BoardSide m side)(row := (m_BoardSide m side row)(col := v)))\<rparr>"

definition GetDist :: "AR_MATRIX \<Rightarrow> int \<Rightarrow> int \<Rightarrow> AR_SIDE \<Rightarrow> nat" where
  "GetDist m row col side = m_DistSide m side row col"

definition GetBrdCoordOrigin :: "AR_MATRIX \<Rightarrow> wxPoint" where
  "GetBrdCoordOrigin m = GetOrigin (m_BrdBox m)"

subsection \<open>testRectangle and calculateKeepOutArea\<close>

text \<open>
  The verdicts of \<^verbatim>\<open>testRectangle\<close>. The enumeration is declared in ar\_autoplacer.h, outside
  the sources; \<open>cell_state_code\<close> gives the integer the C code returns. The two verdicts
  that forbid a placement are negative, which is what the test \<^verbatim>\<open>keepOutCost >= 0\<close> of
  \<^verbatim>\<open>getOptimalFPPlacement\<close> relies on.
\<close>

datatype AR_CELL_STATE = AR_OUT_OF_BOARD | AR_OCCUIPED_BY_MODULE | AR_FREE_CELL

fun cell_state_code :: "AR_CELL_STATE \<Rightarrow> int" where
  "cell_state_code AR_OUT_OF_BOARD = - 2"
| "cell_state_code AR_OCCUIPED_BY_MODULE = - 1"
| "cell_state_code AR_FREE_CELL = 0"

text \<open>
  The first lines of \<^verbatim>\<open>testRectangle\<close> and of \<^verbatim>\<open>calculateKeepOutArea\<close> are the same: the
  corners relative to the matrix origin become a range of rows and columns, clamped to the
  matrix. The result is \<open>(row_min, row_max, col_min, col_max)\<close>.
\<close>

definition cell_range :: "AR_MATRIX \<Rightarrow> EDA_RECT \<Rightarrow> int \<times> int \<times> int \<times> int" where
  "cell_range m rect =
     (let g = m_GridRouting m;
          start = pt_sub (GetOrigin rect) (GetOrigin (m_BrdBox m));
          end' = pt_sub (GetEnd rect) (GetOrigin (m_BrdBox m));
          row_min = snd start sdiv g;
          row_max = snd end' sdiv g;
          col_min = fst start sdiv g;
          col_max = fst end' sdiv g;
          row_min = (if snd start > row_min * g then row_min + 1 else row_min);
          col_min = (if fst start > col_min * g then col_min + 1 else col_min);
          row_min = (if row_min < 0 then 0 else row_min);
          row_max = (if row_max \<ge> m_Nrows m - 1 then m_Nrows m - 1 else row_max);
          col_min = (if col_min < 0 then 0 else col_min);
          col_max = (if col_max \<ge> m_Ncols m - 1 then m_Ncols m - 1 else col_max)
      in (row_min, row_max, col_min, col_max))"

text \<open>
  The inner loop over the columns of one row. \<open>None\<close> means that the loop ran to its end
  without returning.
\<close>

function scan_cols :: "(int \<Rightarrow> MATRIX_CELL) \<Rightarrow> int \<Rightarrow> int \<Rightarrow> AR_CELL_STATE option" where
  "scan_cols cells col col_max =
     (if col \<le> col_max then
        (let data = cells col in
         if data AND CELL_IS_ZONE = 0 then Some AR_OUT_OF_BOARD
         else if data AND CELL_IS_MODULE \<noteq> 0 then Some AR_OCCUIPED_BY_MODULE
         else scan_cols cells (col + 1) col_max)
      else None)"
  by pat_completeness auto
termination
  by (relation "measure (\<lambda>(cells, col, col_max). nat (col_max + 1 - col))") auto

declare scan_cols.simps [simp del]

function scan_rows :: "(int \<Rightarrow> int \<Rightarrow> MATRIX_CELL) \<Rightarrow> int \<Rightarrow> int \<Rightarrow> int \<Rightarrow> int \<Rightarrow> AR_CELL_STATE option" where
  "scan_rows cells row row_max col_min col_max =
     (if row \<le> row_max then
        (case scan_cols (cells row) col_min col_max of
           Some v \<Rightarrow> Some v
         | None \<Rightarrow> scan_rows cells (row + 1) row_max col_min col_max)
      else None)"
  by pat_completeness auto
termination
  by (relation "measure (\<lambda>(cells, row, row_max, col_min, col_max). nat (row_max + 1 - row))") auto

declare scan_rows.simps [simp del]

definition testRectangle :: "AR_MATRIX \<Rightarrow> EDA_RECT \<Rightarrow> AR_SIDE \<Rightarrow> AR_CELL_STATE" where
  "testRectangle m aRect side =
     (let rect = Inflate aRect (m_GridRouting m sdiv 2);
          (row_min, row_max, col_min, col_max) = cell_range m rect
      in case scan_rows (\<lambda>row col. GetCell m row col side) row_min row_max col_min col_max of
           Some v \<Rightarrow> v
         | None \<Rightarrow> AR_FREE_CELL)"

text \<open>
  \<^verbatim>\<open>calculateKeepOutArea\<close> adds the costs of the cells into an \<^verbatim>\<open>unsigned int\<close>, a word of 32
  bits whose addition wraps.
\<close>

definition calculateKeepOutArea :: "AR_MATRIX \<Rightarrow> EDA_RECT \<Rightarrow> AR_SIDE \<Rightarrow> 32 word" where
  "calculateKeepOutArea m aRect side =
     (let (row_min, row_max, col_min, col_max) = cell_range m aRect
      in (\<Sum>row\<leftarrow>[row_min..row_max]. \<Sum>col\<leftarrow>[col_min..col_max]. word_of_nat (GetDist m row col side)))"

subsection \<open>The arithmetic of doubles\<close>

text \<open>
  A \<^verbatim>\<open>double\<close> is a number of IEEE 754 binary64. The result of a division or of a
  multiplication is the exact result rounded to the nearest number with a significand of 53
  bits, a tie going to the even significand. \<open>binary64\<close> is that rounding, on the range of
  the normal numbers: the quotients and the products of 32-bit integers that the placer
  forms are far from overflow and from the subnormal numbers. An \<^verbatim>\<open>int\<close> converts to a
  \<^verbatim>\<open>double\<close> without rounding.
\<close>

definition round_even :: "real \<Rightarrow> int" where
  "round_even y =
     (let f = \<lfloor>y\<rfloor>; d = y - of_int f
      in if d < 1 / 2 then f else if 1 / 2 < d then f + 1 else if even f then f else f + 1)"

definition binary64 :: "real \<Rightarrow> real" where
  "binary64 x =
     (if x = 0 then 0
      else (let u = 2 powr (of_int \<lfloor>log 2 \<bar>x\<bar>\<rfloor> - 52) in u * of_int (round_even (x / u))))"

subsection \<open>Footprints, pads and the services of the board\<close>

datatype PCB_LAYER_ID = F_Cu | B_Cu | Edge_Cuts | Other_Layer

record PAD =
  pad_Pos :: wxPoint
  pad_NetCode :: int
  pad_LayerSet :: "PCB_LAYER_ID list"

text \<open>
  Modelled from the spec: \<^verbatim>\<open>MODULE\<close> (a placeable unit) is declared outside the sources. A
  unit has a position, an orientation in tenths of a degree, a side, the two rotation cost
  classes, the flags \<open>needsPlaced\<close> and \<open>isPlaced\<close> and the counter that \<^verbatim>\<open>SetFlag\<close> writes.
  Its geometry is what \<^verbatim>\<open>MODULE::SetOrientation\<close> and \<^verbatim>\<open>MODULE::SetPosition\<close> maintain: the
  record gives, for every orientation, the footprint rectangle and the pads relative to
  the position of the unit; the getters move them to the position. The orientation is
  stored as it is given (the class reduces it modulo a full turn, which names the same
  geometry).
\<close>

record MODULE =
  fp_Pos :: wxPoint
  fp_Orient :: int
  fp_Layer :: PCB_LAYER_ID
  fp_Rect :: "int \<Rightarrow> EDA_RECT"
  fp_Pads :: "int \<Rightarrow> PAD list"
  fp_CntRot90 :: nat
  fp_CntRot180 :: nat
  fp_NeedsPlaced :: bool
  fp_IsPlaced :: bool
  fp_Flag :: nat

definition GetPosition :: "MODULE \<Rightarrow> wxPoint" where
  "GetPosition fp = fp_Pos fp"

definition SetPosition :: "MODULE \<Rightarrow> wxPoint \<Rightarrow> MODULE" where
  "SetPosition fp p = fp\<lparr>fp_Pos := p\<rparr>"

definition GetOrientation :: "MODULE \<Rightarrow> int" where
  "GetOrientation fp = fp_Orient fp"

definition SetOrientation :: "MODULE \<Rightarrow> int \<Rightarrow> MODULE" where
  "SetOrientation fp a = fp\<lparr>fp_Orient := a\<rparr>"

definition GetLayer :: "MODULE \<Rightarrow> PCB_LAYER_ID" where
  "GetLayer fp = fp_Layer fp"

definition GetFootprintRect :: "MODULE \<Rightarrow> EDA_RECT" where
  "GetFootprintRect fp = Move (fp_Rect fp (fp_Orient fp)) (fp_Pos fp)"

definition GetBoundingBox :: "MODULE \<Rightarrow> EDA_RECT" where
  "GetBoundingBox fp = GetFootprintRect fp"

definition Pads :: "MODULE \<Rightarrow> PAD list" where
  "Pads fp = map (\<lambda>p. p\<lparr>pad_Pos := pt_add (pad_Pos p) (fp_Pos fp)\<rparr>) (fp_Pads fp (fp_Orient fp))"

definition GetPadCount :: "MODULE \<Rightarrow> int" where
  "GetPadCount fp = int (length (Pads fp))"

definition GetArea :: "MODULE \<Rightarrow> real" where
  "GetArea fp = real_of_int (GetWidth (GetBoundingBox fp)) * real_of_int (GetHeight (GetBoundingBox fp))"

definition GetPlacementCost90 :: "MODULE \<Rightarrow> nat" where
  "GetPlacementCost90 fp = fp_CntRot90 fp"

definition GetPlacementCost180 :: "MODULE \<Rightarrow> nat" where
  "GetPlacementCost180 fp = fp_CntRot180 fp"

definition NeedsPlaced :: "MODULE \<Rightarrow> bool" where
  "NeedsPlaced fp = fp_NeedsPlaced fp"

definition SetNeedsPlaced :: "MODULE \<Rightarrow> bool \<Rightarrow> MODULE" where
  "SetNeedsPlaced fp b = fp\<lparr>fp_NeedsPlaced := b\<rparr>"

definition SetIsPlaced :: "MODULE \<Rightarrow> bool \<Rightarrow> MODULE" where
  "SetIsPlaced fp b = fp\<lparr>fp_IsPlaced := b\<rparr>"

definition GetFlag :: "MODULE \<Rightarrow> nat" where
  "GetFlag fp = fp_Flag fp"

definition SetFlag :: "MODULE \<Rightarrow> nat \<Rightarrow> MODULE" where
  "SetFlag fp n = fp\<lparr>fp_Flag := n\<rparr>"

text \<open>
  The services that the placer calls and that the sources at hand do not contain are the
  fields of an environment: the board geometry, the vector norm of \<^verbatim>\<open>VECTOR2I\<close>, the
  operations of \<^verbatim>\<open>AR_MATRIX\<close> that stamp shapes into the matrix, the ratsnest of the
  connectivity data, the progress reporter and the unit conversion \<^verbatim>\<open>Millimeter2iu\<close>.
  \<^item> \<open>brd_BBox\<close> is \<^verbatim>\<open>GetBoardEdgesBoundingBox()\<close>; \<open>brd_Outline\<close> holds the points of
    \<^verbatim>\<open>Outline(0)\<close> of the fractured board polygon.
  \<^item> \<open>ComputeMatrixSize g bbox\<close> gives \<open>(m_BrdBox, m_Nrows, m_Ncols)\<close>.
  \<^item> \<open>TraceDrawings\<close> stands for the loop that calls \<^verbatim>\<open>TraceSegmentPcb\<close> on every drawing
    that is not on the edge layer.
  \<^item> \<open>RatsnestEdges fps i\<close> is the size of \<^verbatim>\<open>GetRatsnestForComponent\<close> for unit \<open>i\<close>
    after \<^verbatim>\<open>RecalculateRatsnest\<close>.
  \<^item> \<open>Reporter\<close> is \<open>None\<close> when no progress reporter is installed; otherwise it
    answers \<^verbatim>\<open>KeepRefreshing\<close> after the unit number \<open>cnt\<close> was committed.
  \<^item> \<open>QuarterMillimeter\<close> is \<^verbatim>\<open>Millimeter2iu( 0.25 )\<close>.
\<close>

record AR_ENV =
  brd_BBox :: EDA_RECT
  brd_Outline :: "wxPoint list"
  EuclideanNorm :: "wxPoint \<Rightarrow> int"
  ComputeMatrixSize :: "int \<Rightarrow> EDA_RECT \<Rightarrow> EDA_RECT \<times> int \<times> int"
  TraceDrawings :: "AR_MATRIX \<Rightarrow> AR_MATRIX"
  TraceFilledRectangle ::
    "AR_MATRIX \<Rightarrow> int \<Rightarrow> int \<Rightarrow> int \<Rightarrow> int \<Rightarrow> PCB_LAYER_ID list \<Rightarrow> MATRIX_CELL \<Rightarrow> AR_MATRIX"
  PlacePad :: "AR_MATRIX \<Rightarrow> PAD \<Rightarrow> MATRIX_CELL \<Rightarrow> int \<Rightarrow> AR_MATRIX"
  CreateKeepOutRectangle ::
    "AR_MATRIX \<Rightarrow> int \<Rightarrow> int \<Rightarrow> int \<Rightarrow> int \<Rightarrow> int \<Rightarrow> int \<Rightarrow> PCB_LAYER_ID list \<Rightarrow> AR_MATRIX"
  GetOwnClearance :: "PAD \<Rightarrow> int"
  RatsnestEdges :: "MODULE list \<Rightarrow> nat \<Rightarrow> nat"
  Reporter :: "(nat \<Rightarrow> bool) option"
  QuarterMillimeter :: int

text \<open>
  The state of a run: the fields of \<^verbatim>\<open>AR_AUTOPLACER\<close> that the claims are about, the units
  of the board (\<^verbatim>\<open>m_board->Footprints()\<close>, a unit is named by its index) and the list of
  the units passed to \<^verbatim>\<open>aCommit->Modify\<close>. The free-area polygons serve the display only and
  are left out.
\<close>

record AR_AUTOPLACER =
  m_matrix :: AR_MATRIX
  m_curPosition :: wxPoint
  m_minCost :: real
  m_gridSize :: int
  footprints :: "MODULE list"
  commit_log :: "nat list"

subsection \<open>nearestPad and computePlacementRatsnestCost\<close>

definition INT64_MAX :: int where
  "INT64_MAX = 9223372036854775807"

text \<open>The inner loop of \<^verbatim>\<open>nearestPad\<close> over the pads of one footprint.\<close>

fun nearestPad_pads ::
  "AR_ENV \<Rightarrow> PAD \<Rightarrow> wxPoint \<Rightarrow> PAD list \<Rightarrow> PAD option \<times> int \<Rightarrow> PAD option \<times> int" where
  "nearestPad_pads env aRefPad aOffset [] acc = acc"
| "nearestPad_pads env aRefPad aOffset (pad # rest) (nearest, nearestDist) =
     (if pad_NetCode pad \<noteq> pad_NetCode aRefPad \<or> pad_NetCode pad \<le> 0
      then nearestPad_pads env aRefPad aOffset rest (nearest, nearestDist)
      else
        (let dist = EuclideanNorm env (pt_sub (pt_sub (pad_Pos aRefPad) aOffset) (pad_Pos pad))
         in if dist < nearestDist
            then nearestPad_pads env aRefPad aOffset rest (Some pad, dist)
            else nearestPad_pads env aRefPad aOffset rest (nearest, nearestDist)))"

text \<open>
  The outer loop over the footprints of the board, each with its index; \<open>aRefFP\<close> is the
  index of the footprint that is being placed.
\<close>

fun nearestPad_fps ::
  "AR_ENV \<Rightarrow> EDA_RECT \<Rightarrow> nat \<Rightarrow> PAD \<Rightarrow> wxPoint \<Rightarrow> (nat \<times> MODULE) list \<Rightarrow> PAD option \<times> int
     \<Rightarrow> PAD option \<times> int" where
  "nearestPad_fps env brdBox aRefFP aRefPad aOffset [] acc = acc"
| "nearestPad_fps env brdBox aRefFP aRefPad aOffset ((i, footprint) # rest) acc =
     (if i = aRefFP then nearestPad_fps env brdBox aRefFP aRefPad aOffset rest acc
      else if \<not> Contains brdBox (GetPosition footprint)
      then nearestPad_fps env brdBox aRefFP aRefPad aOffset rest acc
      else nearestPad_fps env brdBox aRefFP aRefPad aOffset rest
             (nearestPad_pads env aRefPad aOffset (Pads footprint) acc))"

definition nearestPad :: "AR_ENV \<Rightarrow> AR_AUTOPLACER \<Rightarrow> nat \<Rightarrow> PAD \<Rightarrow> wxPoint \<Rightarrow> PAD option" where
  "nearestPad env st aRefFP aRefPad aOffset =
     fst (nearestPad_fps env (m_BrdBox (m_matrix st)) aRefFP aRefPad aOffset
            (enumerate 0 (footprints st)) (None, INT64_MAX))"

text \<open>\<^verbatim>\<open>hypot\<close> of the C library, on reals.\<close>

definition hypot :: "real \<Rightarrow> real \<Rightarrow> real" where
  "hypot a b = sqrt (a\<^sup>2 + b\<^sup>2)"

fun ratsnest_loop :: "AR_ENV \<Rightarrow> AR_AUTOPLACER \<Rightarrow> nat \<Rightarrow> wxPoint \<Rightarrow> PAD list \<Rightarrow> real \<Rightarrow> real" where
  "ratsnest_loop env st aFootprint aOffset [] curr_cost = curr_cost"
| "ratsnest_loop env st aFootprint aOffset (pad # rest) curr_cost =
     (case nearestPad env st aFootprint pad aOffset of
        None \<Rightarrow> ratsnest_loop env st aFootprint aOffset rest curr_cost
      | Some nearest \<Rightarrow>
          (let start = pt_sub (pad_Pos pad) aOffset;
               end' = pad_Pos nearest;
               dx = fst end' - fst start;
               dy = snd end' - snd start;
               dx = \<bar>dx\<bar>;
               dy = \<bar>dy\<bar>;
               (dx, dy) = (if dx < dy then (dy, dx) else (dx, dy));
               conn_cost = hypot (real_of_int dx) (real_of_int dy * 2)
           in ratsnest_loop env st aFootprint aOffset rest (curr_cost + conn_cost)))"

definition computePlacementRatsnestCost :: "AR_ENV \<Rightarrow> AR_AUTOPLACER \<Rightarrow> nat \<Rightarrow> wxPoint \<Rightarrow> real" where
  "computePlacementRatsnestCost env st aFootprint aOffset =
     ratsnest_loop env st aFootprint aOffset (Pads (footprints st ! aFootprint)) 0"

subsection \<open>testFootprintOnBoard\<close>

text \<open>
  The function returns an \<^verbatim>\<open>int\<close>: the code of the verdict, or the keep-out cost, whose
  \<^verbatim>\<open>unsigned int\<close> is read as a signed word, so that a cost of \<open>2 ^ 31\<close> or more comes out
  negative.
\<close>

definition testFootprintOnBoard :: "AR_MATRIX \<Rightarrow> MODULE \<Rightarrow> bool \<Rightarrow> wxPoint \<Rightarrow> int" where
  "testFootprintOnBoard m aFootprint TstOtherSide aOffset =
     (let (side, otherside) =
            (if GetLayer aFootprint = B_Cu then (AR_SIDE_BOTTOM, AR_SIDE_TOP)
             else (AR_SIDE_TOP, AR_SIDE_BOTTOM));
          fpBBox = Move (GetFootprintRect aFootprint) (pt_neg aOffset);
          diag = testRectangle m fpBBox side
      in if diag \<noteq> AR_FREE_CELL then cell_state_code diag
         else if TstOtherSide \<and> testRectangle m fpBBox otherside \<noteq> AR_FREE_CELL
         then cell_state_code (testRectangle m fpBBox otherside)
         else
           (let marge = (m_GridRouting m * GetPadCount aFootprint) sdiv AR_GAIN;
                fpBBox = Inflate fpBBox marge
            in sint (calculateKeepOutArea m fpBBox side)))"

subsection \<open>getOptimalFPPlacement\<close>

text \<open>
  The two nested \<^verbatim>\<open>for\<close> loops of the search: the outer loop advances \<open>x\<close>, the inner loop
  advances \<open>y\<close>, both by the grid pitch \<open>g\<close>. The loop body is a parameter; it receives
  the current position and the variables that the loops carry. The pitch is positive in
  every run (\<^verbatim>\<open>AutoplaceFootprints\<close> raises it to a quarter of a millimetre at least); the
  test \<open>0 < g\<close> makes the recursion well-founded.
\<close>

function placement_loop_y :: "(wxPoint \<Rightarrow> 'a \<Rightarrow> 'a) \<Rightarrow> int \<Rightarrow> int \<Rightarrow> int \<Rightarrow> int \<Rightarrow> 'a \<Rightarrow> 'a" where
  "placement_loop_y body g x y ylimit acc =
     (if y < ylimit \<and> 0 < g then placement_loop_y body g x (y + g) ylimit (body (x, y) acc)
      else acc)"
  by pat_completeness auto
termination
  by (relation "measure (\<lambda>(body, g, x, y, ylimit, acc). nat (ylimit - y))") auto

declare placement_loop_y.simps [simp del]

function placement_loop_x ::
  "(wxPoint \<Rightarrow> 'a \<Rightarrow> 'a) \<Rightarrow> int \<Rightarrow> int \<Rightarrow> int \<Rightarrow> int \<Rightarrow> int \<Rightarrow> 'a \<Rightarrow> 'a" where
  "placement_loop_x body g x xlimit y0 ylimit acc =
     (if x < xlimit \<and> 0 < g
      then placement_loop_x body g (x + g) xlimit y0 ylimit (placement_loop_y body g x y0 ylimit acc)
      else acc)"
  by pat_completeness auto
termination
  by (relation "measure (\<lambda>(body, g, x, xlimit, y0, ylimit, acc). nat (xlimit - x))") auto

declare placement_loop_x.simps [simp del]

text \<open>
  The body of the inner loop. The loops carry \<open>(error, lastPosOK, min_cost)\<close>.
\<close>

definition try_position ::
  "AR_ENV \<Rightarrow> AR_AUTOPLACER \<Rightarrow> nat \<Rightarrow> wxPoint \<Rightarrow> bool \<Rightarrow> wxPoint \<Rightarrow> int \<times> wxPoint \<times> real
     \<Rightarrow> int \<times> wxPoint \<times> real" where
  "try_position env st aFootprint fpPos testOtherSide curPosition acc =
     (let (error, lastPosOK, min_cost) = acc;
          fpOffset = pt_sub fpPos curPosition;
          keepOutCost = testFootprintOnBoard (m_matrix st) (footprints st ! aFootprint)
                          testOtherSide fpOffset
      in if keepOutCost \<ge> 0 then
           (let curr_cost = computePlacementRatsnestCost env st aFootprint fpOffset;
                Score = curr_cost + real_of_int keepOutCost
            in if min_cost \<ge> Score \<or> min_cost < 0 then (0, curPosition, Score)
               else (0, lastPosOK, min_cost))
         else (error, lastPosOK, min_cost))"

definition getOptimalFPPlacement :: "AR_ENV \<Rightarrow> AR_AUTOPLACER \<Rightarrow> nat \<Rightarrow> int \<times> AR_AUTOPLACER" where
  "getOptimalFPPlacement env st aFootprint =
     (let m = m_matrix st;
          fp = footprints st ! aFootprint;
          error = 1;
          lastPosOK = GetOrigin (m_BrdBox m);
          fpPos = GetPosition fp;
          fpBBox = Move (GetFootprintRect fp) (pt_neg fpPos);
          fpBBoxOrg = GetOrigin fpBBox;
          xylimit = pt_sub (GetEnd (m_BrdBox m)) (GetEnd fpBBox);
          initialPos = pt_sub (GetOrigin (m_BrdBox m)) fpBBoxOrg;
          initialPos = (fst initialPos - fst initialPos smod m_GridRouting m,
                        snd initialPos - snd initialPos smod m_GridRouting m);
          testOtherSide =
            (m_RoutingLayersCount m > 1 \<and>
             (let other = (if GetLayer fp = B_Cu then F_Cu else B_Cu)
              in list_ex (\<lambda>pad. other \<in> set (pad_LayerSet pad)) (Pads fp)));
          min_cost = - 1;
          (error, lastPosOK, min_cost) =
            placement_loop_x (try_position env st aFootprint fpPos testOtherSide) (m_GridRouting m)
              (fst initialPos) (fst xylimit) (snd initialPos) (snd xylimit)
              (error, lastPosOK, min_cost)
      in (error, st\<lparr>m_curPosition := lastPosOK, m_minCost := min_cost\<rparr>))"

subsection \<open>fillMatrix and genPlacementRoutingMatrix\<close>

text \<open>The conversion \<^verbatim>\<open>(int)\<close> of a double truncates towards zero.\<close>

definition C_int_of_double :: "real \<Rightarrow> int" where
  "C_int_of_double r = (if 0 \<le> r then \<lfloor>r\<rfloor> else \<lceil>r\<rceil>)"

text \<open>\<^verbatim>\<open>CPoint\<close> of a closed chain takes its index modulo the number of points.\<close>

definition CPoint :: "wxPoint list \<Rightarrow> nat \<Rightarrow> wxPoint" where
  "CPoint outline v = outline ! (v mod length outline)"

text \<open>
  The loop over the sides of the outline for the scan line at \<open>refy\<close>: the list of the
  intersection abscissas, in the order of the sides. The inverse slope and its product by
  the distance to the scan line are doubles, each rounded, and the product is truncated to
  an \<^verbatim>\<open>int\<close>.
\<close>

fun scanline_x :: "wxPoint list \<Rightarrow> int \<Rightarrow> nat list \<Rightarrow> int list" where
  "scanline_x outline refy [] = []"
| "scanline_x outline refy (v # vs) =
     (let seg_startX = fst (CPoint outline v);
          seg_startY = snd (CPoint outline v);
          seg_endX = fst (CPoint outline (v + 1));
          seg_endY = snd (CPoint outline (v + 1))
      in if seg_startY > refy \<and> seg_endY > refy then scanline_x outline refy vs
         else if seg_startY \<le> refy \<and> seg_endY \<le> refy then scanline_x outline refy vs
         else
           (let seg_endX = seg_endX - seg_startX;
                seg_endY = seg_endY - seg_startY;
                newrefy = real_of_int (refy - seg_startY)
            in if seg_endY = 0 then scanline_x outline refy vs
               else
                 (let inv_slope = binary64 (real_of_int seg_endX / real_of_int seg_endY);
                      intersec_x = binary64 (newrefy * inv_slope)
                  in (C_int_of_double intersec_x + seg_startX) # scanline_x outline refy vs)))"

text \<open>The loop that fills the cells of row \<open>idy\<close> between two intersections.\<close>

function fill_cells :: "int \<Rightarrow> int \<Rightarrow> int \<Rightarrow> int \<Rightarrow> int \<Rightarrow> AR_MATRIX \<Rightarrow> AR_MATRIX" where
  "fill_cells idy seg_start_x seg_end_x ncols idx m =
     (if idx < ncols then
        (if idx * m_GridRouting m > seg_end_x then m
         else fill_cells idy seg_start_x seg_end_x ncols (idx + 1)
                (if idx * m_GridRouting m \<ge> seg_start_x
                 then SetCell m idy idx AR_SIDE_BOTTOM CELL_IS_ZONE else m))
      else m)"
  by pat_completeness auto
termination
  by (relation "measure (\<lambda>(idy, seg_start_x, seg_end_x, ncols, idx, m). nat (ncols - idx))") auto

declare fill_cells.simps [simp del]

text \<open>The loop over the pairs of consecutive intersections of one scan line.\<close>

fun fill_row :: "int \<Rightarrow> int \<Rightarrow> int list \<Rightarrow> AR_MATRIX \<Rightarrow> AR_MATRIX" where
  "fill_row idy orgx (a # b # rest) m =
     (let seg_start_x = a - orgx;
          seg_end_x = b - orgx
      in fill_row idy orgx rest
           (fill_cells idy seg_start_x seg_end_x (m_Ncols m) (seg_start_x sdiv m_GridRouting m) m))"
| "fill_row idy orgx xs m = m"

text \<open>
  The loop over the scan lines. The result is \<open>(success, matrix)\<close>. The loop advances
  \<open>refy\<close> by the pitch \<open>step\<close>, which is positive in every run.
\<close>

function fill_rows :: "wxPoint list \<Rightarrow> int \<Rightarrow> wxPoint \<Rightarrow> int \<Rightarrow> int \<Rightarrow> AR_MATRIX \<Rightarrow> bool \<times> AR_MATRIX" where
  "fill_rows outline step coord_orgin endy refy m =
     (if refy < endy \<and> 0 < step then
        (let idy = (refy - snd coord_orgin) sdiv step
         in if idy \<ge> m_Nrows m then (True, m)
            else if idy \<le> 0 then fill_rows outline step coord_orgin endy (refy + step) m
            else
              (let x_coordinates = sort (scanline_x outline refy [0..<length outline])
               in if odd (length x_coordinates) then (False, m)
                  else fill_rows outline step coord_orgin endy (refy + step)
                         (fill_row idy (fst coord_orgin) x_coordinates m)))
      else (True, m))"
  by pat_completeness auto
termination
  by (relation "measure (\<lambda>(outline, step, coord_orgin, endy, refy, m). nat (endy - refy))") auto

declare fill_rows.simps [simp del]

text \<open>
  The same loop over the scan lines with the intersections of a scan line as a parameter
  \<open>X\<close>: \<^verbatim>\<open>fillMatrix\<close> runs it with the intersections that \<open>scanline_x\<close> finds on the
  outline. It shows what the parity test does with an odd count, which those
  intersections never have.
\<close>

function fill_rows_with :: "(int \<Rightarrow> int list) \<Rightarrow> int \<Rightarrow> wxPoint \<Rightarrow> int \<Rightarrow> int \<Rightarrow> AR_MATRIX \<Rightarrow> bool \<times> AR_MATRIX" where
  "fill_rows_with X step coord_orgin endy refy m =
     (if refy < endy \<and> 0 < step then
        (let idy = (refy - snd coord_orgin) sdiv step
         in if idy \<ge> m_Nrows m then (True, m)
            else if idy \<le> 0 then fill_rows_with X step coord_orgin endy (refy + step) m
            else
              (let x_coordinates = sort (X refy)
               in if odd (length x_coordinates) then (False, m)
                  else fill_rows_with X step coord_orgin endy (refy + step)
                         (fill_row idy (fst coord_orgin) x_coordinates m)))
      else (True, m))"
  by pat_completeness auto
termination
  by (relation "measure (\<lambda>(X, step, coord_orgin, endy, refy, m). nat (endy - refy))") auto

declare fill_rows_with.simps [simp del]

text \<open>
  Modelled from the spec: \<^verbatim>\<open>SHAPE_LINE_CHAIN::BBox\<close> is declared outside the sources; the
  bounding box of the outline spans the least and the greatest ordinate of its points.
\<close>

definition outline_GetY :: "wxPoint list \<Rightarrow> int" where
  "outline_GetY outline = (case outline of [] \<Rightarrow> 0 | p # ps \<Rightarrow> fold min (map snd ps) (snd p))"

definition outline_GetBottom :: "wxPoint list \<Rightarrow> int" where
  "outline_GetBottom outline = (case outline of [] \<Rightarrow> 0 | p # ps \<Rightarrow> fold max (map snd ps) (snd p))"

definition fillMatrix :: "AR_ENV \<Rightarrow> AR_MATRIX \<Rightarrow> bool \<times> AR_MATRIX" where
  "fillMatrix env m =
     (let step = m_GridRouting m;
          coord_orgin = GetBrdCoordOrigin m;
          outline = brd_Outline env
      in fill_rows outline step coord_orgin (outline_GetBottom outline) (outline_GetY outline) m)"

text \<open>
  Modelled from the spec: \<^verbatim>\<open>InitRoutingMatrix\<close> and \<^verbatim>\<open>UnInitRoutingMatrix\<close> are declared
  outside the sources; they allocate and release the cells. A fresh or released matrix
  has empty cells and no keep-out cost.
\<close>

definition InitRoutingMatrix :: "AR_MATRIX \<Rightarrow> AR_MATRIX" where
  "InitRoutingMatrix m =
     m\<lparr>m_BoardSide := (\<lambda>side row col. CELL_IS_EMPTY), m_DistSide := (\<lambda>side row col. 0)\<rparr>"

definition UnInitRoutingMatrix :: "AR_MATRIX \<Rightarrow> AR_MATRIX" where
  "UnInitRoutingMatrix m =
     m\<lparr>m_BoardSide := (\<lambda>side row col. CELL_IS_EMPTY), m_DistSide := (\<lambda>side row col. 0)\<rparr>"

definition genPlacementRoutingMatrix :: "AR_ENV \<Rightarrow> AR_AUTOPLACER \<Rightarrow> int \<times> AR_AUTOPLACER" where
  "genPlacementRoutingMatrix env st =
     (let m = UnInitRoutingMatrix (m_matrix st);
          bbox = brd_BBox env
      in if GetWidth bbox = 0 \<or> GetHeight bbox = 0 then (0, st\<lparr>m_matrix := m\<rparr>)
         else
           (let (brdBox, nrows, ncols) = ComputeMatrixSize env (m_GridRouting m) bbox;
                m = m\<lparr>m_BrdBox := brdBox, m_Nrows := nrows, m_Ncols := ncols\<rparr>;
                m = m\<lparr>m_RoutingLayersCount := 2\<rparr>;
                m = InitRoutingMatrix m;
                m = snd (fillMatrix env m);
                m = TraceDrawings env m;
                m = m\<lparr>m_BoardSide := (m_BoardSide m)(AR_SIDE_TOP := m_BoardSide m AR_SIDE_BOTTOM)\<rparr>
            in (1, st\<lparr>m_matrix := m\<rparr>)))"

subsection \<open>The orchestrator: AutoplaceFootprints\<close>

text \<open>Penalty (cost) for the rotation cost classes \<^verbatim>\<open>CntRot90\<close> and \<^verbatim>\<open>CntRot180\<close>.\<close>

definition OrientationPenalty :: "nat \<Rightarrow> real" where
  "OrientationPenalty n = [2.0, 1.9, 1.8, 1.7, 1.6, 1.5, 1.4, 1.3, 1.2, 1.1, 1.0] ! n"

definition placeFootprint :: "AR_AUTOPLACER \<Rightarrow> nat \<Rightarrow> wxPoint \<Rightarrow> AR_AUTOPLACER" where
  "placeFootprint st aFootprint aPos =
     st\<lparr>footprints := (footprints st)[aFootprint := SetPosition (footprints st ! aFootprint) aPos]\<rparr>"

definition rotateFootprint :: "AR_AUTOPLACER \<Rightarrow> nat \<Rightarrow> int \<Rightarrow> bool \<Rightarrow> AR_AUTOPLACER" where
  "rotateFootprint st aFootprint angle incremental =
     (let fp = footprints st ! aFootprint
      in st\<lparr>footprints := (footprints st)[aFootprint :=
              (if incremental then SetOrientation fp (GetOrientation fp + angle)
               else SetOrientation fp angle)]\<rparr>)"

text \<open>
  \<^verbatim>\<open>genModuleOnRoutingMatrix\<close> stamps a unit into the matrix. The subtraction of its outline
  from the free-area polygons is left out.
\<close>

definition genModuleOnRoutingMatrix :: "AR_ENV \<Rightarrow> AR_MATRIX \<Rightarrow> MODULE \<Rightarrow> AR_MATRIX" where
  "genModuleOnRoutingMatrix env m Module =
     (let fpBBox = Inflate (GetBoundingBox Module) (m_GridRouting m sdiv 2);
          ox = GetX fpBBox;
          fx = GetRight fpBBox;
          oy = GetY fpBBox;
          fy = GetBottom fpBBox;
          ox = (if ox < GetX (m_BrdBox m) then GetX (m_BrdBox m) else ox);
          ox = (if ox > GetRight (m_BrdBox m) then GetRight (m_BrdBox m) else ox);
          fx = (if fx < GetX (m_BrdBox m) then GetX (m_BrdBox m) else fx);
          fx = (if fx > GetRight (m_BrdBox m) then GetRight (m_BrdBox m) else fx);
          oy = (if oy < GetY (m_BrdBox m) then GetY (m_BrdBox m) else oy);
          oy = (if oy > GetBottom (m_BrdBox m) then GetBottom (m_BrdBox m) else oy);
          fy = (if fy < GetY (m_BrdBox m) then GetY (m_BrdBox m) else fy);
          fy = (if fy > GetBottom (m_BrdBox m) then GetBottom (m_BrdBox m) else fy);
          layerMask = (if GetLayer Module = F_Cu then [F_Cu] else []) @
                      (if GetLayer Module = B_Cu then [B_Cu] else []);
          m = TraceFilledRectangle env m ox oy fx fy layerMask CELL_IS_MODULE;
          m = fold (\<lambda>pad m. PlacePad env m pad CELL_IS_MODULE
                               (m_GridRouting m sdiv 2 + GetOwnClearance env pad))
                (Pads Module) m;
          margin = (m_GridRouting m * GetPadCount Module) sdiv AR_GAIN
      in CreateKeepOutRectangle env m ox oy fx fy margin AR_KEEPOUT_MARGIN layerMask)"

text \<open>
  The two comparison functions of \<^verbatim>\<open>pickFootprint\<close>, and \<^verbatim>\<open>std::sort\<close> with a comparison
  function. C++ leaves the order of the elements that compare equal open; the model keeps
  them in their former order.
\<close>

definition sortFootprintsByComplexity :: "MODULE \<Rightarrow> MODULE \<Rightarrow> bool" where
  "sortFootprintsByComplexity ref compare =
     (let ff1 = GetArea ref * real_of_int (GetPadCount ref);
          ff2 = GetArea compare * real_of_int (GetPadCount compare)
      in ff2 < ff1)"

definition sortFootprintsByRatsnestSize :: "MODULE \<Rightarrow> MODULE \<Rightarrow> bool" where
  "sortFootprintsByRatsnestSize ref compare =
     (let ff1 = GetArea ref * real (GetFlag ref);
          ff2 = GetArea compare * real (GetFlag compare)
      in ff2 < ff1)"

fun insert_by :: "('a \<Rightarrow> 'a \<Rightarrow> bool) \<Rightarrow> 'a \<Rightarrow> 'a list \<Rightarrow> 'a list" where
  "insert_by before x [] = [x]"
| "insert_by before x (y # ys) = (if before y x then y # insert_by before x ys else x # y # ys)"

definition sort_by :: "('a \<Rightarrow> 'a \<Rightarrow> bool) \<Rightarrow> 'a list \<Rightarrow> 'a list" where
  "sort_by before xs = foldr (insert_by before) xs []"

text \<open>
  The last loop of \<^verbatim>\<open>pickFootprint\<close>, over the sorted indices: the result is
  \<open>(bestModule, altModule)\<close>.
\<close>

fun pick_loop :: "MODULE list \<Rightarrow> nat list \<Rightarrow> nat option \<Rightarrow> nat option \<times> nat option" where
  "pick_loop fps [] altModule = (None, altModule)"
| "pick_loop fps (ii # rest) altModule =
     (if \<not> NeedsPlaced (fps ! ii) then pick_loop fps rest altModule
      else if GetFlag (fps ! ii) = 0 then pick_loop fps rest (Some ii)
      else (Some ii, Some ii))"

definition pickFootprint :: "AR_ENV \<Rightarrow> AR_AUTOPLACER \<Rightarrow> nat option \<times> AR_AUTOPLACER" where
  "pickFootprint env st =
     (let fps = footprints st;
          fpList = [0..<length fps];
          fpList = sort_by (\<lambda>a b. sortFootprintsByComplexity (fps ! a) (fps ! b)) fpList;
          fps = map (\<lambda>footprint. SetFlag footprint 0) fps;
          fps = map (\<lambda>(kk, footprint). SetFlag footprint (RatsnestEdges env fps kk)) (enumerate 0 fps);
          fpList = sort_by (\<lambda>a b. sortFootprintsByRatsnestSize (fps ! a) (fps ! b)) fpList;
          (bestModule, altModule) = pick_loop fps fpList None
      in ((if bestModule \<noteq> None then bestModule else altModule), st\<lparr>footprints := fps\<rparr>))"

datatype AR_RESULT = AR_COMPLETED | AR_CANCELLED | AR_FAILURE

text \<open>
  One of the three trials at a rotated orientation. The variables that the trials carry
  are \<open>(error, bestScore, bestRotation, state)\<close>. A trial is skipped when an earlier search
  returned \<open>AR_ABORT_PLACEMENT\<close> (the \<^verbatim>\<open>goto end_of_tst\<close>) and when the rotation class is 0.
\<close>

definition try_orientation ::
  "AR_ENV \<Rightarrow> nat \<Rightarrow> int \<Rightarrow> int \<Rightarrow> nat \<Rightarrow> int \<times> real \<times> int \<times> AR_AUTOPLACER
     \<Rightarrow> int \<times> real \<times> int \<times> AR_AUTOPLACER" where
  "try_orientation env footprint initialOrient angle rotAllowed acc =
     (let (error, bestScore, bestRotation, st) = acc
      in if error = AR_ABORT_PLACEMENT then acc
         else if rotAllowed \<noteq> 0 then
           (let st = rotateFootprint st footprint angle True;
                (error, st) = getOptimalFPPlacement env st footprint;
                st = st\<lparr>m_minCost := m_minCost st * OrientationPenalty rotAllowed\<rparr>
            in if bestScore > m_minCost st then (error, m_minCost st, angle, st)
               else (error, bestScore, bestRotation, rotateFootprint st footprint initialOrient False))
         else acc)"

text \<open>
  The first part of the body of the \<^verbatim>\<open>while\<close> loop, up to the label \<^verbatim>\<open>end_of_tst\<close>: the
  search at the current orientation, then the trials at 180, 90 and 270 degrees.
\<close>

definition orientation_trials ::
  "AR_ENV \<Rightarrow> AR_AUTOPLACER \<Rightarrow> nat \<Rightarrow> int \<times> real \<times> int \<times> AR_AUTOPLACER" where
  "orientation_trials env st footprint =
     (let initialOrient = GetOrientation (footprints st ! footprint);
          (error, st) = getOptimalFPPlacement env st footprint;
          bestScore = m_minCost st;
          bestRotation = 0;
          acc = (error, bestScore, bestRotation, st);
          acc = try_orientation env footprint initialOrient 1800
                  (GetPlacementCost180 (footprints st ! footprint)) acc;
          rotAllowed = GetPlacementCost90 (footprints st ! footprint);
          acc = try_orientation env footprint initialOrient 900 rotAllowed acc
      in try_orientation env footprint initialOrient 2700 rotAllowed acc)"

text \<open>
  The second part, after the label: the unit takes the best orientation and the current
  search position, is stamped into the matrix and marked as placed.
\<close>

definition commit_footprint :: "AR_ENV \<Rightarrow> AR_AUTOPLACER \<Rightarrow> nat \<Rightarrow> int \<Rightarrow> AR_AUTOPLACER" where
  "commit_footprint env st footprint bestRotation =
     (let st = (if bestRotation \<noteq> GetOrientation (footprints st ! footprint)
                then rotateFootprint st footprint bestRotation False else st);
          st = placeFootprint st footprint (m_curPosition st);
          st = st\<lparr>m_matrix := genModuleOnRoutingMatrix env (m_matrix st) (footprints st ! footprint)\<rparr>
      in st\<lparr>footprints := (footprints st)[footprint :=
              SetNeedsPlaced (SetIsPlaced (footprints st ! footprint) True) False]\<rparr>)"

datatype loop_exit = Continue | Aborted | Cancelled

text \<open>
  The body of the \<^verbatim>\<open>while\<close> loop for the unit \<open>footprint\<close> that \<^verbatim>\<open>pickFootprint\<close> returned;
  \<open>cnt\<close> counts the units committed so far. \<open>Aborted\<close> is the \<^verbatim>\<open>break\<close> on
  \<^verbatim>\<open>AR_ABORT_PLACEMENT\<close>, \<open>Cancelled\<close> the \<^verbatim>\<open>break\<close> on the answer of the progress reporter.
\<close>

definition place_step :: "AR_ENV \<Rightarrow> AR_AUTOPLACER \<Rightarrow> nat \<Rightarrow> nat \<Rightarrow> loop_exit \<times> AR_AUTOPLACER" where
  "place_step env st footprint cnt =
     (let initialOrient = GetOrientation (footprints st ! footprint);
          (error, bestScore, bestRotation, st) = orientation_trials env st footprint
      in if error = AR_ABORT_PLACEMENT then (Aborted, st)
         else
           (let st = commit_footprint env st footprint (bestRotation + initialOrient)
            in case Reporter env of
                 None \<Rightarrow> (Continue, st)
               | Some KeepRefreshing \<Rightarrow>
                   if \<not> KeepRefreshing cnt then (Cancelled, st) else (Continue, st)))"

text \<open>The number of units that still need to be placed: the measure of the main loop.\<close>

definition needs_count :: "AR_AUTOPLACER \<Rightarrow> nat" where
  "needs_count st = length (filter fp_NeedsPlaced (footprints st))"

subsection \<open>The main loop\<close>

text \<open>
  The \<^verbatim>\<open>while\<close> loop of \<^verbatim>\<open>AutoplaceFootprints\<close> runs as long as \<^verbatim>\<open>pickFootprint\<close> returns
  a unit. It ends because every pass that does not leave the loop takes one unit out of
  the units that need to be placed; the lemmas below establish this for the termination
  proof. \<open>pose_frame i\<close> relates two lists of units that differ at most in the position
  and the orientation of unit \<open>i\<close>; \<open>pick_flags\<close> is the list of units after
  \<^verbatim>\<open>pickFootprint\<close> has set the counters.
\<close>

lemma set_insert_by: "set (insert_by before x ys) = insert x (set ys)"
  by (induction ys) auto

lemma set_sort_by: "set (sort_by before xs) = set xs"
  unfolding sort_by_def by (induction xs) (auto simp: set_insert_by)

lemma pick_loop_best:
  "pick_loop fps xs alt = (Some i, a) \<Longrightarrow> i \<in> set xs \<and> NeedsPlaced (fps ! i)"
  by (induction fps xs alt rule: pick_loop.induct) (auto split: if_splits)

lemma pick_loop_alt:
  "pick_loop fps xs alt = (b, Some i) \<Longrightarrow> alt = Some i \<or> (i \<in> set xs \<and> NeedsPlaced (fps ! i))"
  by (induction fps xs alt rule: pick_loop.induct) (auto split: if_splits)

definition pick_flags :: "AR_ENV \<Rightarrow> MODULE list \<Rightarrow> MODULE list" where
  "pick_flags env fps0 =
     (let fps = map (\<lambda>footprint. SetFlag footprint 0) fps0
      in map (\<lambda>(kk, footprint). SetFlag footprint (RatsnestEdges env fps kk)) (enumerate 0 fps))"

lemma length_pick_flags: "length (pick_flags env fps) = length fps"
  by (simp add: pick_flags_def Let_def)

lemma nth_pick_flags:
  "k < length fps \<Longrightarrow> \<exists>n. pick_flags env fps ! k = (fps ! k)\<lparr>fp_Flag := n\<rparr>"
  by (rule exI[of _ "RatsnestEdges env (map (\<lambda>footprint. SetFlag footprint 0) fps) k"])
     (simp add: pick_flags_def Let_def nth_enumerate_eq SetFlag_def)

lemma pickFootprint_state:
  "snd (pickFootprint env st) = st\<lparr>footprints := pick_flags env (footprints st)\<rparr>"
  by (simp add: pickFootprint_def pick_flags_def Let_def split: prod.splits)

lemma pickFootprint_Some:
  assumes "pickFootprint env st = (Some i, st')"
  shows "i < length (footprints st) \<and> fp_NeedsPlaced (footprints st ! i)"
proof -
  define fps where "fps = pick_flags env (footprints st)"
  define l where "l = sort_by (\<lambda>a b. sortFootprintsByRatsnestSize (fps ! a) (fps ! b))
      (sort_by (\<lambda>a b. sortFootprintsByComplexity (footprints st ! a) (footprints st ! b)) [0..<length (footprints st)])"
  obtain b a where ba: "pick_loop fps l None = (b, a)" by (cases "pick_loop fps l None") auto
  have res: "(if b \<noteq> None then b else a) = Some i"
    using assms ba unfolding pickFootprint_def Let_def fps_def l_def pick_flags_def
    by (simp split: prod.splits)
  have "i \<in> set l \<and> NeedsPlaced (fps ! i)"
  proof (cases b)
    case None
    with res have "a = Some i" by simp
    with ba pick_loop_alt[of fps l None b i] show ?thesis by auto
  next
    case (Some j)
    with res have "b = Some i" by simp
    with ba pick_loop_best[of fps l None i a] show ?thesis by auto
  qed
  moreover have "set l = {0..<length (footprints st)}"
    unfolding l_def by (simp add: set_sort_by)
  ultimately have i: "i < length (footprints st)" and np: "NeedsPlaced (fps ! i)" by auto
  from nth_pick_flags[OF i, of env] np show ?thesis
    using i unfolding fps_def NeedsPlaced_def by auto
qed

lemma footprints_getOptimalFPPlacement:
  "footprints (snd (getOptimalFPPlacement env st i)) = footprints st"
  by (simp add: getOptimalFPPlacement_def Let_def split: prod.splits)

lemma matrix_getOptimalFPPlacement:
  "m_matrix (snd (getOptimalFPPlacement env st i)) = m_matrix st"
  by (simp add: getOptimalFPPlacement_def Let_def split: prod.splits)


definition pose_frame :: "nat \<Rightarrow> MODULE list \<Rightarrow> MODULE list \<Rightarrow> bool" where
  "pose_frame i fps fps' \<longleftrightarrow>
     length fps' = length fps \<and>
     (\<forall>j < length fps.
        (j \<noteq> i \<longrightarrow> fps' ! j = fps ! j) \<and>
        fps' ! j = (fps ! j)\<lparr>fp_Pos := fp_Pos (fps' ! j), fp_Orient := fp_Orient (fps' ! j)\<rparr>)"

lemma pose_frame_refl: "pose_frame i fps fps"
  by (simp add: pose_frame_def)

lemma pose_frame_trans:
  assumes "pose_frame i a b" "pose_frame i b c"
  shows "pose_frame i a c"
  unfolding pose_frame_def
proof (intro conjI allI impI)
  show "length c = length a" using assms by (simp add: pose_frame_def)
next
  fix j assume j: "j < length a"
  then have jb: "j < length b" using assms(1) by (simp add: pose_frame_def)
  show "c ! j = a ! j" if "j \<noteq> i"
    using that assms j jb by (simp add: pose_frame_def)
  have b: "b ! j = (a ! j)\<lparr>fp_Pos := fp_Pos (b ! j), fp_Orient := fp_Orient (b ! j)\<rparr>"
    using assms(1) j by (simp add: pose_frame_def)
  have c: "c ! j = (b ! j)\<lparr>fp_Pos := fp_Pos (c ! j), fp_Orient := fp_Orient (c ! j)\<rparr>"
    using assms(2) jb by (simp add: pose_frame_def)
  show "c ! j = (a ! j)\<lparr>fp_Pos := fp_Pos (c ! j), fp_Orient := fp_Orient (c ! j)\<rparr>"
    by (subst c, subst b) simp
qed

lemma pose_frame_update:
  assumes "\<And>fp. f fp = fp\<lparr>fp_Pos := fp_Pos (f fp), fp_Orient := fp_Orient (f fp)\<rparr>"
  shows "pose_frame i fps (fps[i := f (fps ! i)])"
  unfolding pose_frame_def
proof (intro conjI allI impI)
  fix j assume j: "j < length fps"
  show "fps[i := f (fps ! i)] ! j =
        (fps ! j)\<lparr>fp_Pos := fp_Pos (fps[i := f (fps ! i)] ! j), fp_Orient := fp_Orient (fps[i := f (fps ! i)] ! j)\<rparr>"
  proof (cases "j = i")
    case True
    with j show ?thesis using assms[of "fps ! i"] by simp
  next
    case False
    then show ?thesis by simp
  qed
qed simp_all

lemma pose_frame_rotateFootprint:
  "pose_frame i (footprints st) (footprints (rotateFootprint st i angle incremental))"
proof -
  have "footprints (rotateFootprint st i angle incremental) =
        (footprints st)[i := (\<lambda>fp. if incremental then SetOrientation fp (GetOrientation fp + angle)
                                     else SetOrientation fp angle) (footprints st ! i)]"
    by (simp add: rotateFootprint_def Let_def)
  moreover have "pose_frame i (footprints st) ((footprints st)[i :=
      (\<lambda>fp. if incremental then SetOrientation fp (GetOrientation fp + angle)
             else SetOrientation fp angle) (footprints st ! i)])"
    by (rule pose_frame_update) (simp add: SetOrientation_def)
  ultimately show ?thesis by simp
qed

lemma pose_frame_placeFootprint:
  "pose_frame i (footprints st) (footprints (placeFootprint st i p))"
proof -
  have "footprints (placeFootprint st i p) = (footprints st)[i := (\<lambda>fp. SetPosition fp p) (footprints st ! i)]"
    by (simp add: placeFootprint_def)
  moreover have "pose_frame i (footprints st) ((footprints st)[i := (\<lambda>fp. SetPosition fp p) (footprints st ! i)])"
    by (rule pose_frame_update) (simp add: SetPosition_def)
  ultimately show ?thesis by simp
qed

lemma pose_frame_try_orientation:
  assumes "try_orientation env i initialOrient angle rotAllowed (e, bs, br, st) = (e', bs', br', st')"
  shows "pose_frame i (footprints st) (footprints st')"
proof (cases "e = AR_ABORT_PLACEMENT \<or> rotAllowed = 0")
  case True
  then have "st' = st" using assms by (auto simp: try_orientation_def split: if_splits)
  then show ?thesis by (simp add: pose_frame_refl)
next
  case False
  define st1 where "st1 = rotateFootprint st i angle True"
  define st2 where "st2 = snd (getOptimalFPPlacement env st1 i)"
  have f2: "footprints st2 = footprints st1"
    by (simp add: st2_def footprints_getOptimalFPPlacement)
  have p1: "pose_frame i (footprints st) (footprints st2)"
    unfolding f2 st1_def by (rule pose_frame_rotateFootprint)
  define st3 where "st3 = st2\<lparr>m_minCost := m_minCost st2 * OrientationPenalty rotAllowed\<rparr>"
  have f3: "footprints st3 = footprints st2" by (simp add: st3_def)
  have "st' = st3 \<or> st' = rotateFootprint st3 i initialOrient False"
    using assms False unfolding try_orientation_def Let_def st1_def st2_def st3_def
    by (auto split: prod.splits if_splits)
  then show ?thesis
  proof
    assume "st' = st3"
    with p1 f3 show ?thesis by simp
  next
    assume "st' = rotateFootprint st3 i initialOrient False"
    with pose_frame_trans[OF p1, of "footprints st'"] pose_frame_rotateFootprint[of i st3 initialOrient False] f3
    show ?thesis by simp
  qed
qed

lemma pose_frame_orientation_trials:
  assumes "orientation_trials env st i = (e, bs, br, st')"
  shows "pose_frame i (footprints st) (footprints st')"
proof -
  define st0 where "st0 = snd (getOptimalFPPlacement env st i)"
  define e0 where "e0 = fst (getOptimalFPPlacement env st i)"
  have f0: "footprints st0 = footprints st" by (simp add: st0_def footprints_getOptimalFPPlacement)
  define io where "io = GetOrientation (footprints st ! i)"
  define r where "r = GetPlacementCost90 (footprints st0 ! i)"
  define a1 where "a1 = try_orientation env i io 1800
                  (GetPlacementCost180 (footprints st0 ! i)) (e0, m_minCost st0, 0, st0)"
  define a2 where "a2 = try_orientation env i io 900 r a1"
  define a3 where "a3 = try_orientation env i io 2700 r a2"
  obtain e1 b1 r1 s1 where A1: "a1 = (e1, b1, r1, s1)" by (cases a1) auto
  obtain e2 b2 r2 s2 where A2: "a2 = (e2, b2, r2, s2)" by (cases a2) auto
  have "orientation_trials env st i = a3"
    unfolding orientation_trials_def a3_def a2_def a1_def r_def io_def e0_def st0_def
    by (simp add: Let_def split_beta)
  with assms have A3: "a3 = (e, bs, br, st')" by simp
  have p1: "pose_frame i (footprints st) (footprints s1)"
    using pose_frame_try_orientation[OF a1_def[unfolded A1, symmetric]] f0 by simp
  have p2: "pose_frame i (footprints s1) (footprints s2)"
    using pose_frame_try_orientation[OF a2_def[unfolded A1 A2, symmetric]] by simp
  have p3: "pose_frame i (footprints s2) (footprints st')"
    using pose_frame_try_orientation[OF a3_def[unfolded A2 A3, symmetric]] by simp
  show ?thesis
    using pose_frame_trans[OF pose_frame_trans[OF p1 p2] p3] .
qed

lemma commit_footprint_footprints:
  "\<exists>fps1. pose_frame i (footprints st) fps1 \<and>
      footprints (commit_footprint env st i rot) =
        fps1[i := (fps1 ! i)\<lparr>fp_IsPlaced := True, fp_NeedsPlaced := False\<rparr>]"
proof -
  define s4 where "s4 = (if rot \<noteq> GetOrientation (footprints st ! i)
                      then rotateFootprint st i rot False else st)"
  define s5 where "s5 = placeFootprint s4 i (m_curPosition s4)"
  have p4: "pose_frame i (footprints st) (footprints s4)"
    unfolding s4_def by (simp add: pose_frame_refl pose_frame_rotateFootprint)
  have p5: "pose_frame i (footprints st) (footprints s5)"
    unfolding s5_def using pose_frame_trans[OF p4 pose_frame_placeFootprint] .
  have "footprints (commit_footprint env st i rot) =
        (footprints s5)[i := (footprints s5 ! i)\<lparr>fp_IsPlaced := True, fp_NeedsPlaced := False\<rparr>]"
    unfolding commit_footprint_def s5_def s4_def Let_def
    by (simp add: SetNeedsPlaced_def SetIsPlaced_def)
  with p5 show ?thesis by blast
qed

lemma place_step_footprints:
  assumes "place_step env st i cnt = (ex, st')"
  shows "\<exists>fps1. pose_frame i (footprints st) fps1 \<and>
           footprints st' = (if ex = Aborted then fps1
                             else fps1[i := (fps1 ! i)\<lparr>fp_IsPlaced := True, fp_NeedsPlaced := False\<rparr>])"
proof -
  obtain e bs br s3 where ot: "orientation_trials env st i = (e, bs, br, s3)"
    by (cases "orientation_trials env st i") auto
  note p = pose_frame_orientation_trials[OF ot]
  show ?thesis
  proof (cases "e = AR_ABORT_PLACEMENT")
    case True
    with ot assms have "ex = Aborted" "st' = s3" by (simp_all add: place_step_def Let_def)
    with p show ?thesis by auto
  next
    case False
    define rot where "rot = br + GetOrientation (footprints st ! i)"
    from False ot assms have ex: "ex \<noteq> Aborted" and st': "st' = commit_footprint env s3 i rot"
      by (auto simp: place_step_def Let_def rot_def split: option.splits if_splits)
    from commit_footprint_footprints[of i s3 env rot] obtain fps1 where
      q: "pose_frame i (footprints s3) fps1" and
      f: "footprints (commit_footprint env s3 i rot) = fps1[i := (fps1 ! i)\<lparr>fp_IsPlaced := True, fp_NeedsPlaced := False\<rparr>]"
      by blast
    from pose_frame_trans[OF p q] f ex st' show ?thesis by auto
  qed
qed

lemma pose_frame_NeedsPlaced:
  "pose_frame i fps fps' \<Longrightarrow> map fp_NeedsPlaced fps' = map fp_NeedsPlaced fps"
proof (rule nth_equalityI)
  assume p: "pose_frame i fps fps'"
  then show "length (map fp_NeedsPlaced fps') = length (map fp_NeedsPlaced fps)"
    by (simp add: pose_frame_def)
  fix j assume "j < length (map fp_NeedsPlaced fps')"
  then have j: "j < length fps" using p by (simp add: pose_frame_def)
  then have "fps' ! j = (fps ! j)\<lparr>fp_Pos := fp_Pos (fps' ! j), fp_Orient := fp_Orient (fps' ! j)\<rparr>"
    using p by (simp add: pose_frame_def)
  then have "fp_NeedsPlaced (fps' ! j) = fp_NeedsPlaced (fps ! j)"
    by (metis MODULE.select_convs(8) MODULE.surjective MODULE.update_convs(1) MODULE.update_convs(2))
  with j p show "map fp_NeedsPlaced fps' ! j = map fp_NeedsPlaced fps ! j"
    by (simp add: pose_frame_def)
qed

lemma count_true_update:
  "i < length bs \<Longrightarrow> bs ! i \<Longrightarrow> length (filter id (bs[i := False])) < length (filter id bs)"
proof (induction bs arbitrary: i)
  case Nil
  then show ?case by simp
next
  case (Cons b bs)
  show ?case
  proof (cases i)
    case 0
    with Cons.prems show ?thesis by simp
  next
    case (Suc k)
    with Cons.prems Cons.IH[of k] show ?thesis by simp
  qed
qed

lemma needs_count_alt: "needs_count st = length (filter id (map fp_NeedsPlaced (footprints st)))"
  by (simp add: needs_count_def filter_map comp_def)

lemma place_step_decreases:
  assumes "place_step env st i cnt = (Continue, st')" "i < length (footprints st)"
    "fp_NeedsPlaced (footprints st ! i)"
  shows "needs_count st' < needs_count st"
proof -
  from place_step_footprints[OF assms(1)] obtain fps1 where
    p: "pose_frame i (footprints st) fps1" and
    f: "footprints st' = fps1[i := (fps1 ! i)\<lparr>fp_IsPlaced := True, fp_NeedsPlaced := False\<rparr>]"
    by auto
  have "map fp_NeedsPlaced (footprints st') = (map fp_NeedsPlaced fps1)[i := False]"
    unfolding f by (simp add: map_update)
  also have "\<dots> = (map fp_NeedsPlaced (footprints st))[i := False]"
    using pose_frame_NeedsPlaced[OF p] by simp
  finally have "map fp_NeedsPlaced (footprints st') = (map fp_NeedsPlaced (footprints st))[i := False]" .
  then show ?thesis
    unfolding needs_count_alt using count_true_update[of i "map fp_NeedsPlaced (footprints st)"] assms(2,3)
    by simp
qed

lemma needs_count_pickFootprint: "needs_count (snd (pickFootprint env st)) = needs_count st"
proof -
  have "map fp_NeedsPlaced (pick_flags env (footprints st)) = map fp_NeedsPlaced (footprints st)"
  proof (rule nth_equalityI)
    show "length (map fp_NeedsPlaced (pick_flags env (footprints st))) = length (map fp_NeedsPlaced (footprints st))"
      by (simp add: length_pick_flags)
    fix j assume "j < length (map fp_NeedsPlaced (pick_flags env (footprints st)))"
    then have j: "j < length (footprints st)" by (simp add: length_pick_flags)
    from nth_pick_flags[OF j, of env] obtain n where
      "pick_flags env (footprints st) ! j = (footprints st ! j)\<lparr>fp_Flag := n\<rparr>" by auto
    with j show "map fp_NeedsPlaced (pick_flags env (footprints st)) ! j = map fp_NeedsPlaced (footprints st) ! j"
      by (simp add: length_pick_flags)
  qed
  then show ?thesis unfolding needs_count_alt pickFootprint_state by simp
qed

function autoplace_loop :: "AR_ENV \<Rightarrow> AR_AUTOPLACER \<Rightarrow> nat \<Rightarrow> bool \<times> AR_AUTOPLACER" where
  "autoplace_loop env st cnt =
     (case pickFootprint env st of
        (None, st) \<Rightarrow> (False, st)
      | (Some footprint, st) \<Rightarrow>
          (case place_step env st footprint cnt of
             (Continue, st) \<Rightarrow> autoplace_loop env st (cnt + 1)
           | (Aborted, st) \<Rightarrow> (False, st)
           | (Cancelled, st) \<Rightarrow> (True, st)))"
  by pat_completeness auto
termination
proof (relation "measure (\<lambda>(env, st, cnt). needs_count st)")
  show "wf (measure (\<lambda>(env, st, cnt). needs_count st))" by simp
next
  fix env st cnt x1 x2 footprint y1 y2
  assume pick: "(x1, x2) = pickFootprint env st" and some: "x1 = Some footprint"
    and step: "(y1, y2) = place_step env x2 footprint cnt" and cont: "y1 = Continue"
  have x2: "x2 = st\<lparr>footprints := pick_flags env (footprints st)\<rparr>"
    using pickFootprint_state[of env st] pick[symmetric] by simp
  from pickFootprint_Some[of env st footprint x2] pick some
  have i: "footprint < length (footprints st)" and np: "fp_NeedsPlaced (footprints st ! footprint)"
    by simp_all
  from nth_pick_flags[OF i, of env] obtain n where
    "pick_flags env (footprints st) ! footprint = (footprints st ! footprint)\<lparr>fp_Flag := n\<rparr>" by auto
  with np have np2: "fp_NeedsPlaced (footprints x2 ! footprint)" by (simp add: x2)
  have i2: "footprint < length (footprints x2)" using i by (simp add: x2 length_pick_flags)
  have "needs_count y2 < needs_count x2"
    using place_step_decreases[of env x2 footprint cnt y2] step cont i2 np2 by simp
  also have "needs_count x2 = needs_count st"
    using needs_count_pickFootprint[of env st] pick[symmetric] by simp
  finally show "((env, y2, cnt + 1), env, st, cnt) \<in> measure (\<lambda>(env, st, cnt). needs_count st)"
    by simp
qed

declare autoplace_loop.simps [simp del]

text \<open>The units of \<^verbatim>\<open>aFootprints\<close> and the off-board units are marked and logged.\<close>

definition mark_for_placement :: "nat \<Rightarrow> AR_AUTOPLACER \<Rightarrow> AR_AUTOPLACER" where
  "mark_for_placement footprint st =
     st\<lparr>footprints := (footprints st)[footprint := SetNeedsPlaced (footprints st ! footprint) True],
        commit_log := commit_log st @ [footprint]\<rparr>"

definition AutoplaceFootprints ::
  "AR_ENV \<Rightarrow> AR_AUTOPLACER \<Rightarrow> nat list \<Rightarrow> bool \<Rightarrow> AR_RESULT \<times> AR_AUTOPLACER" where
  "AutoplaceFootprints env st aFootprints aPlaceOffboardModules =
     (let memopos = m_curPosition st;
          st = st\<lparr>m_matrix := (m_matrix st)\<lparr>m_GridRouting := m_gridSize st\<rparr>\<rparr>;
          st = (if m_GridRouting (m_matrix st) < QuarterMillimeter env
                then st\<lparr>m_matrix := (m_matrix st)\<lparr>m_GridRouting := QuarterMillimeter env\<rparr>\<rparr>
                else st);
          (built, st) = genPlacementRoutingMatrix env st
      in if built = 0 then (AR_FAILURE, st)
         else
           (let st = st\<lparr>footprints := map (\<lambda>footprint. SetNeedsPlaced footprint False) (footprints st)\<rparr>;
                offboardMods =
                  (if aPlaceOffboardModules
                   then filter (\<lambda>i. \<not> Contains (m_BrdBox (m_matrix st)) (GetPosition (footprints st ! i)))
                          [0..<length (footprints st)]
                   else []);
                st = fold mark_for_placement aFootprints st;
                st = fold mark_for_placement offboardMods st;
                st = st\<lparr>m_matrix :=
                        fold (\<lambda>footprint m. if NeedsPlaced footprint then m
                                            else genModuleOnRoutingMatrix env m footprint)
                          (footprints st) (m_matrix st)\<rparr>;
                (cancelled, st) = autoplace_loop env st 0;
                st = st\<lparr>m_curPosition := memopos\<rparr>;
                st = st\<lparr>m_matrix := UnInitRoutingMatrix (m_matrix st)\<rparr>
            in (if cancelled then AR_CANCELLED else AR_COMPLETED, st)))"

subsection \<open>Vocabulary for the placement search\<close>

text \<open>
  \<open>grid_steps lo hi g\<close> lists the values that a loop variable takes when it starts at
  \<open>lo\<close>, advances by \<open>g\<close> and stops before \<open>hi\<close>.
\<close>

function grid_steps :: "int \<Rightarrow> int \<Rightarrow> int \<Rightarrow> int list" where
  "grid_steps lo hi g = (if lo < hi \<and> 0 < g then lo # grid_steps (lo + g) hi g else [])"
  by pat_completeness auto
termination
  by (relation "measure (\<lambda>(lo, hi, g). nat (hi - lo))") auto

declare grid_steps.simps [simp del]

text \<open>
  \<open>lex_before p q\<close>: position \<open>p\<close> comes before \<open>q\<close> when \<open>x\<close> is the major
  coordinate and \<open>y\<close> the minor one.
\<close>

definition lex_before :: "wxPoint \<Rightarrow> wxPoint \<Rightarrow> bool" where
  "lex_before p q \<longleftrightarrow> fst p < fst q \<or> (fst p = fst q \<and> snd p < snd q)"

text \<open>
  \<open>keep_best\<close> is the loop body of the search in terms of what makes a position legal
  and what its score is.
\<close>

definition keep_best ::
  "(wxPoint \<Rightarrow> bool) \<Rightarrow> (wxPoint \<Rightarrow> real) \<Rightarrow> wxPoint \<Rightarrow> int \<times> wxPoint \<times> real \<Rightarrow> int \<times> wxPoint \<times> real" where
  "keep_best legal score q acc =
     (let (error, lastPosOK, min_cost) = acc
      in if legal q then
           (if min_cost \<ge> score q \<or> min_cost < 0 then (0, q, score q) else (0, lastPosOK, min_cost))
         else acc)"

text \<open>
  The range of the search for unit \<open>i\<close>: the start is the origin of the board box minus
  the origin of the footprint rectangle (taken relative to the position of the unit),
  snapped to the grid; the limit is the end of the board box minus the end of that
  rectangle. The trial positions are the grid-aligned positions from the start up to, and
  not including, the limit.
\<close>

definition search_origin :: "AR_AUTOPLACER \<Rightarrow> nat \<Rightarrow> wxPoint" where
  "search_origin st i =
     (let m = m_matrix st;
          fp = footprints st ! i;
          r = fp_Rect fp (fp_Orient fp);
          sx = GetX (m_BrdBox m) - GetX r;
          sy = GetY (m_BrdBox m) - GetY r
      in (sx - sx smod m_GridRouting m, sy - sy smod m_GridRouting m))"

definition search_limit :: "AR_AUTOPLACER \<Rightarrow> nat \<Rightarrow> wxPoint" where
  "search_limit st i =
     (let m = m_matrix st;
          fp = footprints st ! i;
          r = fp_Rect fp (fp_Orient fp)
      in (GetRight (m_BrdBox m) - GetRight r, GetBottom (m_BrdBox m) - GetBottom r))"

definition trial_positions :: "AR_AUTOPLACER \<Rightarrow> nat \<Rightarrow> wxPoint set" where
  "trial_positions st i =
     {(x, y). fst (search_origin st i) \<le> x \<and> x < fst (search_limit st i) \<and>
              m_GridRouting (m_matrix st) dvd (x - fst (search_origin st i)) \<and>
              snd (search_origin st i) \<le> y \<and> y < snd (search_limit st i) \<and>
              m_GridRouting (m_matrix st) dvd (y - snd (search_origin st i))}"

text \<open>
  A position is legal when \<^verbatim>\<open>testFootprintOnBoard\<close> returns a keep-out cost, that is a
  value that is not negative; its score is the ratsnest cost plus the keep-out cost.
\<close>

definition needs_other_side :: "AR_MATRIX \<Rightarrow> MODULE \<Rightarrow> bool" where
  "needs_other_side m fp \<longleftrightarrow>
     m_RoutingLayersCount m > 1 \<and>
     (\<exists>pad \<in> set (Pads fp). (if GetLayer fp = B_Cu then F_Cu else B_Cu) \<in> set (pad_LayerSet pad))"

definition keepout_at :: "AR_AUTOPLACER \<Rightarrow> nat \<Rightarrow> wxPoint \<Rightarrow> int" where
  "keepout_at st i p =
     testFootprintOnBoard (m_matrix st) (footprints st ! i)
       (needs_other_side (m_matrix st) (footprints st ! i))
       (pt_sub (GetPosition (footprints st ! i)) p)"

definition legal_position :: "AR_AUTOPLACER \<Rightarrow> nat \<Rightarrow> wxPoint \<Rightarrow> bool" where
  "legal_position st i p \<longleftrightarrow> 0 \<le> keepout_at st i p"

definition position_score :: "AR_ENV \<Rightarrow> AR_AUTOPLACER \<Rightarrow> nat \<Rightarrow> wxPoint \<Rightarrow> real" where
  "position_score env st i p =
     computePlacementRatsnestCost env st i (pt_sub (GetPosition (footprints st ! i)) p) +
     real_of_int (keepout_at st i p)"

text \<open>The trial positions in the order in which the two loops visit them.\<close>

definition candidate_list :: "AR_AUTOPLACER \<Rightarrow> nat \<Rightarrow> wxPoint list" where
  "candidate_list st i =
     concat (map (\<lambda>x. map (Pair x)
                (grid_steps (snd (search_origin st i)) (snd (search_limit st i)) (m_GridRouting (m_matrix st))))
       (grid_steps (fst (search_origin st i)) (fst (search_limit st i)) (m_GridRouting (m_matrix st))))"

subsection \<open>Vocabulary for the rasterizer\<close>

text \<open>
  The row of the matrix that the scan line at \<open>refy\<close> belongs to, the intersections that
  the loop over the sides of the outline finds on it, and the scan lines that reach the
  parity test: the values \<open>refy\<close> of the outer loop whose row index lies strictly between 0
  and the number of rows.
\<close>

definition row_index :: "AR_MATRIX \<Rightarrow> int \<Rightarrow> int" where
  "row_index m refy = (refy - snd (GetBrdCoordOrigin m)) sdiv m_GridRouting m"

definition row_crossings :: "wxPoint list \<Rightarrow> int \<Rightarrow> int list" where
  "row_crossings outline refy = scanline_x outline refy [0..<length outline]"

definition scanned_rows :: "AR_ENV \<Rightarrow> AR_MATRIX \<Rightarrow> int list" where
  "scanned_rows env m =
     filter (\<lambda>refy. 0 < row_index m refy \<and> row_index m refy < m_Nrows m)
       (grid_steps (outline_GetY (brd_Outline env)) (outline_GetBottom (brd_Outline env)) (m_GridRouting m))"

text \<open>
  A side of the outline from \<open>p\<close> to \<open>q\<close> crosses the scan line at \<open>refy\<close> when one of its
  ends is on the line or above it and the other end is below it (the ordinates grow
  downwards); a side whose ends have the same ordinate crosses no scan line.
  \<open>crossing_sides\<close> lists the sides of the closed outline that cross the line.
\<close>

definition side_crosses :: "wxPoint \<Rightarrow> wxPoint \<Rightarrow> int \<Rightarrow> bool" where
  "side_crosses p q refy \<longleftrightarrow> (snd p \<le> refy \<and> refy < snd q) \<or> (snd q \<le> refy \<and> refy < snd p)"

definition crossing_sides :: "wxPoint list \<Rightarrow> int \<Rightarrow> nat list" where
  "crossing_sides outline refy =
     filter (\<lambda>v. side_crosses (CPoint outline v) (CPoint outline (v + 1)) refy) [0..<length outline]"

text \<open>
  What the fill does with one scan line whose intersection count is even; \<open>m0\<close> is the
  matrix at the start of \<^verbatim>\<open>fillMatrix\<close>, which fixes the origin and the pitch.
\<close>

definition fill_scanned_row :: "AR_ENV \<Rightarrow> AR_MATRIX \<Rightarrow> int \<Rightarrow> AR_MATRIX \<Rightarrow> AR_MATRIX" where
  "fill_scanned_row env m0 refy m =
     fill_row (row_index m0 refy) (fst (GetBrdCoordOrigin m0)) (sort (row_crossings (brd_Outline env) refy)) m"

definition even_row :: "AR_ENV \<Rightarrow> int \<Rightarrow> bool" where
  "even_row env refy \<longleftrightarrow> even (length (row_crossings (brd_Outline env) refy))"

text \<open>
  The cells that the fill of a scan line marks: the column \<open>c\<close> lies in the segment
  between two consecutive intersections \<open>a\<close> and \<open>b\<close> when it is a column of the matrix,
  not before the column of \<open>a\<close>, whose abscissa lies between \<open>a\<close> and \<open>b\<close>, both taken
  from the origin of the matrix; \<open>in_segments\<close> takes the sorted intersections two by two.
\<close>

definition in_segment :: "AR_MATRIX \<Rightarrow> int \<Rightarrow> int \<Rightarrow> int \<Rightarrow> bool" where
  "in_segment m a b c \<longleftrightarrow>
     (let orgx = fst (GetBrdCoordOrigin m); g = m_GridRouting m
      in (a - orgx) sdiv g \<le> c \<and> c < m_Ncols m \<and> a - orgx \<le> c * g \<and> c * g \<le> b - orgx)"

fun in_segments :: "AR_MATRIX \<Rightarrow> int list \<Rightarrow> int \<Rightarrow> bool" where
  "in_segments m (a # b # rest) c = (in_segment m a b c \<or> in_segments m rest c)"
| "in_segments m xs c = False"

text \<open>
  A rectangular outline with corner \<open>(x0, y0)\<close>, width \<open>W\<close> and height \<open>H\<close>, and the number
  of cells of the matrix that carry the zone bit on a side.
\<close>

definition rect_outline :: "int \<Rightarrow> int \<Rightarrow> int \<Rightarrow> int \<Rightarrow> wxPoint list" where
  "rect_outline x0 y0 W H = [(x0, y0), (x0 + W, y0), (x0 + W, y0 + H), (x0, y0 + H)]"

definition zone_count :: "AR_MATRIX \<Rightarrow> AR_SIDE \<Rightarrow> nat" where
  "zone_count m side =
     length (filter (\<lambda>(row, col). GetCell m row col side AND CELL_IS_ZONE \<noteq> 0)
               (List.product [0..m_Nrows m - 1] [0..m_Ncols m - 1]))"

subsection \<open>Vocabulary for the run\<close>

text \<open>
  The state in which \<^verbatim>\<open>AutoplaceFootprints\<close> enters its \<^verbatim>\<open>while\<close> loop on a board whose
  bounding box is not degenerate: the pitch is set, the matrix is built, the units to place
  are marked and the other units are stamped into the matrix.
\<close>

definition prelude_state :: "AR_ENV \<Rightarrow> AR_AUTOPLACER \<Rightarrow> nat list \<Rightarrow> bool \<Rightarrow> AR_AUTOPLACER" where
  "prelude_state env st aFootprints aPlaceOffboardModules =
     (let st = st\<lparr>m_matrix := (m_matrix st)\<lparr>m_GridRouting := m_gridSize st\<rparr>\<rparr>;
          st = (if m_GridRouting (m_matrix st) < QuarterMillimeter env
                then st\<lparr>m_matrix := (m_matrix st)\<lparr>m_GridRouting := QuarterMillimeter env\<rparr>\<rparr>
                else st);
          st = snd (genPlacementRoutingMatrix env st);
          st = st\<lparr>footprints := map (\<lambda>footprint. SetNeedsPlaced footprint False) (footprints st)\<rparr>;
          offboardMods =
            (if aPlaceOffboardModules
             then filter (\<lambda>i. \<not> Contains (m_BrdBox (m_matrix st)) (GetPosition (footprints st ! i)))
                    [0..<length (footprints st)]
             else []);
          st = fold mark_for_placement aFootprints st;
          st = fold mark_for_placement offboardMods st
      in st\<lparr>m_matrix :=
              fold (\<lambda>footprint m. if NeedsPlaced footprint then m
                                  else genModuleOnRoutingMatrix env m footprint)
                (footprints st) (m_matrix st)\<rparr>)"

text \<open>
  Two relations between a unit before and after a part of the run. The first says that
  the rotation cost classes are the same and that a unit whose two classes are 0 has the
  same orientation. The second says that a unit that did not need to be placed still does
  not and has the same position and orientation.
\<close>

definition keeps_forbidden_orient :: "MODULE \<Rightarrow> MODULE \<Rightarrow> bool" where
  "keeps_forbidden_orient a b \<longleftrightarrow>
     fp_CntRot90 b = fp_CntRot90 a \<and> fp_CntRot180 b = fp_CntRot180 a \<and>
     (fp_CntRot180 a = 0 \<and> fp_CntRot90 a = 0 \<longrightarrow> fp_Orient b = fp_Orient a)"

definition keeps_placed_pose :: "MODULE \<Rightarrow> MODULE \<Rightarrow> bool" where
  "keeps_placed_pose a b \<longleftrightarrow>
     (\<not> fp_NeedsPlaced a \<longrightarrow> \<not> fp_NeedsPlaced b \<and> fp_Pos b = fp_Pos a \<and> fp_Orient b = fp_Orient a)"

subsection \<open>Vocabulary for the ratsnest cost\<close>

text \<open>
  \<open>pad_distance\<close> is the number that \<^verbatim>\<open>nearestPad\<close> compares: the norm of the vector from a
  pad to the reference pad moved back by the trial offset.
\<close>

definition pad_distance :: "AR_ENV \<Rightarrow> PAD \<Rightarrow> wxPoint \<Rightarrow> PAD \<Rightarrow> int" where
  "pad_distance env aRefPad aOffset pad =
     EuclideanNorm env (pt_sub (pt_sub (pad_Pos aRefPad) aOffset) (pad_Pos pad))"

text \<open>
  The pads of a list that are on the net of the reference pad, when that net is positive.
\<close>

definition same_net_pads :: "PAD \<Rightarrow> PAD list \<Rightarrow> PAD list" where
  "same_net_pads aRefPad pads =
     filter (\<lambda>pad. pad_NetCode pad = pad_NetCode aRefPad \<and> 0 < pad_NetCode pad) pads"

text \<open>
  The pads among which \<^verbatim>\<open>nearestPad\<close> chooses, in the order of the board: the same-net pads of
  every footprint other than the reference footprint whose position the board box of the
  matrix contains. The flags of the footprint are not read.
\<close>

definition board_candidates :: "AR_AUTOPLACER \<Rightarrow> nat \<Rightarrow> PAD \<Rightarrow> PAD list" where
  "board_candidates st aRefFP aRefPad =
     concat (map (\<lambda>(i, fp). if i \<noteq> aRefFP \<and> Contains (m_BrdBox (m_matrix st)) (GetPosition fp)
                            then same_net_pads aRefPad (Pads fp) else [])
               (enumerate 0 (footprints st)))"

text \<open>
  The pads on the other units that are already positioned, wherever they are: the
  same-net pads of every footprint other than the reference footprint that is flagged as
  placed and is not to be placed.
\<close>

definition positioned_unit_candidates :: "AR_AUTOPLACER \<Rightarrow> nat \<Rightarrow> PAD \<Rightarrow> PAD list" where
  "positioned_unit_candidates st aRefFP aRefPad =
     concat (map (\<lambda>(i, fp). if i \<noteq> aRefFP \<and> fp_IsPlaced fp \<and> \<not> fp_NeedsPlaced fp
                            then same_net_pads aRefPad (Pads fp) else [])
               (enumerate 0 (footprints st)))"

text \<open>
  The nearest pad of a list of candidates: the first one of least distance, if there is
  any.
\<close>

definition nearest_of :: "(PAD \<Rightarrow> int) \<Rightarrow> PAD list \<Rightarrow> PAD option" where
  "nearest_of dst cands = (if cands = [] then None else Some (arg_min_list dst cands))"

text \<open>
  The cost of one connection: with the larger of the two absolute coordinate deltas counted
  once and the smaller one twice.
\<close>

definition connection_cost :: "wxPoint \<Rightarrow> wxPoint \<Rightarrow> real" where
  "connection_cost start end' =
     (let dx = \<bar>fst end' - fst start\<bar>; dy = \<bar>snd end' - snd start\<bar>
      in hypot (real_of_int (max dx dy)) (2 * real_of_int (min dx dy)))"

text \<open>
  The sum, over a list of pads, of the cost of the connection from each pad to the nearest
  of its candidates; a pad without candidates adds nothing.
\<close>

definition ratsnest_sum :: "AR_ENV \<Rightarrow> (PAD \<Rightarrow> PAD list) \<Rightarrow> wxPoint \<Rightarrow> PAD list \<Rightarrow> real" where
  "ratsnest_sum env cands aOffset pads =
     (\<Sum>pad\<leftarrow>pads. case nearest_of (pad_distance env pad aOffset) (cands pad) of
                      None \<Rightarrow> 0
                    | Some n \<Rightarrow> connection_cost (pt_sub (pad_Pos pad) aOffset) (pad_Pos n))"

text \<open>
  One pass of the inner loop of \<^verbatim>\<open>nearestPad\<close> on a pad that passed the test on the net.
\<close>

definition nearest_step :: "(PAD \<Rightarrow> int) \<Rightarrow> PAD option \<times> int \<Rightarrow> PAD \<Rightarrow> PAD option \<times> int" where
  "nearest_step dst acc pad = (if dst pad < snd acc then (Some pad, dst pad) else acc)"

subsection \<open>The ratsnest cost with the hypot of the C library\<close>

text \<open>
  \<^verbatim>\<open>computePlacementRatsnestCost\<close> and its loop once more, with the \<^verbatim>\<open>hypot\<close> of the C
  library as a parameter \<open>h\<close>: the library returns a double near the exact length, and
  which one is not fixed by C. With the exact length for \<open>h\<close> these are \<open>ratsnest_loop\<close>
  and \<open>computePlacementRatsnestCost\<close>. The product \<^verbatim>\<open>dy * 2.0\<close> is exact in doubles, and so
  is the sum when a single pad has a connection, which is the case that is looked at.
\<close>

fun ratsnest_loop_lib ::
  "(real \<Rightarrow> real \<Rightarrow> real) \<Rightarrow> AR_ENV \<Rightarrow> AR_AUTOPLACER \<Rightarrow> nat \<Rightarrow> wxPoint \<Rightarrow> PAD list \<Rightarrow> real \<Rightarrow> real" where
  "ratsnest_loop_lib h env st aFootprint aOffset [] curr_cost = curr_cost"
| "ratsnest_loop_lib h env st aFootprint aOffset (pad # rest) curr_cost =
     (case nearestPad env st aFootprint pad aOffset of
        None \<Rightarrow> ratsnest_loop_lib h env st aFootprint aOffset rest curr_cost
      | Some nearest \<Rightarrow>
          (let start = pt_sub (pad_Pos pad) aOffset;
               end' = pad_Pos nearest;
               dx = fst end' - fst start;
               dy = snd end' - snd start;
               dx = \<bar>dx\<bar>;
               dy = \<bar>dy\<bar>;
               (dx, dy) = (if dx < dy then (dy, dx) else (dx, dy));
               conn_cost = h (real_of_int dx) (real_of_int dy * 2)
           in ratsnest_loop_lib h env st aFootprint aOffset rest (curr_cost + conn_cost)))"

definition computePlacementRatsnestCost_lib ::
  "(real \<Rightarrow> real \<Rightarrow> real) \<Rightarrow> AR_ENV \<Rightarrow> AR_AUTOPLACER \<Rightarrow> nat \<Rightarrow> wxPoint \<Rightarrow> real" where
  "computePlacementRatsnestCost_lib h env st aFootprint aOffset =
     ratsnest_loop_lib h env st aFootprint aOffset (Pads (footprints st ! aFootprint)) 0"

text \<open>
  A \<^verbatim>\<open>hypot\<close> that returns the double nearest to the exact length.
\<close>

definition hypot_binary64 :: "real \<Rightarrow> real \<Rightarrow> real" where
  "hypot_binary64 a b = binary64 (hypot a b)"

text \<open>
  \<open>moved_away p p' n\<close>: the point \<open>p'\<close> is the point \<open>p\<close> moved along one coordinate axis,
  away from \<open>n\<close>: one coordinate is the same and the distance to \<open>n\<close> in the other
  coordinate is larger.
\<close>

definition moved_away :: "wxPoint \<Rightarrow> wxPoint \<Rightarrow> wxPoint \<Rightarrow> bool" where
  "moved_away p p' n \<longleftrightarrow>
     (snd p' = snd p \<and> \<bar>fst n - fst p\<bar> < \<bar>fst n - fst p'\<bar>) \<or>
     (fst p' = fst p \<and> \<bar>snd n - snd p\<bar> < \<bar>snd n - snd p'\<bar>)"

subsection \<open>Vocabulary for the verdict of testRectangle\<close>

text \<open>
  A cell is free when it is inside the board zone and not occupied by a footprint;
  \<open>cell_verdict\<close> is the verdict that one cell alone produces, with the zone bit tested
  before the footprint bit.
\<close>

definition cell_free :: "MATRIX_CELL \<Rightarrow> bool" where
  "cell_free d \<longleftrightarrow> d AND CELL_IS_ZONE \<noteq> 0 \<and> d AND CELL_IS_MODULE = 0"

definition cell_verdict :: "MATRIX_CELL \<Rightarrow> AR_CELL_STATE" where
  "cell_verdict d =
     (if d AND CELL_IS_ZONE = 0 then AR_OUT_OF_BOARD
      else if d AND CELL_IS_MODULE \<noteq> 0 then AR_OCCUIPED_BY_MODULE
      else AR_FREE_CELL)"

text \<open>
  \<open>first_bad\<close>: the cell \<open>(r, c)\<close> of the range is not free, and every cell of the range
  that comes before it in row-major order (rows outside, columns inside) is free.
\<close>

definition first_bad :: "(int \<Rightarrow> int \<Rightarrow> MATRIX_CELL) \<Rightarrow> int \<Rightarrow> int \<Rightarrow> int \<Rightarrow> int \<Rightarrow> int \<Rightarrow> int \<Rightarrow> bool" where
  "first_bad cells row_min row_max col_min col_max r c \<longleftrightarrow>
     row_min \<le> r \<and> r \<le> row_max \<and> col_min \<le> c \<and> c \<le> col_max \<and> \<not> cell_free (cells r c) \<and>
     (\<forall>r' c'. row_min \<le> r' \<and> r' \<le> row_max \<and> col_min \<le> c' \<and> c' \<le> col_max \<and>
              (r' < r \<or> r' = r \<and> c' < c) \<longrightarrow> cell_free (cells r' c'))"

text \<open>
  The cells that a rectangle covers: the rectangle is inflated by half the grid pitch; a
  row is covered when it lies in the matrix, its coordinate is not before the start of the
  rectangle and its index is at most the truncated quotient of the end by the pitch (the
  same for columns).
\<close>

definition covered :: "AR_MATRIX \<Rightarrow> EDA_RECT \<Rightarrow> int \<Rightarrow> int \<Rightarrow> bool" where
  "covered m aRect row col \<longleftrightarrow>
     (let g = m_GridRouting m;
          rect = Inflate aRect (g sdiv 2);
          start = pt_sub (GetOrigin rect) (GetOrigin (m_BrdBox m));
          end' = pt_sub (GetEnd rect) (GetOrigin (m_BrdBox m))
      in 0 \<le> row \<and> row \<le> m_Nrows m - 1 \<and> snd start \<le> row * g \<and> row \<le> snd end' sdiv g \<and>
         0 \<le> col \<and> col \<le> m_Ncols m - 1 \<and> fst start \<le> col * g \<and> col \<le> fst end' sdiv g)"

text \<open>
  An example matrix of two rows and two columns at pitch 2: cell \<open>(0, 0)\<close> is inside the
  zone and occupied, cell \<open>(0, 1)\<close> is outside the zone, the others are free.
\<close>

definition ex5_matrix :: AR_MATRIX where
  "ex5_matrix =
     \<lparr>m_BrdBox = \<lparr>m_Pos = (0, 0), m_Size = (4, 4)\<rparr>, m_GridRouting = 2, m_Nrows = 2, m_Ncols = 2,
      m_RoutingLayersCount = 2,
      m_BoardSide = (\<lambda>side row col. if row = 0 \<and> col = 0 then 0x82
                                     else if row = 0 \<and> col = 1 then 0x00 else 0x80),
      m_DistSide = (\<lambda>side row col. 0)\<rparr>"

definition ex5_rect :: EDA_RECT where
  "ex5_rect = \<lparr>m_Pos = (1, 1), m_Size = (2, 0)\<rparr>"

subsection \<open>An example for the placement search\<close>

text \<open>
  A matrix of four rows and four columns at pitch 1 whose board zone is rows 1 to 3 and
  columns 1 to 3, with no keep-out cost, and a unit of one cell by one cell without pads.
  The legal trial positions are the four positions with \<open>x\<close> and \<open>y\<close> in \<open>{1, 2}\<close>, and
  all of them have score 0.
\<close>

definition ex_matrix :: AR_MATRIX where
  "ex_matrix =
     \<lparr>m_BrdBox = \<lparr>m_Pos = (0, 0), m_Size = (4, 4)\<rparr>, m_GridRouting = 1, m_Nrows = 4, m_Ncols = 4,
      m_RoutingLayersCount = 2,
      m_BoardSide = (\<lambda>side row col. if 1 \<le> row \<and> row \<le> 3 \<and> 1 \<le> col \<and> col \<le> 3
                                     then CELL_IS_ZONE else CELL_IS_EMPTY),
      m_DistSide = (\<lambda>side row col. 0)\<rparr>"

definition ex_unit :: MODULE where
  "ex_unit =
     \<lparr>fp_Pos = (10, 10), fp_Orient = 0, fp_Layer = F_Cu,
      fp_Rect = (\<lambda>orient. \<lparr>m_Pos = (0, 0), m_Size = (1, 1)\<rparr>),
      fp_Pads = (\<lambda>orient. []),
      fp_CntRot90 = 0, fp_CntRot180 = 0, fp_NeedsPlaced = True, fp_IsPlaced = False, fp_Flag = 0\<rparr>"

definition ex_state :: AR_AUTOPLACER where
  "ex_state =
     \<lparr>m_matrix = ex_matrix, m_curPosition = (0, 0), m_minCost = 0, m_gridSize = 1,
      footprints = [ex_unit], commit_log = []\<rparr>"

text \<open>
  An example environment: a square board of side 4 whose outline is its bounding box, a
  norm that truncates the Euclidean length to an integer, a matrix over the bounding box
  with one row and one column more than the quotients of its sides by the pitch, stamping
  operations that leave the matrix as it is, no ratsnest, no progress reporter, and a
  least pitch of 1.
\<close>

function sqrt_search :: "nat \<Rightarrow> nat \<Rightarrow> nat" where
  "sqrt_search k n = (if (k + 1) * (k + 1) \<le> n then sqrt_search (k + 1) n else k)"
  by pat_completeness auto
termination
proof (relation "measure (\<lambda>(k, n). n - k)")
  fix k n :: nat
  assume a: "(k + 1) * (k + 1) \<le> n"
  have "k + 1 \<le> (k + 1) * (k + 1)" by simp
  with a have "k < n" by linarith
  then show "((k + 1, n), k, n) \<in> measure (\<lambda>(k, n). n - k)" by simp
qed simp

declare sqrt_search.simps [simp del]

definition ex_norm :: "wxPoint \<Rightarrow> int" where
  "ex_norm v = int (sqrt_search 0 (nat (fst v * fst v + snd v * snd v)))"

definition ex_env :: AR_ENV where
  "ex_env =
     \<lparr>brd_BBox = \<lparr>m_Pos = (0, 0), m_Size = (4, 4)\<rparr>,
      brd_Outline = [(0, 0), (4, 0), (4, 4), (0, 4)],
      EuclideanNorm = ex_norm,
      ComputeMatrixSize = (\<lambda>g bbox. (bbox, GetHeight bbox sdiv g + 1, GetWidth bbox sdiv g + 1)),
      TraceDrawings = (\<lambda>m. m),
      TraceFilledRectangle = (\<lambda>m ux0 uy0 ux1 uy1 layers color. m),
      PlacePad = (\<lambda>m pad color marge. m),
      CreateKeepOutRectangle = (\<lambda>m ux0 uy0 ux1 uy1 marge aKeepOut layers. m),
      GetOwnClearance = (\<lambda>pad. 0),
      RatsnestEdges = (\<lambda>fps i. 0),
      Reporter = None,
      QuarterMillimeter = 1\<rparr>"


text \<open>
  The example environment with a board whose bounding box has no width, and a fresh matrix
  of five rows and five columns at pitch 1 for the example board.
\<close>

definition ex_env_flat :: AR_ENV where
  "ex_env_flat = ex_env\<lparr>brd_BBox := \<lparr>m_Pos = (0, 0), m_Size = (0, 4)\<rparr>\<rparr>"

definition ex_grid :: AR_MATRIX where
  "ex_grid =
     \<lparr>m_BrdBox = \<lparr>m_Pos = (0, 0), m_Size = (4, 4)\<rparr>, m_GridRouting = 1, m_Nrows = 5, m_Ncols = 5,
      m_RoutingLayersCount = 2,
      m_BoardSide = (\<lambda>side row col. CELL_IS_EMPTY),
      m_DistSide = (\<lambda>side row col. 0)\<rparr>"

text \<open>
  A unit larger than the example board: its rectangle is 10 by 10 at every orientation, the
  board is 4 by 4.  It has no pads and both rotation classes are 0.  The second state holds
  the same unit with the 90-degree class set to 5.
\<close>

definition ex_big_unit :: MODULE where
  "ex_big_unit =
     \<lparr>fp_Pos = (20, 20), fp_Orient = 0, fp_Layer = F_Cu,
      fp_Rect = (\<lambda>orient. \<lparr>m_Pos = (0, 0), m_Size = (10, 10)\<rparr>),
      fp_Pads = (\<lambda>orient. []),
      fp_CntRot90 = 0, fp_CntRot180 = 0, fp_NeedsPlaced = False, fp_IsPlaced = False, fp_Flag = 0\<rparr>"

definition ex_big_state :: AR_AUTOPLACER where
  "ex_big_state = ex_state\<lparr>footprints := [ex_big_unit]\<rparr>"

definition ex_rot_state :: AR_AUTOPLACER where
  "ex_rot_state = ex_state\<lparr>footprints := [ex_big_unit\<lparr>fp_CntRot90 := 5\<rparr>]\<rparr>"

text \<open>
  Two units with one pad each on net 1 on the example board: the first one, at the origin,
  is the unit to place; the second one, at a given position, is already positioned: it is
  flagged as placed and is not to be placed.
\<close>

definition ex_pad :: PAD where
  "ex_pad = \<lparr>pad_Pos = (0, 0), pad_NetCode = 1, pad_LayerSet = [F_Cu]\<rparr>"

definition ex_net_unit :: "wxPoint \<Rightarrow> MODULE" where
  "ex_net_unit p = ex_unit\<lparr>fp_Pos := p, fp_Pads := (\<lambda>orient. [ex_pad])\<rparr>"

definition ex_fixed_unit :: "wxPoint \<Rightarrow> MODULE" where
  "ex_fixed_unit p = (ex_net_unit p)\<lparr>fp_NeedsPlaced := False, fp_IsPlaced := True\<rparr>"

definition ex_net_state :: "wxPoint \<Rightarrow> AR_AUTOPLACER" where
  "ex_net_state p = ex_state\<lparr>footprints := [ex_net_unit (0, 0), ex_fixed_unit p]\<rparr>"

text \<open>
  A board box of side \<open>2 ^ 28\<close> with two units. The unit to place, at the origin, has a pad
  on net 1 and a pad without a net; the other unit is positioned at \<open>(2 ^ 27, 0)\<close> and has
  a pad on net 1, that is 134 mm to the right of the first one when the unit of length is
  the nanometre.
\<close>

definition ex_free_pad :: PAD where
  "ex_free_pad = \<lparr>pad_Pos = (5, 5), pad_NetCode = 0, pad_LayerSet = [F_Cu]\<rparr>"

definition ex_far_state :: AR_AUTOPLACER where
  "ex_far_state =
     ex_state
       \<lparr>m_matrix := ex_matrix\<lparr>m_BrdBox := \<lparr>m_Pos = (0, 0), m_Size = (268435456, 268435456)\<rparr>\<rparr>,
        footprints :=
          [ex_unit\<lparr>fp_Pos := (0, 0), fp_Pads := (\<lambda>orient. [ex_pad, ex_free_pad])\<rparr>,
           ex_fixed_unit (134217728, 0)]\<rparr>"

section \<open>Properties\<close>

subsection \<open>The rounding of doubles\<close>

lemma binary64_zero: "binary64 0 = 0"
  by (simp add: binary64_def)

lemma round_even_of_int: "round_even (of_int k) = k"
  by (simp add: round_even_def)

lemma round_even_bounds: "\<lfloor>y\<rfloor> \<le> round_even y" "round_even y \<le> \<lfloor>y\<rfloor> + 1"
  by (simp_all add: round_even_def Let_def)

lemma round_even_mono:
  assumes "y \<le> z"
  shows "round_even y \<le> round_even z"
proof (cases "\<lfloor>y\<rfloor> = \<lfloor>z\<rfloor>")
  case True
  have "y - of_int \<lfloor>y\<rfloor> \<le> z - of_int \<lfloor>z\<rfloor>" using assms True by simp
  then show ?thesis unfolding round_even_def Let_def True by auto
next
  case False
  have "\<lfloor>y\<rfloor> \<le> \<lfloor>z\<rfloor>" using assms by (rule floor_mono)
  with False have "\<lfloor>y\<rfloor> + 1 \<le> \<lfloor>z\<rfloor>" by simp
  with round_even_bounds(2)[of y] round_even_bounds(1)[of z] show ?thesis by linarith
qed

lemma round_even_near:
  assumes "of_int k \<le> y" "y < of_int k + 1 / 2"
  shows "round_even y = k"
proof -
  have "\<lfloor>y\<rfloor> = k" using assms by linarith
  then show ?thesis using assms by (simp add: round_even_def Let_def)
qed

lemma exponent_bracket:
  assumes "0 < x"
  shows "2 powr of_int \<lfloor>log 2 x\<rfloor> \<le> x" "x < 2 powr (of_int \<lfloor>log 2 x\<rfloor> + 1)"
proof -
  have "of_int \<lfloor>log 2 x\<rfloor> \<le> log 2 x" by simp
  with le_log_iff[of 2 x "of_int \<lfloor>log 2 x\<rfloor>"] assms
  show "2 powr of_int \<lfloor>log 2 x\<rfloor> \<le> x" by simp
  have "log 2 x < of_int \<lfloor>log 2 x\<rfloor> + 1" by linarith
  with log_less_iff[of 2 x "of_int \<lfloor>log 2 x\<rfloor> + 1"] assms
  show "x < 2 powr (of_int \<lfloor>log 2 x\<rfloor> + 1)" by simp
qed

lemma exponent_eq:
  assumes "2 powr of_int e \<le> x" "x < 2 powr (of_int e + 1)"
  shows "\<lfloor>log 2 x\<rfloor> = e"
proof -
  have "0 < 2 powr real_of_int e" by simp
  with assms(1) have pos: "0 < x" by linarith
  have "of_int e \<le> log 2 x" using le_log_iff[of 2 x "of_int e"] assms(1) pos by simp
  moreover have "log 2 x < of_int e + 1"
    using log_less_iff[of 2 x "of_int e + 1"] assms(2) pos by simp
  ultimately show ?thesis by linarith
qed

lemma binary64_in_binade:
  assumes "2 powr of_int e \<le> x" "x < 2 powr (of_int e + 1)"
  shows "binary64 x = 2 powr (of_int e - 52) * of_int (round_even (x / 2 powr (of_int e - 52)))"
proof -
  have "0 < 2 powr real_of_int e" by simp
  with assms(1) have pos: "0 < x" by linarith
  then have "\<bar>x\<bar> = x" "x \<noteq> 0" by simp_all
  then show ?thesis unfolding binary64_def Let_def using exponent_eq[OF assms] by simp
qed

lemma binary64_bounds:
  assumes "2 powr of_int e \<le> x" "x < 2 powr (of_int e + 1)"
  shows "2 powr of_int e \<le> binary64 x" "binary64 x \<le> 2 powr (of_int e + 1)"
proof -
  define u :: real where "u = 2 powr (of_int e - 52)"
  have u: "0 < u" by (simp add: u_def)
  have lo: "u * 2 ^ 52 = 2 powr of_int e"
    unfolding u_def by (simp add: powr_diff powr_realpow[symmetric])
  have hi: "u * 2 ^ 53 = 2 powr (of_int e + 1)"
    unfolding u_def by (simp add: powr_diff powr_add powr_realpow[symmetric])
  have b: "binary64 x = u * of_int (round_even (x / u))"
    unfolding u_def by (rule binary64_in_binade[OF assms])
  have "2 ^ 52 \<le> x / u" using assms(1) u lo by (simp add: pos_le_divide_eq mult.commute)
  then have "of_int (2 ^ 52) \<le> x / u" by simp
  from round_even_mono[OF this] have "2 ^ 52 \<le> round_even (x / u)"
    unfolding round_even_of_int .
  then have "(2::real) ^ 52 \<le> of_int (round_even (x / u))" by (metis of_int_le_iff of_int_numeral of_int_power)
  with u have "u * 2 ^ 52 \<le> u * of_int (round_even (x / u))" by simp
  then show "2 powr of_int e \<le> binary64 x" unfolding b lo .
  have "x / u \<le> 2 ^ 53" using assms(2) u hi by (simp add: pos_divide_le_eq mult.commute)
  then have "x / u \<le> of_int (2 ^ 53)" by simp
  from round_even_mono[OF this] have "round_even (x / u) \<le> 2 ^ 53"
    unfolding round_even_of_int .
  then have "of_int (round_even (x / u)) \<le> (2::real) ^ 53" by (metis of_int_le_iff of_int_numeral of_int_power)
  with u have "u * of_int (round_even (x / u)) \<le> u * 2 ^ 53" by simp
  then show "binary64 x \<le> 2 powr (of_int e + 1)" unfolding b hi .
qed


lemma binary64_nonneg:
  assumes "0 \<le> x"
  shows "0 \<le> binary64 x"
proof (cases "x = 0")
  case True
  then show ?thesis by (simp add: binary64_zero)
next
  case False
  with assms have pos: "0 < x" by simp
  from binary64_bounds(1)[OF exponent_bracket[OF pos]]
  have "2 powr of_int \<lfloor>log 2 x\<rfloor> \<le> binary64 x" .
  moreover have "0 < 2 powr real_of_int \<lfloor>log 2 x\<rfloor>" by simp
  ultimately show ?thesis by linarith
qed

lemma binary64_mono:
  assumes "0 \<le> x" "x \<le> y"
  shows "binary64 x \<le> binary64 y"
proof (cases "x = 0")
  case True
  with assms binary64_nonneg[of y] show ?thesis by (simp add: binary64_zero)
next
  case False
  with assms have px: "0 < x" and py: "0 < y" by simp_all
  define ex where "ex = \<lfloor>log 2 x\<rfloor>"
  define ey where "ey = \<lfloor>log 2 y\<rfloor>"
  note bx = exponent_bracket[OF px, folded ex_def]
  note by' = exponent_bracket[OF py, folded ey_def]
  have "log 2 x \<le> log 2 y" using px py assms(2) by simp
  then have le: "ex \<le> ey" unfolding ex_def ey_def by (rule floor_mono)
  show ?thesis
  proof (cases "ex = ey")
    case True
    define u :: real where "u = 2 powr (of_int ey - 52)"
    have u: "0 < u" by (simp add: u_def)
    have "x / u \<le> y / u" using assms(2) u by (simp add: divide_right_mono)
    from round_even_mono[OF this]
    have "real_of_int (round_even (x / u)) \<le> real_of_int (round_even (y / u))" by simp
    with u have "u * real_of_int (round_even (x / u)) \<le> u * real_of_int (round_even (y / u))"
      by simp
    then show ?thesis
      unfolding binary64_in_binade[OF bx] binary64_in_binade[OF by'] True u_def .
  next
    case False
    with le have "ex + 1 \<le> ey" by simp
    then have "real_of_int ex + 1 \<le> real_of_int ey" by linarith
    then have "(2::real) powr (real_of_int ex + 1) \<le> 2 powr real_of_int ey" by simp
    with binary64_bounds(2)[OF bx] binary64_bounds(1)[OF by'] show ?thesis by linarith
  qed
qed

lemma binary64_binade_start:
  "binary64 (2 powr of_int e) = 2 powr of_int e"
proof -
  have b: "2 powr of_int e \<le> (2::real) powr of_int e" "(2::real) powr of_int e < 2 powr (of_int e + 1)"
    by simp_all
  have q: "2 powr real_of_int e / 2 powr (real_of_int e - 52) = of_int (2 ^ 52)"
    by (simp add: powr_diff powr_realpow[symmetric])
  show ?thesis
    unfolding binary64_in_binade[OF b] q round_even_of_int
    by (simp add: powr_diff powr_realpow[symmetric])
qed

lemma binary64_just_above:
  assumes "2 powr of_int e \<le> x" "x < 2 powr of_int e + 2 powr (of_int e - 53)"
  shows "binary64 x = 2 powr of_int e"
proof -
  define u :: real where "u = 2 powr (of_int e - 52)"
  have u: "0 < u" by (simp add: u_def)
  have lo: "u * 2 ^ 52 = 2 powr of_int e"
    unfolding u_def by (simp add: powr_diff powr_realpow[symmetric])
  have half: "u * (1 / 2) = 2 powr (of_int e - 53)"
    unfolding u_def by (simp add: powr_diff)
  have "(2::real) powr (real_of_int e - 53) \<le> 2 powr real_of_int e" by simp
  moreover have "(2::real) powr (of_int e + 1) = 2 powr real_of_int e + 2 powr real_of_int e"
    by (simp add: powr_add)
  ultimately have up: "x < 2 powr (of_int e + 1)" using assms(2) by linarith
  have b: "binary64 x = u * of_int (round_even (x / u))"
    unfolding u_def by (rule binary64_in_binade[OF assms(1) up])
  have 1: "of_int (2 ^ 52) \<le> x / u" using assms(1) u lo by (simp add: pos_le_divide_eq mult.commute)
  have "x < u * (2 ^ 52 + 1 / 2)" using assms(2) lo half by (simp add: distrib_left)
  then have 2: "x / u < of_int (2 ^ 52) + 1 / 2" using u by (simp add: pos_divide_less_eq mult.commute)
  have "round_even (x / u) = 2 ^ 52" by (rule round_even_near[OF 1 2])
  then show ?thesis unfolding b using lo by simp
qed

lemma binary64_example:
  "binary64 (sqrt (134217728\<^sup>2 + 0\<^sup>2)) = 134217728"
  "binary64 (sqrt (134217728\<^sup>2 + 2\<^sup>2)) = 134217728"
proof -
  have p: "(2::real) powr of_int 27 = 134217728" by (simp add: powr_realpow[symmetric] flip: powr_realpow)
  have "binary64 (2 powr of_int 27) = 2 powr of_int 27" by (rule binary64_binade_start)
  then show "binary64 (sqrt (134217728\<^sup>2 + 0\<^sup>2)) = 134217728" unfolding p by simp
  have h: "(2::real) powr (of_int 27 - 53) = 1 / 67108864"
    by (simp add: powr_diff powr_minus_divide flip: powr_realpow)
  have lo: "134217728 \<le> sqrt (134217728\<^sup>2 + 2\<^sup>2)"
    by (rule real_le_rsqrt) simp
  have hi: "sqrt (134217728\<^sup>2 + 2\<^sup>2) < 134217728 + 1 / 67108864"
    by (rule real_less_lsqrt) (simp_all add: power2_eq_square field_simps)
  from binary64_just_above[of 27 "sqrt (134217728\<^sup>2 + 2\<^sup>2)"] lo hi
  show "binary64 (sqrt (134217728\<^sup>2 + 2\<^sup>2)) = 134217728" unfolding p h by simp
qed

lemma binary64_seven_tenths: "binary64 (7 / 10) = 6305039478318694 / 9007199254740992"
proof -
  have p: "(2::real) powr of_int (- 1) = 1 / 2" "(2::real) powr (of_int (- 1) + 1) = 1"
    "(2::real) powr (of_int (- 1) - 52) = 1 / 9007199254740992"
    by (simp_all add: powr_minus_divide powr_diff flip: powr_realpow)
  have b: "2 powr of_int (- 1) \<le> (7 / 10 :: real)" "(7 / 10 :: real) < 2 powr (of_int (- 1) + 1)"
    unfolding p by simp_all
  have r: "round_even (7 / 10 / (1 / 9007199254740992)) = 6305039478318694"
    by (rule round_even_near) simp_all
  show ?thesis unfolding binary64_in_binade[OF b] p r by simp
qed

lemma binary64_product:
  "binary64 (141863388262170615 / 2251799813685248) = 8866461766385663 / 140737488355328"
  "90 * (6305039478318694 / 9007199254740992) = (141863388262170615 / 2251799813685248 :: real)"
proof -
  have p: "(2::real) powr of_int 5 = 32" "(2::real) powr (of_int 5 + 1) = 64"
    "(2::real) powr (of_int 5 - 52) = 1 / 140737488355328"
    by (simp_all add: powr_minus_divide powr_diff powr_add flip: powr_realpow)
  have b: "2 powr of_int 5 \<le> (141863388262170615 / 2251799813685248 :: real)"
    "(141863388262170615 / 2251799813685248 :: real) < 2 powr (of_int 5 + 1)"
    unfolding p by simp_all
  have r: "round_even (141863388262170615 / 2251799813685248 / (1 / 140737488355328)) = 8866461766385663"
    by (rule round_even_near) simp_all
  show "binary64 (141863388262170615 / 2251799813685248) = 8866461766385663 / 140737488355328"
    unfolding binary64_in_binade[OF b] p r by simp
  show "90 * (6305039478318694 / 9007199254740992) = (141863388262170615 / 2251799813685248 :: real)"
    by simp
qed

subsection \<open>testRectangle\<close>

lemma scan_cols_None:
  "scan_cols cells col col_max = None \<longleftrightarrow> (\<forall>k. col \<le> k \<and> k \<le> col_max \<longrightarrow> cell_free (cells k))"
proof (induction cells col col_max rule: scan_cols.induct)
  case (1 cells col col_max)
  show ?case
  proof (cases "col \<le> col_max")
    case False
    then show ?thesis by (subst scan_cols.simps) auto
  next
    case True
    show ?thesis
    proof (cases "cell_free (cells col)")
      case False
      with True show ?thesis
        by (subst scan_cols.simps) (auto simp: cell_free_def Let_def)
    next
      case free: True
      then have step: "scan_cols cells col col_max = scan_cols cells (col + 1) col_max"
        using True by (subst scan_cols.simps) (simp add: cell_free_def Let_def)
      have "(\<forall>k. col \<le> k \<and> k \<le> col_max \<longrightarrow> cell_free (cells k)) \<longleftrightarrow>
            (\<forall>k. col + 1 \<le> k \<and> k \<le> col_max \<longrightarrow> cell_free (cells k))"
        using free by (metis add1_zle_eq order_le_less)
      moreover have "scan_cols cells (col + 1) col_max = None \<longleftrightarrow>
            (\<forall>k. col + 1 \<le> k \<and> k \<le> col_max \<longrightarrow> cell_free (cells k))"
        using "1.IH" True free by (simp add: cell_free_def)
      ultimately show ?thesis using step by simp
    qed
  qed
qed

lemma scan_cols_Some:
  "scan_cols cells col col_max = Some v \<longleftrightarrow>
     (\<exists>k. col \<le> k \<and> k \<le> col_max \<and> \<not> cell_free (cells k) \<and> v = cell_verdict (cells k) \<and>
          (\<forall>j. col \<le> j \<and> j < k \<longrightarrow> cell_free (cells j)))"
proof (induction cells col col_max rule: scan_cols.induct)
  case (1 cells col col_max)
  show ?case
  proof (cases "col \<le> col_max")
    case False
    then show ?thesis by (subst scan_cols.simps) auto
  next
    case True
    show ?thesis
    proof (cases "cell_free (cells col)")
      case False
      have "scan_cols cells col col_max = Some (cell_verdict (cells col))"
        using True False by (subst scan_cols.simps) (auto simp: cell_free_def cell_verdict_def Let_def)
      moreover have "(\<exists>k. col \<le> k \<and> k \<le> col_max \<and> \<not> cell_free (cells k) \<and> v = cell_verdict (cells k) \<and>
          (\<forall>j. col \<le> j \<and> j < k \<longrightarrow> cell_free (cells j))) \<longleftrightarrow> v = cell_verdict (cells col)"
        using True False by (metis order_le_less order_refl not_less)
      ultimately show ?thesis by auto
    next
      case free: True
      then have step: "scan_cols cells col col_max = scan_cols cells (col + 1) col_max"
        using True by (subst scan_cols.simps) (simp add: cell_free_def Let_def)
      have "(\<exists>k. col \<le> k \<and> k \<le> col_max \<and> \<not> cell_free (cells k) \<and> v = cell_verdict (cells k) \<and>
          (\<forall>j. col \<le> j \<and> j < k \<longrightarrow> cell_free (cells j))) \<longleftrightarrow>
            (\<exists>k. col + 1 \<le> k \<and> k \<le> col_max \<and> \<not> cell_free (cells k) \<and> v = cell_verdict (cells k) \<and>
          (\<forall>j. col + 1 \<le> j \<and> j < k \<longrightarrow> cell_free (cells j)))" (is "?L \<longleftrightarrow> ?R")
      proof
        assume ?L
        then obtain k where k: "col \<le> k" "k \<le> col_max" "\<not> cell_free (cells k)" "v = cell_verdict (cells k)"
          "\<forall>j. col \<le> j \<and> j < k \<longrightarrow> cell_free (cells j)" by blast
        with free have "col \<noteq> k" by auto
        with k have "col + 1 \<le> k" by simp
        with k show ?R by (intro exI[of _ k]) auto
      next
        assume ?R
        then obtain k where k: "col + 1 \<le> k" "k \<le> col_max" "\<not> cell_free (cells k)" "v = cell_verdict (cells k)"
          "\<forall>j. col + 1 \<le> j \<and> j < k \<longrightarrow> cell_free (cells j)" by blast
        have "\<forall>j. col \<le> j \<and> j < k \<longrightarrow> cell_free (cells j)"
        proof (intro allI impI)
          fix j assume "col \<le> j \<and> j < k"
          then show "cell_free (cells j)" using free k(5) by (cases "j = col") auto
        qed
        with k show ?L by (intro exI[of _ k]) auto
      qed
      moreover have "scan_cols cells (col + 1) col_max = Some v \<longleftrightarrow>
            (\<exists>k. col + 1 \<le> k \<and> k \<le> col_max \<and> \<not> cell_free (cells k) \<and> v = cell_verdict (cells k) \<and>
          (\<forall>j. col + 1 \<le> j \<and> j < k \<longrightarrow> cell_free (cells j)))"
        using "1.IH" True free by (simp add: cell_free_def)
      ultimately show ?thesis using step by simp
    qed
  qed
qed

lemma scan_rows_None:
  "scan_rows cells row row_max col_min col_max = None \<longleftrightarrow>
     (\<forall>r c. row \<le> r \<and> r \<le> row_max \<and> col_min \<le> c \<and> c \<le> col_max \<longrightarrow> cell_free (cells r c))"
proof (induction cells row row_max col_min col_max rule: scan_rows.induct)
  case (1 cells row row_max col_min col_max)
  show ?case
  proof (cases "row \<le> row_max")
    case False
    then show ?thesis by (subst scan_rows.simps) auto
  next
    case True
    show ?thesis
    proof (cases "scan_cols (cells row) col_min col_max")
      case (Some w)
      then have "scan_rows cells row row_max col_min col_max = Some w"
        using True by (subst scan_rows.simps) simp
      moreover from Some obtain k where "col_min \<le> k" "k \<le> col_max" "\<not> cell_free (cells row k)"
        unfolding scan_cols_Some by blast
      ultimately show ?thesis using True by auto
    next
      case None
      then have step: "scan_rows cells row row_max col_min col_max =
                       scan_rows cells (row + 1) row_max col_min col_max"
        using True by (subst scan_rows.simps) simp
      have rowfree: "\<forall>c. col_min \<le> c \<and> c \<le> col_max \<longrightarrow> cell_free (cells row c)"
        using None unfolding scan_cols_None by blast
      have IH: "scan_rows cells (row + 1) row_max col_min col_max = None \<longleftrightarrow>
          (\<forall>r c. row + 1 \<le> r \<and> r \<le> row_max \<and> col_min \<le> c \<and> c \<le> col_max \<longrightarrow> cell_free (cells r c))"
        using "1.IH" True None by simp
      have "(\<forall>r c. row \<le> r \<and> r \<le> row_max \<and> col_min \<le> c \<and> c \<le> col_max \<longrightarrow> cell_free (cells r c)) \<longleftrightarrow>
            (\<forall>r c. row + 1 \<le> r \<and> r \<le> row_max \<and> col_min \<le> c \<and> c \<le> col_max \<longrightarrow> cell_free (cells r c))"
      proof (intro iffI allI impI)
        fix r c
        assume a: "\<forall>r c. row + 1 \<le> r \<and> r \<le> row_max \<and> col_min \<le> c \<and> c \<le> col_max \<longrightarrow> cell_free (cells r c)"
          and b: "row \<le> r \<and> r \<le> row_max \<and> col_min \<le> c \<and> c \<le> col_max"
        show "cell_free (cells r c)"
        proof (cases "r = row")
          case True
          with b rowfree show ?thesis by blast
        next
          case False
          with b have "row + 1 \<le> r" by simp
          with a b show ?thesis by blast
        qed
      qed auto
      with step IH show ?thesis by simp
    qed
  qed
qed

lemma first_bad_unique:
  assumes "first_bad cells a b c d r1 c1" "first_bad cells a b c d r2 c2"
  shows "r1 = r2 \<and> c1 = c2"
proof -
  have "\<not> (r1 < r2 \<or> r1 = r2 \<and> c1 < c2)"
    using assms unfolding first_bad_def by blast
  moreover have "\<not> (r2 < r1 \<or> r2 = r1 \<and> c2 < c1)"
    using assms unfolding first_bad_def by blast
  ultimately show ?thesis by auto
qed

lemma scan_rows_Some:
  "scan_rows cells row row_max col_min col_max = Some v \<longleftrightarrow>
     (\<exists>r c. first_bad cells row row_max col_min col_max r c \<and> v = cell_verdict (cells r c))"
proof (induction cells row row_max col_min col_max rule: scan_rows.induct)
  case (1 cells row row_max col_min col_max)
  show ?case
  proof (cases "row \<le> row_max")
    case False
    then show ?thesis by (subst scan_rows.simps) (auto simp: first_bad_def)
  next
    case True
    show ?thesis
    proof (cases "scan_cols (cells row) col_min col_max")
      case (Some w)
      then have res: "scan_rows cells row row_max col_min col_max = Some w"
        using True by (subst scan_rows.simps) simp
      from Some obtain k where k: "col_min \<le> k" "k \<le> col_max" "\<not> cell_free (cells row k)"
        "w = cell_verdict (cells row k)" "\<forall>j. col_min \<le> j \<and> j < k \<longrightarrow> cell_free (cells row j)"
        unfolding scan_cols_Some by blast
      have fb: "first_bad cells row row_max col_min col_max row k"
        unfolding first_bad_def using k True by auto
      show ?thesis
      proof
        assume "scan_rows cells row row_max col_min col_max = Some v"
        with res have "v = w" by simp
        with fb k show "\<exists>r c. first_bad cells row row_max col_min col_max r c \<and> v = cell_verdict (cells r c)"
          by blast
      next
        assume "\<exists>r c. first_bad cells row row_max col_min col_max r c \<and> v = cell_verdict (cells r c)"
        then obtain r c where rc: "first_bad cells row row_max col_min col_max r c" "v = cell_verdict (cells r c)"
          by blast
        from first_bad_unique[OF rc(1) fb] rc(2) k(4) have "v = w" by simp
        with res show "scan_rows cells row row_max col_min col_max = Some v" by simp
      qed
    next
      case None
      then have step: "scan_rows cells row row_max col_min col_max =
                       scan_rows cells (row + 1) row_max col_min col_max"
        using True by (subst scan_rows.simps) simp
      have rowfree: "\<And>c. col_min \<le> c \<Longrightarrow> c \<le> col_max \<Longrightarrow> cell_free (cells row c)"
        using None unfolding scan_cols_None by blast
      have IH: "scan_rows cells (row + 1) row_max col_min col_max = Some v \<longleftrightarrow>
          (\<exists>r c. first_bad cells (row + 1) row_max col_min col_max r c \<and> v = cell_verdict (cells r c))"
        using "1.IH" True None by simp
      have "first_bad cells row row_max col_min col_max r c \<longleftrightarrow>
            first_bad cells (row + 1) row_max col_min col_max r c" for r c
      proof
        assume a: "first_bad cells row row_max col_min col_max r c"
        then have "r \<noteq> row" using rowfree unfolding first_bad_def by blast
        with a have "row + 1 \<le> r" unfolding first_bad_def by simp
        with a show "first_bad cells (row + 1) row_max col_min col_max r c"
          unfolding first_bad_def by simp
      next
        assume a: "first_bad cells (row + 1) row_max col_min col_max r c"
        show "first_bad cells row row_max col_min col_max r c"
          unfolding first_bad_def
        proof (intro conjI allI impI)
          fix r' c'
          assume b: "row \<le> r' \<and> r' \<le> row_max \<and> col_min \<le> c' \<and> c' \<le> col_max \<and> (r' < r \<or> r' = r \<and> c' < c)"
          show "cell_free (cells r' c')"
          proof (cases "r' = row")
            case True
            with b rowfree show ?thesis by blast
          next
            case False
            with b have "row + 1 \<le> r'" by simp
            with a b show ?thesis unfolding first_bad_def by blast
          qed
        qed (use a in \<open>auto simp: first_bad_def\<close>)
      qed
      with step IH show ?thesis by simp
    qed
  qed
qed

lemma ceil_bracket:
  fixes g :: int
  assumes "0 < g" "s \<le> q * g" "(q - 1) * g < s"
  shows "q \<le> r \<longleftrightarrow> s \<le> r * g"
proof
  assume "q \<le> r"
  then have "q * g \<le> r * g" using assms(1) by (simp add: mult_right_mono)
  with assms(2) show "s \<le> r * g" by simp
next
  assume a: "s \<le> r * g"
  show "q \<le> r"
  proof (rule ccontr)
    assume "\<not> q \<le> r"
    then have "r \<le> q - 1" by simp
    then have "r * g \<le> (q - 1) * g" using assms(1) by (simp add: mult_right_mono)
    with assms(3) a show False by simp
  qed
qed

lemma div_bracket:
  fixes g s :: int
  assumes "0 < g"
  shows "s div g * g \<le> s \<and> s < (s div g + 1) * g"
proof -
  have "s = s div g * g + s mod g" by simp
  moreover have "0 \<le> s mod g" "s mod g < g" using assms by simp_all
  moreover have "(s div g + 1) * g = s div g * g + g" by (simp add: algebra_simps)
  ultimately show ?thesis by linarith
qed

lemma sdiv_round_up:
  fixes g s :: int
  assumes "0 < g"
  defines "q \<equiv> (if s > (s sdiv g) * g then s sdiv g + 1 else s sdiv g)"
  shows "s \<le> q * g \<and> (q - 1) * g < s"
proof (cases "0 \<le> s")
  case True
  then have e: "s sdiv g = s div g"
    using assms(1) by (simp add: signed_divide_int_def sgn_if)
  define d where "d = s div g * g"
  have lo: "d \<le> s" and hi: "s < d + g"
    using div_bracket[OF assms(1), of s] by (simp_all add: d_def algebra_simps)
  show ?thesis
  proof (cases "s > d")
    case True
    then have "q = s div g + 1" unfolding q_def e d_def by simp
    then have a: "q * g = d + g" and b: "(q - 1) * g = d" by (simp_all add: d_def algebra_simps)
    show ?thesis unfolding a b using True hi by simp
  next
    case False
    then have "q = s div g" unfolding q_def e d_def by simp
    then have a: "q * g = d" and b: "(q - 1) * g = d - g" by (simp_all add: d_def algebra_simps)
    show ?thesis unfolding a b using False lo assms(1) by simp
  qed
next
  case False
  then have neg: "s < 0" by simp
  then have e: "s sdiv g = - ((- s) div g)"
    using assms(1) by (simp add: signed_divide_int_def sgn_if)
  have m1: "(- ((- s) div g)) * g = - ((- s) div g * g)" by simp
  have m2: "(- ((- s) div g) - 1) * g = - (((- s) div g + 1) * g)" by (simp add: algebra_simps)
  from div_bracket[OF assms(1), of "- s"]
  have ge: "s \<le> (s sdiv g) * g" and lt: "(s sdiv g - 1) * g < s"
    unfolding e m1 m2 by linarith+
  from ge have "q = s sdiv g" unfolding q_def by simp
  with ge lt show ?thesis by simp
qed

lemma cell_range_covered:
  assumes "0 < m_GridRouting m"
    and "cell_range m (Inflate aRect (m_GridRouting m sdiv 2)) = (row_min, row_max, col_min, col_max)"
  shows "covered m aRect row col \<longleftrightarrow>
         row_min \<le> row \<and> row \<le> row_max \<and> col_min \<le> col \<and> col \<le> col_max"
proof -
  define g where "g = m_GridRouting m"
  define rect where "rect = Inflate aRect (g sdiv 2)"
  define sx where "sx = fst (pt_sub (GetOrigin rect) (GetOrigin (m_BrdBox m)))"
  define sy where "sy = snd (pt_sub (GetOrigin rect) (GetOrigin (m_BrdBox m)))"
  define ex where "ex = fst (pt_sub (GetEnd rect) (GetOrigin (m_BrdBox m)))"
  define ey where "ey = snd (pt_sub (GetEnd rect) (GetOrigin (m_BrdBox m)))"
  define qr where "qr = (if sy > (sy sdiv g) * g then sy sdiv g + 1 else sy sdiv g)"
  define qc where "qc = (if sx > (sx sdiv g) * g then sx sdiv g + 1 else sx sdiv g)"
  have g: "0 < g" using assms(1) by (simp add: g_def)
  have rmin: "row_min = (if qr < 0 then 0 else qr)"
    and rmax: "row_max = (if ey sdiv g \<ge> m_Nrows m - 1 then m_Nrows m - 1 else ey sdiv g)"
    and cmin: "col_min = (if qc < 0 then 0 else qc)"
    and cmax: "col_max = (if ex sdiv g \<ge> m_Ncols m - 1 then m_Ncols m - 1 else ex sdiv g)"
    using assms(2)
    unfolding cell_range_def Let_def g_def[symmetric] rect_def[symmetric]
      sx_def[symmetric] sy_def[symmetric] ex_def[symmetric] ey_def[symmetric]
      qr_def[symmetric] qc_def[symmetric]
    by simp_all
  have r: "qr \<le> row \<longleftrightarrow> sy \<le> row * g"
    using sdiv_round_up[OF g, of sy] ceil_bracket[OF g, of sy qr row] unfolding qr_def by simp
  have c: "qc \<le> col \<longleftrightarrow> sx \<le> col * g"
    using sdiv_round_up[OF g, of sx] ceil_bracket[OF g, of sx qc col] unfolding qc_def by simp
  have "covered m aRect row col \<longleftrightarrow>
        0 \<le> row \<and> row \<le> m_Nrows m - 1 \<and> sy \<le> row * g \<and> row \<le> ey sdiv g \<and>
        0 \<le> col \<and> col \<le> m_Ncols m - 1 \<and> sx \<le> col * g \<and> col \<le> ex sdiv g"
    unfolding covered_def Let_def g_def rect_def sx_def sy_def ex_def ey_def by simp
  also have "\<dots> \<longleftrightarrow> row_min \<le> row \<and> row \<le> row_max \<and> col_min \<le> col \<and> col \<le> col_max"
    unfolding rmin rmax cmin cmax using r c by auto
  finally show ?thesis .
qed

text \<open>
  Claim C5, amended. At a positive grid pitch, \<^verbatim>\<open>testRectangle\<close> inflates the rectangle by
  half the pitch and scans the covered cells (clamped to the matrix) in row-major order.
  It returns \<open>AR_FREE_CELL\<close> exactly when every covered cell is inside the board zone and
  not occupied. Otherwise the first offending cell in row-major order decides alone:
  \<open>AR_OUT_OF_BOARD\<close> if that cell lacks the zone bit, \<open>AR_OCCUIPED_BY_MODULE\<close> if it
  has the zone bit and the footprint bit.
\<close>

theorem testRectangle_first_offending_cell:
  assumes "0 < m_GridRouting m"
  shows "(testRectangle m aRect side = AR_FREE_CELL \<and>
           (\<forall>row col. covered m aRect row col \<longrightarrow> cell_free (GetCell m row col side))) \<or>
         (\<exists>row col. covered m aRect row col \<and> \<not> cell_free (GetCell m row col side) \<and>
            (\<forall>row' col'. covered m aRect row' col' \<and> (row' < row \<or> row' = row \<and> col' < col)
                \<longrightarrow> cell_free (GetCell m row' col' side)) \<and>
            testRectangle m aRect side = cell_verdict (GetCell m row col side))"
proof -
  obtain row_min row_max col_min col_max where
    cr: "cell_range m (Inflate aRect (m_GridRouting m sdiv 2)) = (row_min, row_max, col_min, col_max)"
    by (metis prod_cases4)
  note cov = cell_range_covered[OF assms cr]
  let ?cells = "\<lambda>row col. GetCell m row col side"
  show ?thesis
  proof (cases "scan_rows ?cells row_min row_max col_min col_max")
    case None
    then have "testRectangle m aRect side = AR_FREE_CELL"
      by (simp add: testRectangle_def Let_def cr)
    moreover have "\<forall>row col. covered m aRect row col \<longrightarrow> cell_free (GetCell m row col side)"
      using None unfolding scan_rows_None cov by blast
    ultimately show ?thesis by blast
  next
    case (Some v)
    then have res: "testRectangle m aRect side = v"
      by (simp add: testRectangle_def Let_def cr)
    from Some obtain r c where fb: "first_bad ?cells row_min row_max col_min col_max r c"
      and v: "v = cell_verdict (GetCell m r c side)"
      unfolding scan_rows_Some by blast
    have "covered m aRect r c" using fb unfolding first_bad_def cov by blast
    moreover have "\<not> cell_free (GetCell m r c side)" using fb unfolding first_bad_def by blast
    moreover have "\<forall>row' col'. covered m aRect row' col' \<and> (row' < r \<or> row' = r \<and> col' < c)
                \<longrightarrow> cell_free (GetCell m row' col' side)"
      using fb unfolding first_bad_def cov by blast
    ultimately show ?thesis using res v by blast
  qed
qed

text \<open>
  Claim C5 as stated fails: the covered cell \<open>(0, 1)\<close> lacks the zone bit, yet the verdict
  is \<open>AR_OCCUIPED_BY_MODULE\<close>, because the occupied cell \<open>(0, 0)\<close> is scanned first.
\<close>

theorem testRectangle_out_of_board_priority_counterexample:
  "covered ex5_matrix ex5_rect 0 1 \<and>
   GetCell ex5_matrix 0 1 AR_SIDE_TOP AND CELL_IS_ZONE = 0 \<and>
   testRectangle ex5_matrix ex5_rect AR_SIDE_TOP = AR_OCCUIPED_BY_MODULE"
  by (simp add: covered_def testRectangle_def ex5_matrix_def ex5_rect_def cell_range_def Inflate_def
      GetOrigin_def GetEnd_def pt_sub_def pt_add_def GetCell_def Let_def scan_rows.simps scan_cols.simps
      CELL_IS_ZONE_def CELL_IS_MODULE_def)

text \<open>The amended claim C5 at the example: the hypothesis holds and cell \<open>(0, 0)\<close> decides.\<close>

theorem testRectangle_first_offending_cell_witness:
  "0 < m_GridRouting ex5_matrix \<and>
   covered ex5_matrix ex5_rect 0 0 \<and> \<not> cell_free (GetCell ex5_matrix 0 0 AR_SIDE_TOP) \<and>
   testRectangle ex5_matrix ex5_rect AR_SIDE_TOP = cell_verdict (GetCell ex5_matrix 0 0 AR_SIDE_TOP)"
proof -
  have h: "0 < m_GridRouting ex5_matrix" by (simp add: ex5_matrix_def)
  have c: "covered ex5_matrix ex5_rect 0 0"
    by (simp add: covered_def ex5_matrix_def ex5_rect_def Inflate_def GetOrigin_def GetEnd_def
        pt_sub_def pt_add_def Let_def)
  have nf: "\<not> cell_free (GetCell ex5_matrix 0 0 AR_SIDE_TOP)"
    by (simp add: cell_free_def GetCell_def ex5_matrix_def CELL_IS_ZONE_def CELL_IS_MODULE_def)
  have nofree: "testRectangle ex5_matrix ex5_rect AR_SIDE_TOP \<noteq> AR_FREE_CELL \<or>
     \<not> (\<forall>row col. covered ex5_matrix ex5_rect row col \<longrightarrow> cell_free (GetCell ex5_matrix row col AR_SIDE_TOP))"
    using c nf by blast
  from testRectangle_first_offending_cell[OF h, of ex5_rect AR_SIDE_TOP] nofree
  obtain row col where rc: "covered ex5_matrix ex5_rect row col"
      "\<not> cell_free (GetCell ex5_matrix row col AR_SIDE_TOP)"
      "\<forall>row' col'. covered ex5_matrix ex5_rect row' col' \<and> (row' < row \<or> row' = row \<and> col' < col)
                \<longrightarrow> cell_free (GetCell ex5_matrix row' col' AR_SIDE_TOP)"
      "testRectangle ex5_matrix ex5_rect AR_SIDE_TOP = cell_verdict (GetCell ex5_matrix row col AR_SIDE_TOP)"
    by blast
  have "0 \<le> row \<and> 0 \<le> col" using rc(1) by (simp add: covered_def Let_def)
  then have "row = 0 \<and> col = 0" using rc(3) c nf by (metis order_le_less)
  with rc(4) h c nf show ?thesis by simp
qed

subsection \<open>The placement search\<close>

lemma placement_loop_y_foldl:
  "placement_loop_y body g x y ylimit acc =
     foldl (\<lambda>a y'. body (x, y') a) acc (grid_steps y ylimit g)"
proof (induction body g x y ylimit acc rule: placement_loop_y.induct)
  case (1 body g x y ylimit acc)
  show ?case
  proof (cases "y < ylimit \<and> 0 < g")
    case True
    then show ?thesis
      using "1.IH" by (subst placement_loop_y.simps, subst grid_steps.simps) simp
  next
    case False
    then show ?thesis
      by (subst placement_loop_y.simps, subst grid_steps.simps) auto
  qed
qed

lemma placement_loop_x_foldl:
  "placement_loop_x body g x xlimit y0 ylimit acc =
     foldl (\<lambda>a p. body p a) acc
       (concat (map (\<lambda>x'. map (Pair x') (grid_steps y0 ylimit g)) (grid_steps x xlimit g)))"
proof (induction body g x xlimit y0 ylimit acc rule: placement_loop_x.induct)
  case (1 body g x xlimit y0 ylimit acc)
  show ?case
  proof (cases "x < xlimit \<and> 0 < g")
    case True
    then show ?thesis
      using "1.IH"
      by (subst placement_loop_x.simps, subst (2) grid_steps.simps)
         (simp add: placement_loop_y_foldl foldl_map)
  next
    case False
    then show ?thesis
      by (subst placement_loop_x.simps, subst (2) grid_steps.simps) auto
  qed
qed

lemma grid_steps_set:
  "0 < g \<Longrightarrow> set (grid_steps lo hi g) = {v. lo \<le> v \<and> v < hi \<and> g dvd (v - lo)}"
proof (induction lo hi g rule: grid_steps.induct)
  case (1 lo hi g)
  show ?case
  proof (cases "lo < hi")
    case False
    then show ?thesis by (subst grid_steps.simps) auto
  next
    case True
    have IH: "set (grid_steps (lo + g) hi g) = {v. lo + g \<le> v \<and> v < hi \<and> g dvd (v - (lo + g))}"
      using "1.IH" True "1.prems" by simp
    have "{v. lo \<le> v \<and> v < hi \<and> g dvd (v - lo)} =
          insert lo {v. lo + g \<le> v \<and> v < hi \<and> g dvd (v - (lo + g))}" (is "?A = insert lo ?B")
    proof (intro set_eqI iffI)
      fix v assume "v \<in> ?A"
      then have v: "lo \<le> v" "v < hi" "g dvd (v - lo)" by auto
      show "v \<in> insert lo ?B"
      proof (cases "v = lo")
        case False
        with v have pos: "0 < v - lo" by simp
        from v(3) obtain k where k: "v - lo = g * k" by (auto simp: dvd_def)
        with pos "1.prems" have "0 < k" by (simp add: zero_less_mult_iff)
        then have "g * 1 \<le> g * k" using "1.prems" by (intro mult_left_mono) auto
        with k have "lo + g \<le> v" by simp
        moreover have "v - (lo + g) = g * (k - 1)" using k by (simp add: algebra_simps)
        then have "g dvd (v - (lo + g))" by simp
        ultimately show ?thesis using v by simp
      qed simp
    next
      fix v assume "v \<in> insert lo ?B"
      then consider "v = lo" | "v \<in> ?B" by auto
      then show "v \<in> ?A"
      proof cases
        case 1
        with True show ?thesis by simp
      next
        case 2
        then have v: "lo + g \<le> v" "v < hi" "g dvd (v - (lo + g))" by auto
        have "v - lo = (v - (lo + g)) + g" by simp
        with v(3) have "g dvd (v - lo)" by (metis dvd_add_triv_right_iff)
        with v "1.prems" show ?thesis by simp
      qed
    qed
    with IH True "1.prems" show ?thesis by (subst grid_steps.simps) simp
  qed
qed

lemma grid_steps_sorted: "sorted_wrt (<) (grid_steps lo hi g)"
proof (induction lo hi g rule: grid_steps.induct)
  case (1 lo hi g)
  show ?case
  proof (cases "lo < hi \<and> 0 < g")
    case False
    then show ?thesis by (subst grid_steps.simps) auto
  next
    case True
    then have "\<forall>v \<in> set (grid_steps (lo + g) hi g). lo < v"
      using grid_steps_set[of g "lo + g" hi] by auto
    with True "1.IH" show ?thesis by (subst grid_steps.simps) simp
  qed
qed

lemma sorted_product:
  assumes "sorted_wrt (<) xs" "sorted_wrt (<) ys"
  shows "sorted_wrt lex_before (concat (map (\<lambda>x. map (Pair x) ys) xs))"
  using assms(1)
proof (induction xs)
  case Nil
  then show ?case by simp
next
  case (Cons x xs)
  have "sorted_wrt lex_before (map (Pair x) ys)"
    using assms(2) by (simp add: sorted_wrt_map lex_before_def)
  moreover have "sorted_wrt lex_before (concat (map (\<lambda>x. map (Pair x) ys) xs))"
    using Cons by simp
  moreover have "\<forall>p \<in> set (map (Pair x) ys). \<forall>q \<in> set (concat (map (\<lambda>x. map (Pair x) ys) xs)). lex_before p q"
    using Cons.prems by (auto simp: lex_before_def)
  ultimately show ?case by (simp add: sorted_wrt_append)
qed

lemma foldl_keep_best_none:
  "\<forall>q \<in> set cs. \<not> legal q \<Longrightarrow> foldl (\<lambda>a p. keep_best legal score p a) acc cs = acc"
  by (induction cs arbitrary: acc) (auto simp: keep_best_def split: prod.splits)

lemma foldl_keep_best_some:
  assumes "\<forall>q \<in> set cs. legal q \<longrightarrow> 0 \<le> score q" and "\<exists>q \<in> set cs. legal q" and "m0 < 0"
  shows "\<exists>pre p post. cs = pre @ p # post \<and> legal p \<and>
           foldl (\<lambda>a p. keep_best legal score p a) (e0, l0, m0) cs = (0, p, score p) \<and>
           (\<forall>q \<in> set pre. legal q \<longrightarrow> score p \<le> score q) \<and>
           (\<forall>q \<in> set post. legal q \<longrightarrow> score p < score q)"
  using assms(1,2)
proof (induction cs rule: rev_induct)
  case Nil
  then show ?case by simp
next
  case (snoc c cs)
  let ?f = "foldl (\<lambda>a p. keep_best legal score p a) (e0, l0, m0)"
  have nonneg: "\<forall>q \<in> set cs. legal q \<longrightarrow> 0 \<le> score q" using snoc.prems(1) by simp
  show ?case
  proof (cases "\<exists>q \<in> set cs. legal q")
    case False
    then have before: "?f cs = (e0, l0, m0)" using foldl_keep_best_none[of cs legal] by blast
    from False snoc.prems(2) have c: "legal c" by auto
    have "?f (cs @ [c]) = (0, c, score c)"
      using before c assms(3) by (simp add: keep_best_def)
    moreover have "\<forall>q \<in> set cs. legal q \<longrightarrow> score c \<le> score q" using False by blast
    ultimately show ?thesis using c
      by (intro exI[of _ cs] exI[of _ c] exI[of _ "[]"]) simp
  next
    case True
    from snoc.IH[OF nonneg True] obtain pre p post where
      d: "cs = pre @ p # post" and lp: "legal p" and st: "?f cs = (0, p, score p)"
      and pre: "\<forall>q \<in> set pre. legal q \<longrightarrow> score p \<le> score q"
      and post: "\<forall>q \<in> set post. legal q \<longrightarrow> score p < score q"
      by blast
    have p0: "0 \<le> score p" using nonneg lp d by simp
    show ?thesis
    proof (cases "legal c \<and> score c \<le> score p")
      case True
      then have "?f (cs @ [c]) = (0, c, score c)" using st by (simp add: keep_best_def)
      moreover have "\<forall>q \<in> set cs. legal q \<longrightarrow> score c \<le> score q"
        using pre post True d by fastforce
      ultimately show ?thesis using True
        by (intro exI[of _ cs] exI[of _ c] exI[of _ "[]"]) simp
    next
      case False
      then have "?f (cs @ [c]) = (0, p, score p)"
        using st p0 by (auto simp: keep_best_def)
      moreover have "\<forall>q \<in> set (post @ [c]). legal q \<longrightarrow> score p < score q"
        using post False by auto
      ultimately show ?thesis using lp pre d
        by (intro exI[of _ pre] exI[of _ p] exI[of _ "post @ [c]"]) simp
    qed
  qed
qed

lemma hypot_nonneg: "0 \<le> hypot a b"
  by (simp add: hypot_def)

lemma ratsnest_loop_nonneg:
  "0 \<le> c \<Longrightarrow> 0 \<le> ratsnest_loop env st i off pads c"
proof (induction pads arbitrary: c)
  case Nil
  then show ?case by simp
next
  case (Cons pad pads)
  show ?case
  proof (cases "nearestPad env st i pad off")
    case None
    then show ?thesis using Cons by simp
  next
    case (Some n)
    then show ?thesis
      using Cons.prems
      by (auto simp: Let_def split: prod.splits intro!: Cons.IH add_nonneg_nonneg hypot_nonneg)
  qed
qed

lemma computePlacementRatsnestCost_nonneg: "0 \<le> computePlacementRatsnestCost env st i off"
  by (simp add: computePlacementRatsnestCost_def ratsnest_loop_nonneg)

lemma Move_back: "Move (GetFootprintRect fp) (pt_neg (GetPosition fp)) = fp_Rect fp (fp_Orient fp)"
  by (simp add: Move_def GetFootprintRect_def GetPosition_def pt_add_def pt_neg_def)

lemma try_position_keep_best:
  "try_position env st i (GetPosition (footprints st ! i))
     (needs_other_side (m_matrix st) (footprints st ! i)) =
   keep_best (legal_position st i) (position_score env st i)"
  by (intro ext)
     (simp add: try_position_def keep_best_def legal_position_def position_score_def keepout_at_def
        Let_def split: prod.splits)

lemma getOptimalFPPlacement_foldl:
  "getOptimalFPPlacement env st i =
     (let (error, lastPosOK, min_cost) =
            foldl (\<lambda>a p. keep_best (legal_position st i) (position_score env st i) p a)
              (1, GetOrigin (m_BrdBox (m_matrix st)), - 1) (candidate_list st i)
      in (error, st\<lparr>m_curPosition := lastPosOK, m_minCost := min_cost\<rparr>))"
proof -
  have tos: "(m_RoutingLayersCount (m_matrix st) > 1 \<and>
              list_ex (\<lambda>pad. (if GetLayer (footprints st ! i) = B_Cu then F_Cu else B_Cu) \<in> set (pad_LayerSet pad))
                (Pads (footprints st ! i))) =
             needs_other_side (m_matrix st) (footprints st ! i)"
    by (simp only: needs_other_side_def list_ex_iff)
  have org: "pt_sub (GetOrigin (m_BrdBox (m_matrix st))) (GetOrigin (fp_Rect (footprints st ! i) (fp_Orient (footprints st ! i)))) =
        (GetX (m_BrdBox (m_matrix st)) - GetX (fp_Rect (footprints st ! i) (fp_Orient (footprints st ! i))),
         GetY (m_BrdBox (m_matrix st)) - GetY (fp_Rect (footprints st ! i) (fp_Orient (footprints st ! i))))"
    by (simp add: pt_sub_def GetOrigin_def GetX_def GetY_def)
  have lim: "pt_sub (GetEnd (m_BrdBox (m_matrix st))) (GetEnd (fp_Rect (footprints st ! i) (fp_Orient (footprints st ! i)))) =
        (GetRight (m_BrdBox (m_matrix st)) - GetRight (fp_Rect (footprints st ! i) (fp_Orient (footprints st ! i))),
         GetBottom (m_BrdBox (m_matrix st)) - GetBottom (fp_Rect (footprints st ! i) (fp_Orient (footprints st ! i))))"
    by (simp add: pt_sub_def pt_add_def GetEnd_def GetRight_def GetBottom_def)
  show ?thesis
    unfolding getOptimalFPPlacement_def Let_def Move_back tos org lim try_position_keep_best
      placement_loop_x_foldl candidate_list_def search_origin_def search_limit_def
    by simp
qed

lemma set_candidate_list:
  "0 < m_GridRouting (m_matrix st) \<Longrightarrow> set (candidate_list st i) = trial_positions st i"
  unfolding candidate_list_def trial_positions_def
  by (auto simp: grid_steps_set)

lemma sorted_candidate_list: "sorted_wrt lex_before (candidate_list st i)"
  unfolding candidate_list_def by (intro sorted_product grid_steps_sorted)

text \<open>
  Claim C10. At a positive pitch, \<^verbatim>\<open>getOptimalFPPlacement\<close> returns 0 if at least one
  grid-aligned trial position is legal and 1 otherwise; it never returns the abort value
  \<open>- 1\<close>; when it returns 1 the current search position is the origin of the board box
  and the stored minimum cost is \<open>- 1\<close>, a negative value.
\<close>

theorem getOptimalFPPlacement_error_code:
  assumes "0 < m_GridRouting (m_matrix st)"
  shows "fst (getOptimalFPPlacement env st i) =
           (if \<exists>p \<in> trial_positions st i. legal_position st i p then 0 else 1) \<and>
         fst (getOptimalFPPlacement env st i) \<noteq> AR_ABORT_PLACEMENT \<and>
         (fst (getOptimalFPPlacement env st i) = 1 \<longrightarrow>
            m_curPosition (snd (getOptimalFPPlacement env st i)) = GetOrigin (m_BrdBox (m_matrix st)) \<and>
            m_minCost (snd (getOptimalFPPlacement env st i)) = - 1 \<and>
            m_minCost (snd (getOptimalFPPlacement env st i)) < 0)"
proof (cases "\<exists>p \<in> trial_positions st i. legal_position st i p")
  case True
  then have ex: "\<exists>q \<in> set (candidate_list st i). legal_position st i q"
    using set_candidate_list[OF assms] by simp
  have nonneg: "\<forall>q \<in> set (candidate_list st i). legal_position st i q \<longrightarrow> 0 \<le> position_score env st i q"
    by (simp add: position_score_def legal_position_def computePlacementRatsnestCost_nonneg)
  from foldl_keep_best_some[OF nonneg ex, of "- 1" 1 "GetOrigin (m_BrdBox (m_matrix st))"]
  obtain p where "foldl (\<lambda>a p. keep_best (legal_position st i) (position_score env st i) p a)
              (1, GetOrigin (m_BrdBox (m_matrix st)), - 1) (candidate_list st i) = (0, p, position_score env st i p)"
    by auto
  then have "fst (getOptimalFPPlacement env st i) = 0"
    by (simp add: getOptimalFPPlacement_foldl)
  with True show ?thesis by (simp add: AR_ABORT_PLACEMENT_def)
next
  case False
  then have "\<forall>q \<in> set (candidate_list st i). \<not> legal_position st i q"
    using set_candidate_list[OF assms] by simp
  from foldl_keep_best_none[OF this]
  have "getOptimalFPPlacement env st i =
        (1, st\<lparr>m_curPosition := GetOrigin (m_BrdBox (m_matrix st)), m_minCost := - 1\<rparr>)"
    by (simp add: getOptimalFPPlacement_foldl)
  with False show ?thesis by (simp add: AR_ABORT_PLACEMENT_def)
qed

text \<open>
  Claim C2, amended. When some trial position is legal, the position that the search
  leaves in \<^verbatim>\<open>m_curPosition\<close> is a legal grid-aligned trial position, the stored minimum
  cost is its score (ratsnest cost plus keep-out cost), no legal trial position has a
  smaller score, and every other legal trial position with the same score comes before it
  in the order of the enumeration, which has \<open>x\<close> in the outer loop and \<open>y\<close> in the
  inner loop: on equal scores the last candidate found is kept.
\<close>

theorem getOptimalFPPlacement_keeps_last_minimum:
  assumes "0 < m_GridRouting (m_matrix st)"
    and "\<exists>p \<in> trial_positions st i. legal_position st i p"
  shows "m_curPosition (snd (getOptimalFPPlacement env st i)) \<in> trial_positions st i \<and>
         legal_position st i (m_curPosition (snd (getOptimalFPPlacement env st i))) \<and>
         m_minCost (snd (getOptimalFPPlacement env st i)) =
           position_score env st i (m_curPosition (snd (getOptimalFPPlacement env st i))) \<and>
         (\<forall>q \<in> trial_positions st i. legal_position st i q \<longrightarrow>
            position_score env st i (m_curPosition (snd (getOptimalFPPlacement env st i)))
              \<le> position_score env st i q \<and>
            (position_score env st i q =
               position_score env st i (m_curPosition (snd (getOptimalFPPlacement env st i))) \<longrightarrow>
             q = m_curPosition (snd (getOptimalFPPlacement env st i)) \<or>
             lex_before q (m_curPosition (snd (getOptimalFPPlacement env st i)))))"
proof -
  have ex: "\<exists>q \<in> set (candidate_list st i). legal_position st i q"
    using assms(2) set_candidate_list[OF assms(1)] by simp
  have nonneg: "\<forall>q \<in> set (candidate_list st i). legal_position st i q \<longrightarrow> 0 \<le> position_score env st i q"
    by (simp add: position_score_def legal_position_def computePlacementRatsnestCost_nonneg)
  from foldl_keep_best_some[OF nonneg ex, of "- 1" 1 "GetOrigin (m_BrdBox (m_matrix st))"]
  obtain pre p post where d: "candidate_list st i = pre @ p # post" and lp: "legal_position st i p"
    and f: "foldl (\<lambda>a p. keep_best (legal_position st i) (position_score env st i) p a)
              (1, GetOrigin (m_BrdBox (m_matrix st)), - 1) (candidate_list st i) = (0, p, position_score env st i p)"
    and pre: "\<forall>q \<in> set pre. legal_position st i q \<longrightarrow> position_score env st i p \<le> position_score env st i q"
    and post: "\<forall>q \<in> set post. legal_position st i q \<longrightarrow> position_score env st i p < position_score env st i q"
    by auto
  have cur: "m_curPosition (snd (getOptimalFPPlacement env st i)) = p"
    and cost: "m_minCost (snd (getOptimalFPPlacement env st i)) = position_score env st i p"
    using f by (simp_all add: getOptimalFPPlacement_foldl)
  have mem: "p \<in> trial_positions st i"
    using d set_candidate_list[OF assms(1), of i] by auto
  have before: "\<forall>q \<in> set pre. lex_before q p"
    using sorted_candidate_list[of st i] unfolding d by (simp add: sorted_wrt_append)
  have "position_score env st i p \<le> position_score env st i q \<and>
        (position_score env st i q = position_score env st i p \<longrightarrow> q = p \<or> lex_before q p)"
    if q: "q \<in> trial_positions st i" "legal_position st i q" for q
  proof -
    from q(1) have "q \<in> set pre \<or> q = p \<or> q \<in> set post"
      using set_candidate_list[OF assms(1), of i] d by auto
    then show ?thesis
    proof (elim disjE)
      assume "q \<in> set pre"
      with pre before q(2) show ?thesis by auto
    next
      assume "q = p"
      then show ?thesis by simp
    next
      assume "q \<in> set post"
      with post q(2) show ?thesis by fastforce
    qed
  qed
  with mem lp show ?thesis unfolding cur cost by blast
qed

lemmas ex_geom_simps =
  ex_state_def ex_matrix_def ex_unit_def
  Inflate_def Move_def GetOrigin_def GetEnd_def GetX_def GetY_def GetRight_def GetBottom_def
  GetFootprintRect_def GetPosition_def GetLayer_def GetPadCount_def Pads_def
  GetCell_def GetDist_def pt_sub_def pt_add_def pt_neg_def Let_def
  CELL_IS_ZONE_def CELL_IS_MODULE_def CELL_IS_EMPTY_def AR_GAIN_def
  signed_divide_int_def signed_modulo_int_def

lemmas ex_test_simps =
  testFootprintOnBoard_def testRectangle_def calculateKeepOutArea_def cell_range_def
  scan_rows.simps scan_cols.simps

lemma ex_search_result:
  "getOptimalFPPlacement env ex_state 0 = (0, ex_state\<lparr>m_curPosition := (2, 2), m_minCost := 0\<rparr>)"
  by (simp add: getOptimalFPPlacement_def placement_loop_x.simps placement_loop_y.simps
      try_position_def computePlacementRatsnestCost_def ex_test_simps ex_geom_simps)

lemma ex_trial_positions:
  "(1, 1) \<in> trial_positions ex_state 0"
  by (simp add: trial_positions_def search_origin_def search_limit_def ex_geom_simps)

lemma ex_keepout_at:
  "keepout_at ex_state 0 (1, 1) = 0" "keepout_at ex_state 0 (0, 0) < 0" "keepout_at ex_state 0 (1, 0) < 0"
  "keepout_at ex_state 0 (2, 0) < 0" "keepout_at ex_state 0 (0, 1) < 0" "keepout_at ex_state 0 (2, 2) = 0"
  by (simp_all add: keepout_at_def needs_other_side_def ex_test_simps ex_geom_simps)

lemma ex_pads: "Pads (footprints ex_state ! 0) = []"
  by (simp add: ex_geom_simps)

lemma ex_position_score:
  "position_score env ex_state 0 (1, 1) = 0"
  by (simp add: position_score_def ex_keepout_at computePlacementRatsnestCost_def ex_pads)

text \<open>
  Claim C2 as stated fails at the example. The position \<open>(1, 1)\<close> is a legal trial
  position, no position before it in row-major order is legal (the positions with
  \<open>y = 0\<close> and the position \<open>(0, 1)\<close> are not), and its score equals the minimum; the claim
  makes it the result. The search leaves \<open>(2, 2)\<close>, the last position with that score.
\<close>

theorem getOptimalFPPlacement_first_found_counterexample:
  "(1, 1) \<in> trial_positions ex_state 0 \<and> legal_position ex_state 0 (1, 1) \<and>
   \<not> legal_position ex_state 0 (0, 0) \<and> \<not> legal_position ex_state 0 (1, 0) \<and>
   \<not> legal_position ex_state 0 (2, 0) \<and> \<not> legal_position ex_state 0 (0, 1) \<and>
   position_score ex_env ex_state 0 (1, 1) = m_minCost (snd (getOptimalFPPlacement ex_env ex_state 0)) \<and>
   m_curPosition (snd (getOptimalFPPlacement ex_env ex_state 0)) = (2, 2)"
  using ex_keepout_at
  by (simp add: ex_trial_positions legal_position_def ex_position_score ex_search_result)

text \<open>
  The amended claim C2 at the example: both hypotheses hold; the result \<open>(2, 2)\<close> is legal,
  its score is the stored minimum, and the legal position \<open>(1, 1)\<close>, which has the same
  score, comes before it.
\<close>

theorem getOptimalFPPlacement_keeps_last_minimum_witness:
  "0 < m_GridRouting (m_matrix ex_state) \<and>
   (1, 1) \<in> trial_positions ex_state 0 \<and> legal_position ex_state 0 (1, 1) \<and>
   legal_position ex_state 0 (m_curPosition (snd (getOptimalFPPlacement ex_env ex_state 0))) \<and>
   m_minCost (snd (getOptimalFPPlacement ex_env ex_state 0)) =
     position_score ex_env ex_state 0 (m_curPosition (snd (getOptimalFPPlacement ex_env ex_state 0))) \<and>
   position_score ex_env ex_state 0 (m_curPosition (snd (getOptimalFPPlacement ex_env ex_state 0)))
     \<le> position_score ex_env ex_state 0 (1, 1) \<and>
   lex_before (1, 1) (m_curPosition (snd (getOptimalFPPlacement ex_env ex_state 0)))"
proof -
  have g: "0 < m_GridRouting (m_matrix ex_state)" by (simp add: ex_state_def ex_matrix_def)
  have t: "(1, 1) \<in> trial_positions ex_state 0" by (rule ex_trial_positions)
  have l: "legal_position ex_state 0 (1, 1)" by (simp add: legal_position_def ex_keepout_at)
  from t l have e: "\<exists>p \<in> trial_positions ex_state 0. legal_position ex_state 0 p" by blast
  have lb: "lex_before (1, 1) (m_curPosition (snd (getOptimalFPPlacement ex_env ex_state 0)))"
    by (simp add: ex_search_result lex_before_def)
  from getOptimalFPPlacement_keeps_last_minimum[OF g e, of ex_env] g t l lb
  show ?thesis by blast
qed

text \<open>
  Claim C10 at the example: the pitch is positive, a legal trial position exists, and the
  search returns 0.
\<close>

theorem getOptimalFPPlacement_error_code_witness:
  "0 < m_GridRouting (m_matrix ex_state) \<and>
   (1, 1) \<in> trial_positions ex_state 0 \<and> legal_position ex_state 0 (1, 1) \<and>
   fst (getOptimalFPPlacement ex_env ex_state 0) = 0 \<and>
   fst (getOptimalFPPlacement ex_env ex_state 0) \<noteq> AR_ABORT_PLACEMENT"
proof -
  have g: "0 < m_GridRouting (m_matrix ex_state)" by (simp add: ex_state_def ex_matrix_def)
  have t: "(1, 1) \<in> trial_positions ex_state 0" by (rule ex_trial_positions)
  have l: "legal_position ex_state 0 (1, 1)" by (simp add: legal_position_def ex_keepout_at)
  from t l have e: "\<exists>p \<in> trial_positions ex_state 0. legal_position ex_state 0 p" by blast
  from getOptimalFPPlacement_error_code[OF g, of ex_env 0] e g t l
  show ?thesis by simp
qed

subsection \<open>The degenerate board\<close>

text \<open>
  Claim C6. When the bounding box of the board edges has zero width or zero height,
  \<^verbatim>\<open>AutoplaceFootprints\<close> returns \<open>AR_FAILURE\<close> at once and no unit is touched: the list
  of units (positions, orientations, flags) is the one before the call, and no unit is
  passed to the commit.
\<close>

theorem AutoplaceFootprints_degenerate_board:
  assumes "GetWidth (brd_BBox env) = 0 \<or> GetHeight (brd_BBox env) = 0"
  shows "fst (AutoplaceFootprints env st aFootprints aPlaceOffboardModules) = AR_FAILURE \<and>
         footprints (snd (AutoplaceFootprints env st aFootprints aPlaceOffboardModules)) = footprints st \<and>
         commit_log (snd (AutoplaceFootprints env st aFootprints aPlaceOffboardModules)) = commit_log st"
proof -
  have "genPlacementRoutingMatrix env s = (0, s\<lparr>m_matrix := UnInitRoutingMatrix (m_matrix s)\<rparr>)" for s
    using assms unfolding genPlacementRoutingMatrix_def Let_def by auto
  then show ?thesis
    unfolding AutoplaceFootprints_def Let_def by simp
qed

text \<open>Claim C6 at the example board without width.\<close>

theorem AutoplaceFootprints_degenerate_board_witness:
  "(GetWidth (brd_BBox ex_env_flat) = 0 \<or> GetHeight (brd_BBox ex_env_flat) = 0) \<and>
   fst (AutoplaceFootprints ex_env_flat ex_state [0] False) = AR_FAILURE \<and>
   footprints (snd (AutoplaceFootprints ex_env_flat ex_state [0] False)) = [ex_unit]"
proof -
  have h: "GetWidth (brd_BBox ex_env_flat) = 0 \<or> GetHeight (brd_BBox ex_env_flat) = 0"
    by (simp add: ex_env_flat_def GetWidth_def)
  from AutoplaceFootprints_degenerate_board[OF h, of ex_state "[0]" False] h
  show ?thesis by (simp add: ex_state_def)
qed

subsection \<open>The rasterizer\<close>

lemma fill_cells_fields:
  "m_Nrows (fill_cells idy s e ncols idx m) = m_Nrows m \<and>
   m_Ncols (fill_cells idy s e ncols idx m) = m_Ncols m \<and>
   m_GridRouting (fill_cells idy s e ncols idx m) = m_GridRouting m \<and>
   m_BrdBox (fill_cells idy s e ncols idx m) = m_BrdBox m \<and>
   m_DistSide (fill_cells idy s e ncols idx m) = m_DistSide m \<and>
   m_RoutingLayersCount (fill_cells idy s e ncols idx m) = m_RoutingLayersCount m"
proof (induction idy s e ncols idx m rule: fill_cells.induct)
  case (1 idy s e ncols idx m)
  show ?case
  proof (cases "idx < ncols \<and> \<not> idx * m_GridRouting m > e")
    case True
    then show ?thesis
      using "1.IH" by (subst (1 2 3 4 5 6) fill_cells.simps) (simp add: SetCell_def)
  next
    case False
    then show ?thesis by (subst (1 2 3 4 5 6) fill_cells.simps) auto
  qed
qed

lemma fill_row_fields:
  "m_Nrows (fill_row idy orgx xs m) = m_Nrows m \<and>
   m_Ncols (fill_row idy orgx xs m) = m_Ncols m \<and>
   m_GridRouting (fill_row idy orgx xs m) = m_GridRouting m \<and>
   m_BrdBox (fill_row idy orgx xs m) = m_BrdBox m \<and>
   m_DistSide (fill_row idy orgx xs m) = m_DistSide m \<and>
   m_RoutingLayersCount (fill_row idy orgx xs m) = m_RoutingLayersCount m"
  by (induction idy orgx xs m rule: fill_row.induct) (simp_all add: Let_def fill_cells_fields)

lemma sdiv_mono:
  fixes a b g :: int
  assumes "0 < g" "a \<le> b"
  shows "a sdiv g \<le> b sdiv g"
proof -
  have pos: "x sdiv g = x div g" if "0 \<le> x" for x
    using that assms(1) by (simp add: signed_divide_int_def sgn_if)
  have neg: "x sdiv g = - ((- x) div g)" if "x < 0" for x
    using that assms(1) by (simp add: signed_divide_int_def sgn_if)
  consider "0 \<le> a" | "a < 0" "0 \<le> b" | "b < 0" using assms(2) by linarith
  then show ?thesis
  proof cases
    case 1
    then have "0 \<le> b" using assms(2) by simp
    with 1 show ?thesis using assms by (simp add: pos zdiv_mono1)
  next
    case 2
    have "0 \<le> (- a) div g" using 2 assms(1) by (simp add: pos_imp_zdiv_nonneg_iff)
    moreover have "0 \<le> b div g" using 2 assms(1) by (simp add: pos_imp_zdiv_nonneg_iff)
    ultimately show ?thesis using 2 by (simp add: pos neg)
  next
    case 3
    then have "a < 0" using assms(2) by simp
    moreover have "(- b) div g \<le> (- a) div g" using assms by (intro zdiv_mono1) auto
    ultimately show ?thesis using 3 by (simp add: pos neg)
  qed
qed

lemma grid_steps_ge: "v \<in> set (grid_steps lo hi g) \<Longrightarrow> lo \<le> v"
proof (induction lo hi g rule: grid_steps.induct)
  case (1 lo hi g)
  show ?case
  proof (cases "lo < hi \<and> 0 < g")
    case True
    with "1.prems" have "v = lo \<or> v \<in> set (grid_steps (lo + g) hi g)"
      by (subst (asm) grid_steps.simps) auto
    with "1.IH" True show ?thesis by auto
  next
    case False
    with "1.prems" show ?thesis by (subst (asm) grid_steps.simps) auto
  qed
qed

lemma fill_rows_fold:
  assumes "m_Nrows m = nrows"
  shows "fill_rows outline step org endy refy m =
     (let rows = filter (\<lambda>r. 0 < (r - snd org) sdiv step \<and> (r - snd org) sdiv step < nrows)
                   (grid_steps refy endy step);
          good = takeWhile (\<lambda>r. even (length (scanline_x outline r [0..<length outline]))) rows
      in (good = rows,
          fold (\<lambda>r. fill_row ((r - snd org) sdiv step) (fst org)
                      (sort (scanline_x outline r [0..<length outline])))
            good m))"
  using assms
proof (induction outline step org endy refy m rule: fill_rows.induct)
  case (1 outline step org endy refy m)
  let ?idy = "\<lambda>r. (r - snd org) sdiv step"
  let ?in = "\<lambda>r. 0 < ?idy r \<and> ?idy r < nrows"
  let ?ev = "\<lambda>r. even (length (scanline_x outline r [0..<length outline]))"
  show ?case
  proof (cases "refy < endy \<and> 0 < step")
    case False
    then show ?thesis
      by (subst fill_rows.simps, subst grid_steps.simps) auto
  next
    case True
    then have gs: "grid_steps refy endy step = refy # grid_steps (refy + step) endy step"
      by (subst grid_steps.simps) simp
    show ?thesis
    proof (cases "?idy refy \<ge> nrows")
      case over: True
      have "\<not> ?in r" if "r \<in> set (grid_steps refy endy step)" for r
      proof -
        from that have "refy \<le> r" by (rule grid_steps_ge)
        then have "?idy refy \<le> ?idy r" using True by (intro sdiv_mono) auto
        with over show ?thesis by simp
      qed
      then have "filter ?in (grid_steps refy endy step) = []" by (simp add: filter_empty_conv)
      moreover have "fill_rows outline step org endy refy m = (True, m)"
        using True over "1.prems" by (subst fill_rows.simps) (simp add: Let_def)
      ultimately show ?thesis by (simp add: Let_def)
    next
      case inside: False
      show ?thesis
      proof (cases "?idy refy \<le> 0")
        case skip: True
        have "fill_rows outline step org endy refy m = fill_rows outline step org endy (refy + step) m"
          using True inside skip "1.prems" by (subst fill_rows.simps) (simp add: Let_def)
        moreover have "filter ?in (grid_steps refy endy step) = filter ?in (grid_steps (refy + step) endy step)"
          using skip by (simp add: gs)
        ultimately show ?thesis
          using "1.IH"(1)[OF True refl _ skip "1.prems"] inside "1.prems" by simp
      next
        case row: False
        then have inrow: "?in refy" using inside by simp
        show ?thesis
        proof (cases "?ev refy")
          case False
          then have "fill_rows outline step org endy refy m = (False, m)"
            using True inside row "1.prems" by (subst fill_rows.simps) (simp add: Let_def)
          then show ?thesis using False inrow by (simp add: gs Let_def)
        next
          case ev: True
          define m' where "m' = fill_row (?idy refy) (fst org) (sort (scanline_x outline refy [0..<length outline])) m"
          have n': "m_Nrows m' = nrows" using "1.prems" by (simp add: m'_def fill_row_fields)
          have "fill_rows outline step org endy refy m = fill_rows outline step org endy (refy + step) m'"
            using True inside row ev "1.prems" by (subst fill_rows.simps) (simp add: Let_def m'_def)
          moreover have "fill_rows outline step org endy (refy + step) m' =
             (let rows = filter ?in (grid_steps (refy + step) endy step);
                  good = takeWhile ?ev rows
              in (good = rows,
                  fold (\<lambda>r. fill_row (?idy r) (fst org) (sort (scanline_x outline r [0..<length outline]))) good m'))"
            using "1.IH"(2)[OF True refl _ _ refl _ n'[unfolded m'_def]] inside row ev "1.prems"
            by (simp add: m'_def)
          ultimately show ?thesis using inrow ev by (simp add: gs Let_def m'_def)
        qed
      qed
    qed
  qed
qed

lemma fillMatrix_fold:
  "fillMatrix env m =
     (takeWhile (even_row env) (scanned_rows env m) = scanned_rows env m,
      fold (fill_scanned_row env m) (takeWhile (even_row env) (scanned_rows env m)) m)"
proof -
  have e: "(\<lambda>r. even (length (scanline_x (brd_Outline env) r [0..<length (brd_Outline env)]))) = even_row env"
    by (intro ext) (simp add: even_row_def row_crossings_def)
  have f: "(\<lambda>r. fill_row ((r - snd (GetBrdCoordOrigin m)) sdiv m_GridRouting m) (fst (GetBrdCoordOrigin m))
                      (sort (scanline_x (brd_Outline env) r [0..<length (brd_Outline env)]))) =
           fill_scanned_row env m"
    by (intro ext) (simp add: fill_scanned_row_def row_index_def row_crossings_def)
  show ?thesis
    unfolding fillMatrix_def Let_def fill_rows_fold[OF refl]
    unfolding e f scanned_rows_def row_index_def by simp
qed

lemma takeWhile_all_iff: "takeWhile P xs = xs \<longleftrightarrow> (\<forall>x \<in> set xs. P x)"
  by (induction xs) auto

lemma scanline_x_horizontal:
  "snd (CPoint outline v) = snd (CPoint outline (v + 1)) \<Longrightarrow>
   scanline_x outline refy (v # vs) = scanline_x outline refy vs"
  by (auto simp: Let_def)

text \<open>
  The rounding shows in the truncation. The scan line at 90 meets the side from \<open>(0, 0)\<close>
  to \<open>(70, 100)\<close> at the abscissa 63; the inverse slope is the double nearest to \<open>7 / 10\<close>,
  which is smaller, its product by 90 rounds to a double below 63, and the abscissa that
  the loop records is 62.
\<close>

lemma scanline_x_truncation:
  "row_crossings [(0, 0), (70, 100), (0, 100)] 90 = [62, 0]"
proof -
  have s: "(70 / 100 :: real) = 7 / 10" by simp
  have f: "\<lfloor>8866461766385663 / 140737488355328 :: real\<rfloor> = 62" by simp
  show ?thesis
    by (simp add: row_crossings_def CPoint_def upt_rec[of 0] upt_rec[of 1] upt_rec[of 2]
        Let_def C_int_of_double_def binary64_zero s binary64_seven_tenths binary64_product f)
qed

lemma length_scanline_x:
  "length (scanline_x outline refy vs) =
   length (filter (\<lambda>v. side_crosses (CPoint outline v) (CPoint outline (v + 1)) refy) vs)"
  by (induction vs) (auto simp: Let_def side_crosses_def)

lemma length_row_crossings:
  "length (row_crossings outline refy) = length (crossing_sides outline refy)"
  unfolding row_crossings_def crossing_sides_def by (rule length_scanline_x)

lemma changes_parity:
  fixes f :: "nat \<Rightarrow> bool"
  shows "even (length (filter (\<lambda>v. f v \<noteq> f (v + 1)) [0..<k])) \<longleftrightarrow> f 0 = f k"
  by (induction k) auto

lemma side_crosses_above:
  "side_crosses p q refy \<longleftrightarrow> (refy < snd p) \<noteq> (refy < snd q)"
  by (auto simp: side_crosses_def)

lemma crossings_even: "even (length (row_crossings outline refy))"
proof -
  define f where "f v = (refy < snd (CPoint outline v))" for v
  have "crossing_sides outline refy = filter (\<lambda>v. f v \<noteq> f (v + 1)) [0..<length outline]"
    unfolding crossing_sides_def side_crosses_above f_def ..
  moreover have "f 0 = f (length outline)" by (simp add: f_def CPoint_def)
  ultimately show ?thesis
    unfolding length_row_crossings using changes_parity[of f "length outline"] by simp
qed

lemma fill_rows_eq_with:
  "fill_rows outline step org endy refy m =
   fill_rows_with (row_crossings outline) step org endy refy m"
proof (induction outline step org endy refy m rule: fill_rows.induct)
  case (1 outline step org endy refy m)
  show ?case
    by (subst fill_rows.simps, subst fill_rows_with.simps)
       (simp add: Let_def row_crossings_def[symmetric] "1.IH")
qed

lemma fillMatrix_never_fails: "fst (fillMatrix env m) = True"
  unfolding fillMatrix_fold by (simp add: takeWhile_all_iff even_row_def crossings_even)

lemma fill_rows_with_fold:
  assumes "m_Nrows m = nrows"
  shows "fill_rows_with X step org endy refy m =
     (let rows = filter (\<lambda>r. 0 < (r - snd org) sdiv step \<and> (r - snd org) sdiv step < nrows)
                   (grid_steps refy endy step);
          good = takeWhile (\<lambda>r. even (length (X r))) rows
      in (good = rows,
          fold (\<lambda>r. fill_row ((r - snd org) sdiv step) (fst org)
                      (sort (X r)))
            good m))"
  using assms
proof (induction X step org endy refy m rule: fill_rows_with.induct)
  case (1 X step org endy refy m)
  let ?idy = "\<lambda>r. (r - snd org) sdiv step"
  let ?in = "\<lambda>r. 0 < ?idy r \<and> ?idy r < nrows"
  let ?ev = "\<lambda>r. even (length (X r))"
  show ?case
  proof (cases "refy < endy \<and> 0 < step")
    case False
    then show ?thesis
      by (subst fill_rows_with.simps, subst grid_steps.simps) auto
  next
    case True
    then have gs: "grid_steps refy endy step = refy # grid_steps (refy + step) endy step"
      by (subst grid_steps.simps) simp
    show ?thesis
    proof (cases "?idy refy \<ge> nrows")
      case over: True
      have "\<not> ?in r" if "r \<in> set (grid_steps refy endy step)" for r
      proof -
        from that have "refy \<le> r" by (rule grid_steps_ge)
        then have "?idy refy \<le> ?idy r" using True by (intro sdiv_mono) auto
        with over show ?thesis by simp
      qed
      then have "filter ?in (grid_steps refy endy step) = []" by (simp add: filter_empty_conv)
      moreover have "fill_rows_with X step org endy refy m = (True, m)"
        using True over "1.prems" by (subst fill_rows_with.simps) (simp add: Let_def)
      ultimately show ?thesis by (simp add: Let_def)
    next
      case inside: False
      show ?thesis
      proof (cases "?idy refy \<le> 0")
        case skip: True
        have "fill_rows_with X step org endy refy m = fill_rows_with X step org endy (refy + step) m"
          using True inside skip "1.prems" by (subst fill_rows_with.simps) (simp add: Let_def)
        moreover have "filter ?in (grid_steps refy endy step) = filter ?in (grid_steps (refy + step) endy step)"
          using skip by (simp add: gs)
        ultimately show ?thesis
          using "1.IH"(1)[OF True refl _ skip "1.prems"] inside "1.prems" by simp
      next
        case row: False
        then have inrow: "?in refy" using inside by simp
        show ?thesis
        proof (cases "?ev refy")
          case False
          then have "fill_rows_with X step org endy refy m = (False, m)"
            using True inside row "1.prems" by (subst fill_rows_with.simps) (simp add: Let_def)
          then show ?thesis using False inrow by (simp add: gs Let_def)
        next
          case ev: True
          define m' where "m' = fill_row (?idy refy) (fst org) (sort (X refy)) m"
          have n': "m_Nrows m' = nrows" using "1.prems" by (simp add: m'_def fill_row_fields)
          have "fill_rows_with X step org endy refy m = fill_rows_with X step org endy (refy + step) m'"
            using True inside row ev "1.prems" by (subst fill_rows_with.simps) (simp add: Let_def m'_def)
          moreover have "fill_rows_with X step org endy (refy + step) m' =
             (let rows = filter ?in (grid_steps (refy + step) endy step);
                  good = takeWhile ?ev rows
              in (good = rows,
                  fold (\<lambda>r. fill_row (?idy r) (fst org) (sort (X r))) good m'))"
            using "1.IH"(2)[OF True refl _ _ refl _ n'[unfolded m'_def]] inside row ev "1.prems"
            by (simp add: m'_def)
          ultimately show ?thesis using inrow ev by (simp add: gs Let_def m'_def)
        qed
      qed
    qed
  qed
qed


lemma fill_rows_with_rows:
  "fill_rows_with X (m_GridRouting m) (GetBrdCoordOrigin m)
     (outline_GetBottom (brd_Outline env)) (outline_GetY (brd_Outline env)) m =
   (takeWhile (\<lambda>refy. even (length (X refy))) (scanned_rows env m) = scanned_rows env m,
    fold (\<lambda>refy. fill_row (row_index m refy) (fst (GetBrdCoordOrigin m)) (sort (X refy)))
      (takeWhile (\<lambda>refy. even (length (X refy))) (scanned_rows env m)) m)"
  unfolding fill_rows_with_fold[OF refl] Let_def scanned_rows_def row_index_def by simp

lemma fillMatrix_with:
  "fillMatrix env m =
   fill_rows_with (row_crossings (brd_Outline env)) (m_GridRouting m) (GetBrdCoordOrigin m)
     (outline_GetBottom (brd_Outline env)) (outline_GetY (brd_Outline env)) m"
  unfolding fillMatrix_def Let_def fill_rows_eq_with ..

lemma fill_cells_cell:
  assumes "0 < m_GridRouting m"
  shows "m_BoardSide (fill_cells idy s e ncols idx m) side r c =
     (if side = AR_SIDE_BOTTOM \<and> r = idy \<and> idx \<le> c \<and> c < ncols \<and> c * m_GridRouting m \<le> e \<and>
         s \<le> c * m_GridRouting m
      then CELL_IS_ZONE else m_BoardSide m side r c)"
  using assms
proof (induction idy s e ncols idx m rule: fill_cells.induct)
  case (1 idy s e ncols idx m)
  let ?g = "m_GridRouting m"
  show ?case
  proof (cases "idx < ncols")
    case False
    then show ?thesis by (subst fill_cells.simps) auto
  next
    case True
    show ?thesis
    proof (cases "idx * ?g > e")
      case stop: True
      have "\<not> (idx \<le> c \<and> c * ?g \<le> e)"
      proof
        assume a: "idx \<le> c \<and> c * ?g \<le> e"
        then have "idx * ?g \<le> c * ?g" using "1.prems" by (simp add: mult_right_mono)
        with a stop show False by simp
      qed
      then show ?thesis using True stop by (subst fill_cells.simps) auto
    next
      case go: False
      define m' where "m' = (if idx * ?g \<ge> s then SetCell m idy idx AR_SIDE_BOTTOM CELL_IS_ZONE else m)"
      have g': "m_GridRouting m' = ?g" by (simp add: m'_def SetCell_def)
      have step: "fill_cells idy s e ncols idx m = fill_cells idy s e ncols (idx + 1) m'"
        using True go by (subst fill_cells.simps) (simp add: m'_def)
      have IH: "m_BoardSide (fill_cells idy s e ncols (idx + 1) m') side r c =
          (if side = AR_SIDE_BOTTOM \<and> r = idy \<and> idx + 1 \<le> c \<and> c < ncols \<and> c * ?g \<le> e \<and> s \<le> c * ?g
           then CELL_IS_ZONE else m_BoardSide m' side r c)"
        using "1.IH"[OF True go] "1.prems" g' unfolding m'_def by simp
      have cell: "m_BoardSide m' side r c =
          (if side = AR_SIDE_BOTTOM \<and> r = idy \<and> c = idx \<and> s \<le> idx * ?g then CELL_IS_ZONE
           else m_BoardSide m side r c)"
        by (auto simp: m'_def SetCell_def)
      have split: "idx \<le> c \<longleftrightarrow> c = idx \<or> idx + 1 \<le> c" by auto
      show ?thesis
        unfolding step IH cell split using go True by auto
    qed
  qed
qed

lemma rect_crossings:
  assumes "y0 < refy" "refy < y0 + H" "0 < W"
  shows "sort (row_crossings (rect_outline x0 y0 W H) refy) = [x0, x0 + W]"
proof -
  have "row_crossings (rect_outline x0 y0 W H) refy = [x0 + W, x0]"
    using assms
    by (simp add: row_crossings_def rect_outline_def CPoint_def upt_rec[of 0] upt_rec[of 1]
        upt_rec[of 2] upt_rec[of 3] Let_def C_int_of_double_def binary64_zero)
  with assms(3) show ?thesis by simp
qed

lemma fill_scanned_row_rect:
  assumes "brd_Outline env = rect_outline x0 y0 W H" "fst (GetBrdCoordOrigin m0) = x0"
    "y0 < refy" "refy < y0 + H" "0 < W" "0 < m_GridRouting m"
  shows "fill_scanned_row env m0 refy m = fill_cells (row_index m0 refy) 0 W (m_Ncols m) 0 m"
  using assms
  by (simp add: fill_scanned_row_def rect_crossings Let_def signed_divide_int_def)

lemma fold_fill_rect:
  assumes "brd_Outline env = rect_outline x0 y0 W H" "fst (GetBrdCoordOrigin m0) = x0" "0 < W"
    and "0 < g" "m_GridRouting m = g" "m_Ncols m = ncols"
    and "\<forall>refy \<in> set rows. y0 < refy \<and> refy < y0 + H"
  shows "m_BoardSide (fold (fill_scanned_row env m0) rows m) side r c =
     (if side = AR_SIDE_BOTTOM \<and> (\<exists>refy \<in> set rows. r = row_index m0 refy) \<and>
         0 \<le> c \<and> c < ncols \<and> c * g \<le> W
      then CELL_IS_ZONE else m_BoardSide m side r c) \<and>
     m_Nrows (fold (fill_scanned_row env m0) rows m) = m_Nrows m \<and>
     m_Ncols (fold (fill_scanned_row env m0) rows m) = m_Ncols m"
  using assms(5,6,7)
proof (induction rows arbitrary: m)
  case Nil
  then show ?case by simp
next
  case (Cons refy rows)
  define m' where "m' = fill_scanned_row env m0 refy m"
  have refy: "y0 < refy" "refy < y0 + H" using Cons.prems(3) by simp_all
  have eq: "m' = fill_cells (row_index m0 refy) 0 W ncols 0 m"
    unfolding m'_def
    using fill_scanned_row_rect[OF assms(1,2) refy assms(3), of m] Cons.prems(1,2) assms(4) by simp
  have g': "m_GridRouting m' = g" and n': "m_Ncols m' = ncols" and r': "m_Nrows m' = m_Nrows m"
    using Cons.prems(1,2) by (simp_all add: eq fill_cells_fields)
  have cpos: "0 \<le> c * g" if "0 \<le> c" using that assms(4) by simp
  have cell: "m_BoardSide m' side r c =
     (if side = AR_SIDE_BOTTOM \<and> r = row_index m0 refy \<and> 0 \<le> c \<and> c < ncols \<and> c * g \<le> W
      then CELL_IS_ZONE else m_BoardSide m side r c)"
    unfolding eq using fill_cells_cell[of m "row_index m0 refy" 0 W ncols 0 side r c] Cons.prems(1) assms(4) cpos
    by auto
  have rest: "\<forall>refy \<in> set rows. y0 < refy \<and> refy < y0 + H" using Cons.prems(3) by simp
  from Cons.IH[OF g' n' rest]
  show ?case
    unfolding fold_simps m'_def[symmetric] cell r' n' using Cons.prems(2) by auto
qed

lemma outline_rect_bounds:
  assumes "0 < H"
  shows "outline_GetY (rect_outline x0 y0 W H) = y0" "outline_GetBottom (rect_outline x0 y0 W H) = y0 + H"
  using assms by (simp_all add: outline_GetY_def outline_GetBottom_def rect_outline_def)

lemma sdiv_mult_self:
  fixes k g :: int
  assumes "0 \<le> k" "0 < g"
  shows "(k * g) sdiv g = k"
  using assms by (simp add: signed_divide_int_def sgn_if)

lemma scanned_rows_rect:
  assumes "brd_Outline env = rect_outline x0 y0 W H" "snd (GetBrdCoordOrigin m) = y0"
    "0 < H" "0 < m_GridRouting m"
  shows "(\<forall>refy \<in> set (scanned_rows env m). y0 < refy \<and> refy < y0 + H) \<and>
         row_index m ` set (scanned_rows env m) =
           {k. 0 < k \<and> k < m_Nrows m \<and> k * m_GridRouting m < H}"
proof -
  let ?g = "m_GridRouting m"
  have set_rows: "set (scanned_rows env m) =
      {refy. y0 \<le> refy \<and> refy < y0 + H \<and> ?g dvd (refy - y0) \<and>
             0 < row_index m refy \<and> row_index m refy < m_Nrows m}"
    unfolding scanned_rows_def assms(1) outline_rect_bounds[OF assms(3)]
    using grid_steps_set[OF assms(4), of y0 "y0 + H"] by auto
  have idx: "row_index m (y0 + k * ?g) = k" if "0 \<le> k" for k
    using that assms(2,4) by (simp add: row_index_def sdiv_mult_self)
  have idx0: "row_index m y0 = 0" using assms(2) by (simp add: row_index_def)
  have a: "\<forall>refy \<in> set (scanned_rows env m). y0 < refy \<and> refy < y0 + H"
  proof
    fix refy assume "refy \<in> set (scanned_rows env m)"
    then have r: "y0 \<le> refy" "refy < y0 + H" "0 < row_index m refy" unfolding set_rows by auto
    with idx0 have "refy \<noteq> y0" by auto
    with r show "y0 < refy \<and> refy < y0 + H" by simp
  qed
  have b: "row_index m ` set (scanned_rows env m) = {k. 0 < k \<and> k < m_Nrows m \<and> k * ?g < H}"
  proof (intro set_eqI iffI)
    fix k assume "k \<in> row_index m ` set (scanned_rows env m)"
    then obtain refy where r: "refy \<in> set (scanned_rows env m)" "k = row_index m refy" by auto
    then have p: "y0 \<le> refy" "refy < y0 + H" "?g dvd (refy - y0)" "0 < k" "k < m_Nrows m"
      unfolding set_rows by auto
    from p(3) obtain j where j: "refy - y0 = j * ?g" by (auto simp: dvd_def mult.commute)
    from p(1) j have "0 \<le> j * ?g" by simp
    with assms(4) have "0 \<le> j" by (simp add: zero_le_mult_iff)
    with idx[of j] j r(2) have "k = j" by (simp add: algebra_simps)
    with j p show "k \<in> {k. 0 < k \<and> k < m_Nrows m \<and> k * ?g < H}" by simp
  next
    fix k assume "k \<in> {k. 0 < k \<and> k < m_Nrows m \<and> k * ?g < H}"
    then have k: "0 < k" "k < m_Nrows m" "k * ?g < H" by auto
    have "0 \<le> k * ?g" using k(1) assms(4) by simp
    then have "y0 + k * ?g \<in> set (scanned_rows env m)"
      unfolding set_rows using k idx[of k] by simp
    moreover have "row_index m (y0 + k * ?g) = k" using idx[of k] k(1) by simp
    ultimately show "k \<in> row_index m ` set (scanned_rows env m)" by force
  qed
  from a b show ?thesis by simp
qed

lemma fillMatrix_rect_cells:
  assumes "brd_Outline env = rect_outline x0 y0 W H" "GetBrdCoordOrigin m = (x0, y0)"
    "0 < W" "0 < H" "0 < m_GridRouting m"
  shows "fst (fillMatrix env m) = True \<and>
         m_Nrows (snd (fillMatrix env m)) = m_Nrows m \<and>
         m_Ncols (snd (fillMatrix env m)) = m_Ncols m \<and>
         (\<forall>side r c. m_BoardSide (snd (fillMatrix env m)) side r c =
           (if side = AR_SIDE_BOTTOM \<and> 0 < r \<and> r < m_Nrows m \<and> r * m_GridRouting m < H \<and>
               0 \<le> c \<and> c < m_Ncols m \<and> c * m_GridRouting m \<le> W
            then CELL_IS_ZONE else m_BoardSide m side r c))"
proof -
  have org: "fst (GetBrdCoordOrigin m) = x0" "snd (GetBrdCoordOrigin m) = y0"
    using assms(2) by simp_all
  note sr = scanned_rows_rect[OF assms(1) org(2) assms(4,5)]
  have ev: "\<forall>refy \<in> set (scanned_rows env m). even_row env refy"
  proof
    fix refy assume "refy \<in> set (scanned_rows env m)"
    with sr have "y0 < refy" "refy < y0 + H" by auto
    from rect_crossings[OF this assms(3), of x0]
    have "length (sort (row_crossings (rect_outline x0 y0 W H) refy)) = 2" by simp
    then show "even_row env refy" by (simp add: even_row_def assms(1))
  qed
  then have tw: "takeWhile (even_row env) (scanned_rows env m) = scanned_rows env m"
    by (simp add: takeWhile_all_iff)
  have in_rows: "(\<exists>refy \<in> set (scanned_rows env m). r = row_index m refy) \<longleftrightarrow>
        0 < r \<and> r < m_Nrows m \<and> r * m_GridRouting m < H" for r
    using sr by (metis (mono_tags, lifting) image_iff mem_Collect_eq)
  have "m_BoardSide (fold (fill_scanned_row env m) (scanned_rows env m) m) side r c =
     (if side = AR_SIDE_BOTTOM \<and> (\<exists>refy \<in> set (scanned_rows env m). r = row_index m refy) \<and>
         0 \<le> c \<and> c < m_Ncols m \<and> c * m_GridRouting m \<le> W
      then CELL_IS_ZONE else m_BoardSide m side r c) \<and>
     m_Nrows (fold (fill_scanned_row env m) (scanned_rows env m) m) = m_Nrows m \<and>
     m_Ncols (fold (fill_scanned_row env m) (scanned_rows env m) m) = m_Ncols m" for side r c
    using sr by (intro fold_fill_rect[OF assms(1) org(1) assms(3,5) refl refl]) auto
  then show ?thesis
    unfolding fillMatrix_fold tw in_rows by simp
qed

lemma zone_count_card:
  "zone_count m side =
     card {(row, col). 0 \<le> row \<and> row < m_Nrows m \<and> 0 \<le> col \<and> col < m_Ncols m \<and>
                       GetCell m row col side AND CELL_IS_ZONE \<noteq> 0}"
proof -
  define Z where "Z = (\<lambda>row col. GetCell m row col side AND CELL_IS_ZONE \<noteq> 0)"
  define N where "N = m_Nrows m"
  define M where "M = m_Ncols m"
  have d: "distinct (List.product [0..N - 1] [0..M - 1])"
    by (simp add: distinct_product)
  have s: "set (List.product [0..N - 1] [0..M - 1]) = {(row, col). 0 \<le> row \<and> row < N \<and> 0 \<le> col \<and> col < M}"
    by auto
  have "{x. (case x of (row, col) \<Rightarrow> Z row col)} \<inter> set (List.product [0..N - 1] [0..M - 1]) =
        {(row, col). 0 \<le> row \<and> row < N \<and> 0 \<le> col \<and> col < M \<and> Z row col}"
    unfolding s by blast
  then have "length (filter (\<lambda>(row, col). Z row col) (List.product [0..N - 1] [0..M - 1])) =
        card {(row, col). 0 \<le> row \<and> row < N \<and> 0 \<le> col \<and> col < M \<and> Z row col}"
    unfolding distinct_length_filter[OF d] by simp
  then show ?thesis
    unfolding zone_count_def Z_def N_def M_def .
qed

lemma le_div_iff_mult_le:
  fixes r a g :: int
  assumes "0 < g"
  shows "r \<le> a div g \<longleftrightarrow> r * g \<le> a"
proof
  assume "r \<le> a div g"
  then have "r * g \<le> a div g * g" using assms by (simp add: mult_right_mono)
  with div_bracket[OF assms, of a] show "r * g \<le> a" by simp
next
  assume a: "r * g \<le> a"
  show "r \<le> a div g"
  proof (rule ccontr)
    assume "\<not> r \<le> a div g"
    then have "a div g + 1 \<le> r" by simp
    then have "(a div g + 1) * g \<le> r * g" using assms by (simp add: mult_right_mono)
    with div_bracket[OF assms, of a] a show False by simp
  qed
qed

lemma card_rows:
  fixes g H N :: int
  assumes "0 < g"
  shows "card {r. 0 < r \<and> r < N \<and> r * g < H} = nat (min (N - 1) ((H - 1) div g))"
proof -
  have iff: "r * g < H \<longleftrightarrow> r \<le> (H - 1) div g" for r
    using le_div_iff_mult_le[OF assms, of r "H - 1"] by linarith
  have "{r. 0 < r \<and> r < N \<and> r * g < H} = {1..min (N - 1) ((H - 1) div g)}"
  proof (intro set_eqI iffI)
    fix r assume "r \<in> {r. 0 < r \<and> r < N \<and> r * g < H}"
    then have "0 < r" "r < N" "r \<le> (H - 1) div g" using iff by simp_all
    then show "r \<in> {1..min (N - 1) ((H - 1) div g)}" by simp
  next
    fix r assume "r \<in> {1..min (N - 1) ((H - 1) div g)}"
    then have "1 \<le> r" "r \<le> N - 1" "r \<le> (H - 1) div g" by simp_all
    then have "0 < r" "r < N" "r * g < H" using iff by simp_all
    then show "r \<in> {r. 0 < r \<and> r < N \<and> r * g < H}" by simp
  qed
  then show ?thesis by simp
qed

lemma card_cols:
  fixes g W N :: int
  assumes "0 < g"
  shows "card {c. 0 \<le> c \<and> c < N \<and> c * g \<le> W} = nat (min N (W div g + 1))"
proof -
  have iff: "c * g \<le> W \<longleftrightarrow> c \<le> W div g" for c
    using le_div_iff_mult_le[OF assms, of c W] by simp
  have "{c. 0 \<le> c \<and> c < N \<and> c * g \<le> W} = {0..min (N - 1) (W div g)}"
  proof (intro set_eqI iffI)
    fix c assume "c \<in> {c. 0 \<le> c \<and> c < N \<and> c * g \<le> W}"
    then have "0 \<le> c" "c < N" "c \<le> W div g" using iff by simp_all
    then show "c \<in> {0..min (N - 1) (W div g)}" by simp
  next
    fix c assume "c \<in> {0..min (N - 1) (W div g)}"
    then have "0 \<le> c" "c \<le> N - 1" "c \<le> W div g" by simp_all
    then have "0 \<le> c" "c < N" "c * g \<le> W" using iff by simp_all
    then show "c \<in> {c. 0 \<le> c \<and> c < N \<and> c * g \<le> W}" by simp
  qed
  moreover have "min (N - 1) (W div g) + 1 = min N (W div g + 1)" by simp
  ultimately show ?thesis by simp
qed

lemma zone_bit_set: "CELL_IS_ZONE AND CELL_IS_ZONE \<noteq> 0"
  by (simp add: CELL_IS_ZONE_def)

text \<open>
  Claim C7, amended. A rectangular outline of width \<open>W\<close> and height \<open>H\<close> whose corner
  \<open>(x0, y0)\<close> is the origin of the matrix is rasterized at pitch \<open>P\<close> into a matrix without
  zone bits. The fill succeeds and marks exactly the cells of the rows \<open>row\<close> with
  \<open>0 < row < m_Nrows\<close> and \<open>row * P < H\<close> and of the columns \<open>col\<close> with
  \<open>0 \<le> col < m_Ncols\<close> and \<open>col * P \<le> W\<close>: row 0 is never filled and the column of the
  right edge is. The number of marked cells is
  \<open>min (m_Nrows - 1) ((H - 1) div P) * min m_Ncols (W div P + 1)\<close>.
\<close>

theorem fillMatrix_rectangle_count:
  assumes "brd_Outline env = rect_outline x0 y0 W H" and "GetBrdCoordOrigin m = (x0, y0)"
    and "0 < W" and "0 < H" and "0 < m_GridRouting m"
    and "\<forall>row col. GetCell m row col AR_SIDE_BOTTOM AND CELL_IS_ZONE = 0"
  shows "fst (fillMatrix env m) = True \<and>
         (\<forall>row col. GetCell (snd (fillMatrix env m)) row col AR_SIDE_BOTTOM AND CELL_IS_ZONE \<noteq> 0 \<longleftrightarrow>
            0 < row \<and> row < m_Nrows m \<and> row * m_GridRouting m < H \<and>
            0 \<le> col \<and> col < m_Ncols m \<and> col * m_GridRouting m \<le> W) \<and>
         zone_count (snd (fillMatrix env m)) AR_SIDE_BOTTOM =
           nat (min (m_Nrows m - 1) ((H - 1) div m_GridRouting m)) *
           nat (min (m_Ncols m) (W div m_GridRouting m + 1))"
proof -
  note fc = fillMatrix_rect_cells[OF assms(1-5)]
  let ?m = "snd (fillMatrix env m)"
  let ?g = "m_GridRouting m"
  have cells: "GetCell ?m row col AR_SIDE_BOTTOM AND CELL_IS_ZONE \<noteq> 0 \<longleftrightarrow>
            0 < row \<and> row < m_Nrows m \<and> row * ?g < H \<and>
            0 \<le> col \<and> col < m_Ncols m \<and> col * ?g \<le> W" for row col
    using fc assms(6) zone_bit_set by (simp add: GetCell_def)
  have "{(row, col). 0 \<le> row \<and> row < m_Nrows ?m \<and> 0 \<le> col \<and> col < m_Ncols ?m \<and>
                       GetCell ?m row col AR_SIDE_BOTTOM AND CELL_IS_ZONE \<noteq> 0} =
        {r. 0 < r \<and> r < m_Nrows m \<and> r * ?g < H} \<times> {c. 0 \<le> c \<and> c < m_Ncols m \<and> c * ?g \<le> W}"
    using fc cells by auto
  then have "zone_count ?m AR_SIDE_BOTTOM =
     card ({r. 0 < r \<and> r < m_Nrows m \<and> r * ?g < H} \<times> {c. 0 \<le> c \<and> c < m_Ncols m \<and> c * ?g \<le> W})"
    by (simp add: zone_count_card)
  also have "\<dots> = nat (min (m_Nrows m - 1) ((H - 1) div ?g)) * nat (min (m_Ncols m) (W div ?g + 1))"
    by (simp add: card_cartesian_product card_rows[OF assms(5)] card_cols[OF assms(5)])
  finally show ?thesis using fc cells by blast
qed

lemma ex_rect: "brd_Outline ex_env = rect_outline 0 0 4 4"
  by (simp add: ex_env_def rect_outline_def)

lemma ex_grid_fields:
  "GetBrdCoordOrigin ex_grid = (0, 0)" "m_GridRouting ex_grid = 1" "m_Nrows ex_grid = 5"
  "m_Ncols ex_grid = 5" "m_BoardSide ex_grid side row col = CELL_IS_EMPTY"
  by (simp_all add: ex_grid_def GetBrdCoordOrigin_def GetOrigin_def)

lemma ex_fill_cells:
  "fst (fillMatrix ex_env ex_grid) = True"
  "m_Nrows (snd (fillMatrix ex_env ex_grid)) = 5"
  "m_Ncols (snd (fillMatrix ex_env ex_grid)) = 5"
  "GetCell (snd (fillMatrix ex_env ex_grid)) row col AR_SIDE_BOTTOM AND CELL_IS_ZONE \<noteq> 0 \<longleftrightarrow>
     0 < row \<and> row < 4 \<and> 0 \<le> col \<and> col < 5"
proof -
  have g: "0 < m_GridRouting ex_grid" by (simp add: ex_grid_fields)
  have fc: "fst (fillMatrix ex_env ex_grid) = True \<and>
         m_Nrows (snd (fillMatrix ex_env ex_grid)) = m_Nrows ex_grid \<and>
         m_Ncols (snd (fillMatrix ex_env ex_grid)) = m_Ncols ex_grid \<and>
         (\<forall>side r c. m_BoardSide (snd (fillMatrix ex_env ex_grid)) side r c =
           (if side = AR_SIDE_BOTTOM \<and> 0 < r \<and> r < m_Nrows ex_grid \<and> r * m_GridRouting ex_grid < 4 \<and>
               0 \<le> c \<and> c < m_Ncols ex_grid \<and> c * m_GridRouting ex_grid \<le> 4
            then CELL_IS_ZONE else m_BoardSide ex_grid side r c))"
    by (rule fillMatrix_rect_cells[OF ex_rect ex_grid_fields(1) _ _ g]) simp_all
  from fc show "fst (fillMatrix ex_env ex_grid) = True" by blast
  from fc have "m_Nrows (snd (fillMatrix ex_env ex_grid)) = m_Nrows ex_grid" by blast
  then show "m_Nrows (snd (fillMatrix ex_env ex_grid)) = 5" by (simp only: ex_grid_fields)
  from fc have "m_Ncols (snd (fillMatrix ex_env ex_grid)) = m_Ncols ex_grid" by blast
  then show "m_Ncols (snd (fillMatrix ex_env ex_grid)) = 5" by (simp only: ex_grid_fields)
  from fc have "m_BoardSide (snd (fillMatrix ex_env ex_grid)) AR_SIDE_BOTTOM row col =
           (if AR_SIDE_BOTTOM = AR_SIDE_BOTTOM \<and> 0 < row \<and> row < m_Nrows ex_grid \<and> row * m_GridRouting ex_grid < 4 \<and>
               0 \<le> col \<and> col < m_Ncols ex_grid \<and> col * m_GridRouting ex_grid \<le> 4
            then CELL_IS_ZONE else m_BoardSide ex_grid AR_SIDE_BOTTOM row col)" by blast
  then have "GetCell (snd (fillMatrix ex_env ex_grid)) row col AR_SIDE_BOTTOM =
      (if 0 < row \<and> row < 4 \<and> 0 \<le> col \<and> col < 5 then CELL_IS_ZONE else CELL_IS_EMPTY)"
    unfolding GetCell_def ex_grid_fields by auto
  then show "GetCell (snd (fillMatrix ex_env ex_grid)) row col AR_SIDE_BOTTOM AND CELL_IS_ZONE \<noteq> 0 \<longleftrightarrow>
     0 < row \<and> row < 4 \<and> 0 \<le> col \<and> col < 5"
    by (simp add: CELL_IS_ZONE_def CELL_IS_EMPTY_def)
qed

lemma upto_0_4: "[0..4::int] = [0, 1, 2, 3, 4]"
  by (simp add: upto_rec1)

lemma ex_fill_count: "zone_count (snd (fillMatrix ex_env ex_grid)) AR_SIDE_BOTTOM = 15"
  unfolding zone_count_def ex_fill_cells by (simp add: upto_0_4)

text \<open>
  Claim C7 as stated fails: for the square outline of side 4 at pitch 1 the fill marks 15
  cells (rows 1 to 3, columns 0 to 4), not \<open>4 * 4 = 16\<close>.
\<close>

theorem fillMatrix_rectangle_count_counterexample:
  "brd_Outline ex_env = rect_outline 0 0 4 4 \<and> m_GridRouting ex_grid = 1 \<and>
   GetBrdCoordOrigin ex_grid = (0, 0) \<and>
   zone_count (snd (fillMatrix ex_env ex_grid)) AR_SIDE_BOTTOM = 15 \<and>
   (4 div m_GridRouting ex_grid) * (4 div m_GridRouting ex_grid) = 16"
  by (simp add: ex_rect ex_grid_fields ex_fill_count)

text \<open>The amended claim C7 at the example: every hypothesis holds and 15 cells are marked.\<close>

theorem fillMatrix_rectangle_count_witness:
  "brd_Outline ex_env = rect_outline 0 0 4 4 \<and> GetBrdCoordOrigin ex_grid = (0, 0) \<and>
   (0::int) < 4 \<and> 0 < m_GridRouting ex_grid \<and>
   GetCell ex_grid 2 3 AR_SIDE_BOTTOM AND CELL_IS_ZONE = 0 \<and>
   fst (fillMatrix ex_env ex_grid) = True \<and>
   zone_count (snd (fillMatrix ex_env ex_grid)) AR_SIDE_BOTTOM = 3 * 5"
proof -
  have g: "0 < m_GridRouting ex_grid" by (simp add: ex_grid_fields)
  have z: "\<forall>row col. GetCell ex_grid row col AR_SIDE_BOTTOM AND CELL_IS_ZONE = 0"
    by (simp add: GetCell_def ex_grid_fields CELL_IS_EMPTY_def)
  have p: "(0::int) < 4" by simp
  note t = fillMatrix_rectangle_count[OF ex_rect ex_grid_fields(1) p p g z]
  from t have a: "fst (fillMatrix ex_env ex_grid) = True" by (rule conjunct1)
  from t have b: "zone_count (snd (fillMatrix ex_env ex_grid)) AR_SIDE_BOTTOM =
           nat (min (m_Nrows ex_grid - 1) ((4 - 1) div m_GridRouting ex_grid)) *
           nat (min (m_Ncols ex_grid) (4 div m_GridRouting ex_grid + 1))"
    by (rule conjunct2[THEN conjunct2])
  have c: "nat (min (m_Nrows ex_grid - 1) ((4 - 1) div m_GridRouting ex_grid)) *
           nat (min (m_Ncols ex_grid) (4 div m_GridRouting ex_grid + 1)) = 3 * 5"
    by (simp add: ex_grid_fields)
  have z1: "GetCell ex_grid 2 3 AR_SIDE_BOTTOM AND CELL_IS_ZONE = 0" using z by blast
  show ?thesis
    using ex_rect ex_grid_fields(1) p g z1 a b[unfolded c] by (intro conjI)
qed

lemma fill_row_cell_aux:
  assumes "0 < m_GridRouting m0" "orgx = fst (GetBrdCoordOrigin m0)"
    "m_GridRouting m = m_GridRouting m0" "m_Ncols m = m_Ncols m0"
  shows "m_BoardSide (fill_row idy orgx xs m) side r c =
     (if side = AR_SIDE_BOTTOM \<and> r = idy \<and> in_segments m0 xs c then CELL_IS_ZONE
      else m_BoardSide m side r c)"
  using assms(2,3,4)
proof (induction idy orgx xs m rule: fill_row.induct)
  case (1 idy orgx a b rest m)
  define s where "s = a - orgx"
  define e where "e = b - orgx"
  define m' where "m' = fill_cells idy s e (m_Ncols m) (s sdiv m_GridRouting m) m"
  have g': "m_GridRouting m' = m_GridRouting m0" and n': "m_Ncols m' = m_Ncols m0"
    using "1.prems" by (simp_all add: m'_def fill_cells_fields)
  have g: "0 < m_GridRouting m" using assms(1) "1.prems"(2) by simp
  have cell: "m_BoardSide m' side r c =
     (if side = AR_SIDE_BOTTOM \<and> r = idy \<and> in_segment m0 a b c then CELL_IS_ZONE
      else m_BoardSide m side r c)"
    unfolding m'_def fill_cells_cell[OF g] in_segment_def Let_def s_def e_def
    using "1.prems" by auto
  have step: "fill_row idy orgx (a # b # rest) m = fill_row idy orgx rest m'"
    by (simp add: Let_def m'_def s_def e_def)
  have IH: "m_BoardSide (fill_row idy orgx rest m') side r c =
     (if side = AR_SIDE_BOTTOM \<and> r = idy \<and> in_segments m0 rest c then CELL_IS_ZONE
      else m_BoardSide m' side r c)"
    using "1.IH"[OF refl refl "1.prems"(1)] g' n'
    by (simp add: m'_def s_def e_def)
  show ?case unfolding step IH cell by auto
qed simp_all

lemma fill_row_cell:
  assumes "0 < m_GridRouting m0" "m_GridRouting m = m_GridRouting m0" "m_Ncols m = m_Ncols m0"
  shows "m_BoardSide (fill_row idy (fst (GetBrdCoordOrigin m0)) xs m) side r c =
     (if side = AR_SIDE_BOTTOM \<and> r = idy \<and> in_segments m0 xs c then CELL_IS_ZONE
      else m_BoardSide m side r c)"
  by (rule fill_row_cell_aux[OF assms(1) refl assms(2,3)])

lemma fold_fill_row_cell:
  assumes "0 < m_GridRouting m0" "m_GridRouting m = m_GridRouting m0" "m_Ncols m = m_Ncols m0"
  shows "m_BoardSide
           (fold (\<lambda>refy. fill_row (row_index m0 refy) (fst (GetBrdCoordOrigin m0)) (sort (X refy))) rows m)
           side r c =
     (if side = AR_SIDE_BOTTOM \<and>
         (\<exists>refy \<in> set rows. r = row_index m0 refy \<and> in_segments m0 (sort (X refy)) c)
      then CELL_IS_ZONE else m_BoardSide m side r c)"
  using assms(2,3)
proof (induction rows arbitrary: m)
  case Nil
  show ?case by simp
next
  case (Cons refy rows)
  define m' where "m' = fill_row (row_index m0 refy) (fst (GetBrdCoordOrigin m0)) (sort (X refy)) m"
  have g': "m_GridRouting m' = m_GridRouting m0" and n': "m_Ncols m' = m_Ncols m0"
    using Cons.prems by (simp_all add: m'_def fill_row_fields)
  have cell: "m_BoardSide m' side r c =
     (if side = AR_SIDE_BOTTOM \<and> r = row_index m0 refy \<and> in_segments m0 (sort (X refy)) c
      then CELL_IS_ZONE else m_BoardSide m side r c)"
    unfolding m'_def by (rule fill_row_cell[OF assms(1) Cons.prems])
  show ?case
    unfolding fold_simps m'_def[symmetric] Cons.IH[OF g' n'] cell by auto
qed

text \<open>
  Claim C9. \<^verbatim>\<open>fillMatrix\<close> returns \<open>success = false\<close> if and only if some scanned row has
  an odd number of intersections with the outline, and on an outline whose scanned rows
  all have an even count it returns \<open>true\<close>. On the code the second case is the only one:
  the outline is closed (\<^verbatim>\<open>CPoint\<close> wraps around), a side counts when exactly one of its ends
  lies below the scan line, so the count of every scan line is the number of such sides
  and is even; \<^verbatim>\<open>fillMatrix\<close> returns \<open>true\<close> on every outline and marks, in the row of every
  scanned line, the cells in the segments between its sorted intersections, and no other
  cell. A side whose two ends have the same ordinate (a horizontal or a degenerate side)
  is never counted. What the parity test does with an odd count is stated for the loop
  with the intersections as a parameter \<open>X\<close>: it returns \<open>false\<close> exactly when a scanned row
  has an odd count, and it stops there: the rows of the scan lines before that one are
  marked as above, and no cell of another row changes. (The pitch is positive, as it is in
  every run.)
\<close>

theorem fillMatrix_success_iff_even_rows:
  assumes "0 < m_GridRouting m"
  shows
   "fst (fillMatrix env m) = True \<and>
    (\<forall>refy. even (length (row_crossings (brd_Outline env) refy)) \<and>
            length (row_crossings (brd_Outline env) refy) = length (crossing_sides (brd_Outline env) refy)) \<and>
    (fst (fillMatrix env m) = False \<longleftrightarrow>
       (\<exists>refy \<in> set (scanned_rows env m). odd (length (row_crossings (brd_Outline env) refy)))) \<and>
    (\<forall>side r c. m_BoardSide (snd (fillMatrix env m)) side r c =
       (if side = AR_SIDE_BOTTOM \<and>
           (\<exists>refy \<in> set (scanned_rows env m).
              r = row_index m refy \<and> in_segments m (sort (row_crossings (brd_Outline env) refy)) c)
        then CELL_IS_ZONE else m_BoardSide m side r c)) \<and>
    fillMatrix env m =
      fill_rows_with (row_crossings (brd_Outline env)) (m_GridRouting m) (GetBrdCoordOrigin m)
        (outline_GetBottom (brd_Outline env)) (outline_GetY (brd_Outline env)) m \<and>
    (\<forall>X. (fst (fill_rows_with X (m_GridRouting m) (GetBrdCoordOrigin m)
               (outline_GetBottom (brd_Outline env)) (outline_GetY (brd_Outline env)) m) = False \<longleftrightarrow>
             (\<exists>refy \<in> set (scanned_rows env m). odd (length (X refy)))) \<and>
         (\<forall>side r c. m_BoardSide (snd (fill_rows_with X (m_GridRouting m) (GetBrdCoordOrigin m)
               (outline_GetBottom (brd_Outline env)) (outline_GetY (brd_Outline env)) m)) side r c =
            (if side = AR_SIDE_BOTTOM \<and>
                (\<exists>refy \<in> set (takeWhile (\<lambda>refy. even (length (X refy))) (scanned_rows env m)).
                   r = row_index m refy \<and> in_segments m (sort (X refy)) c)
             then CELL_IS_ZONE else m_BoardSide m side r c)))"
proof -
  let ?o = "brd_Outline env"
  have a: "fst (fillMatrix env m) = True" by (rule fillMatrix_never_fails)
  have b: "\<forall>refy. even (length (row_crossings ?o refy)) \<and>
           length (row_crossings ?o refy) = length (crossing_sides ?o refy)"
    using crossings_even length_row_crossings by blast
  have c: "fst (fillMatrix env m) = False \<longleftrightarrow>
      (\<exists>refy \<in> set (scanned_rows env m). odd (length (row_crossings ?o refy)))"
    using a crossings_even by simp
  have x1: "fst (fill_rows_with X (m_GridRouting m) (GetBrdCoordOrigin m)
               (outline_GetBottom ?o) (outline_GetY ?o) m) = False \<longleftrightarrow>
             (\<exists>refy \<in> set (scanned_rows env m). odd (length (X refy)))" for X
    unfolding fill_rows_with_rows by (auto simp: takeWhile_all_iff)
  have x2: "m_BoardSide (snd (fill_rows_with X (m_GridRouting m) (GetBrdCoordOrigin m)
               (outline_GetBottom ?o) (outline_GetY ?o) m)) side r c =
            (if side = AR_SIDE_BOTTOM \<and>
                (\<exists>refy \<in> set (takeWhile (\<lambda>refy. even (length (X refy))) (scanned_rows env m)).
                   r = row_index m refy \<and> in_segments m (sort (X refy)) c)
             then CELL_IS_ZONE else m_BoardSide m side r c)" for X side r c
    unfolding fill_rows_with_rows snd_conv
    by (rule fold_fill_row_cell[OF assms refl refl])
  have all: "takeWhile (\<lambda>refy. even (length (row_crossings ?o refy))) (scanned_rows env m) =
      scanned_rows env m"
    by (simp add: takeWhile_all_iff crossings_even)
  have d: "m_BoardSide (snd (fillMatrix env m)) side r c =
       (if side = AR_SIDE_BOTTOM \<and>
           (\<exists>refy \<in> set (scanned_rows env m).
              r = row_index m refy \<and> in_segments m (sort (row_crossings ?o refy)) c)
        then CELL_IS_ZONE else m_BoardSide m side r c)" for side r c
    unfolding fillMatrix_with x2 all ..
  have x: "(fst (fill_rows_with X (m_GridRouting m) (GetBrdCoordOrigin m)
               (outline_GetBottom ?o) (outline_GetY ?o) m) = False \<longleftrightarrow>
             (\<exists>refy \<in> set (scanned_rows env m). odd (length (X refy)))) \<and>
         (\<forall>side r c. m_BoardSide (snd (fill_rows_with X (m_GridRouting m) (GetBrdCoordOrigin m)
               (outline_GetBottom ?o) (outline_GetY ?o) m)) side r c =
            (if side = AR_SIDE_BOTTOM \<and>
                (\<exists>refy \<in> set (takeWhile (\<lambda>refy. even (length (X refy))) (scanned_rows env m)).
                   r = row_index m refy \<and> in_segments m (sort (X refy)) c)
             then CELL_IS_ZONE else m_BoardSide m side r c))" for X
    using x1[of X] x2[of X] by (intro conjI allI)
  have d': "\<forall>side r c. m_BoardSide (snd (fillMatrix env m)) side r c =
       (if side = AR_SIDE_BOTTOM \<and>
           (\<exists>refy \<in> set (scanned_rows env m).
              r = row_index m refy \<and> in_segments m (sort (row_crossings ?o refy)) c)
        then CELL_IS_ZONE else m_BoardSide m side r c)"
    using d by (intro allI)
  show ?thesis
    apply (intro conjI)
         apply (rule a)
        apply (rule b)
       apply (rule c)
      apply (rule d')
     apply (rule fillMatrix_with)
    apply (intro allI)
    apply (rule x)
    done
qed

lemma ex_scanned_rows: "scanned_rows ex_env ex_grid = [1, 2, 3]"
  by (simp add: scanned_rows_def ex_env_def outline_GetY_def outline_GetBottom_def
      grid_steps.simps row_index_def ex_grid_fields signed_divide_int_def)


lemma ex_outline_bounds:
  "outline_GetY (brd_Outline ex_env) = 0" "outline_GetBottom (brd_Outline ex_env) = 4"
  by (simp_all add: ex_env_def outline_GetY_def outline_GetBottom_def)

lemma ex_crossing_sides: "crossing_sides (brd_Outline ex_env) 2 = [1, 3]"
  by (simp add: crossing_sides_def ex_env_def CPoint_def side_crosses_def upt_rec[of 0] upt_rec[of 1]
      upt_rec[of 2] upt_rec[of 3])

lemma ex_in_segments: "in_segments ex_grid [0, 4] 2"
  by (simp add: in_segment_def ex_grid_fields signed_divide_int_def)

lemma ex_row_index: "row_index ex_grid refy = refy"
  by (simp add: row_index_def ex_grid_fields signed_divide_int_def sgn_mult_abs)

text \<open>
  Claim C9 at the example board: the fill succeeds, the scan line at 2 crosses the second
  and the fourth side, and the row of the scan line at 3 is marked. With one intersection
  on the scan line at 2 the loop returns \<open>false\<close>: the row of the scan line at 1 is
  marked, the rows of the scan lines at 2 and at 3 are not.
\<close>

theorem fillMatrix_success_iff_even_rows_witness:
  "0 < m_GridRouting ex_grid \<and>
   fst (fillMatrix ex_env ex_grid) = True \<and>
   crossing_sides (brd_Outline ex_env) 2 = [1, 3] \<and>
   length (row_crossings (brd_Outline ex_env) 2) = 2 \<and>
   scanned_rows ex_env ex_grid = [1, 2, 3] \<and>
   m_BoardSide (snd (fillMatrix ex_env ex_grid)) AR_SIDE_BOTTOM 3 2 = CELL_IS_ZONE \<and>
   fst (fill_rows_with (\<lambda>refy. if refy = 2 then [0] else [0, 4]) 1 (0, 0) 4 0 ex_grid) = False \<and>
   m_BoardSide (snd (fill_rows_with (\<lambda>refy. if refy = 2 then [0] else [0, 4]) 1 (0, 0) 4 0 ex_grid))
     AR_SIDE_BOTTOM 1 2 = CELL_IS_ZONE \<and>
   m_BoardSide (snd (fill_rows_with (\<lambda>refy. if refy = 2 then [0] else [0, 4]) 1 (0, 0) 4 0 ex_grid))
     AR_SIDE_BOTTOM 2 2 = CELL_IS_EMPTY \<and>
   m_BoardSide (snd (fill_rows_with (\<lambda>refy. if refy = 2 then [0] else [0, 4]) 1 (0, 0) 4 0 ex_grid))
     AR_SIDE_BOTTOM 3 2 = CELL_IS_EMPTY"
proof -
  let ?X = "\<lambda>refy::int. if refy = 2 then [0] else [0, 4::int]"
  have g: "0 < m_GridRouting ex_grid" by (simp add: ex_grid_fields)
  note t = fillMatrix_success_iff_even_rows[OF g, of ex_env, unfolded ex_grid_fields ex_outline_bounds]
  from t have a: "fst (fillMatrix ex_env ex_grid) = True" by (rule conjunct1)
  from t have "length (row_crossings (brd_Outline ex_env) 2) = length (crossing_sides (brd_Outline ex_env) 2)"
    by blast
  then have b: "length (row_crossings (brd_Outline ex_env) 2) = 2"
    by (simp add: ex_crossing_sides)
  from t have fm: "\<forall>side r c. m_BoardSide (snd (fillMatrix ex_env ex_grid)) side r c =
       (if side = AR_SIDE_BOTTOM \<and>
           (\<exists>refy \<in> set (scanned_rows ex_env ex_grid).
              r = row_index ex_grid refy \<and> in_segments ex_grid (sort (row_crossings (brd_Outline ex_env) refy)) c)
        then CELL_IS_ZONE else CELL_IS_EMPTY)"
    by blast
  have rc: "sort (row_crossings (brd_Outline ex_env) 3) = [0, 4]"
    unfolding ex_rect using rect_crossings[of 0 3 4 4 0] by simp
  have c: "m_BoardSide (snd (fillMatrix ex_env ex_grid)) AR_SIDE_BOTTOM 3 2 = CELL_IS_ZONE"
  proof -
    have "\<exists>refy \<in> set (scanned_rows ex_env ex_grid).
        3 = row_index ex_grid refy \<and> in_segments ex_grid (sort (row_crossings (brd_Outline ex_env) refy)) 2"
      unfolding ex_scanned_rows ex_row_index using rc ex_in_segments by simp
    with fm show ?thesis by simp
  qed
  from t have x: "(fst (fill_rows_with ?X 1 (0, 0) 4 0 ex_grid) = False \<longleftrightarrow>
            (\<exists>refy \<in> set (scanned_rows ex_env ex_grid). odd (length (?X refy)))) \<and>
        (\<forall>side r c. m_BoardSide (snd (fill_rows_with ?X 1 (0, 0) 4 0 ex_grid)) side r c =
            (if side = AR_SIDE_BOTTOM \<and>
                (\<exists>refy \<in> set (takeWhile (\<lambda>refy. even (length (?X refy))) (scanned_rows ex_env ex_grid)).
                   r = row_index ex_grid refy \<and> in_segments ex_grid (sort (?X refy)) c)
             then CELL_IS_ZONE else CELL_IS_EMPTY))"
    by blast
  have d: "fst (fill_rows_with ?X 1 (0, 0) 4 0 ex_grid) = False"
    using conjunct1[OF x] by (simp add: ex_scanned_rows)
  have tw: "takeWhile (\<lambda>refy. even (length (?X refy))) (scanned_rows ex_env ex_grid) = [1]"
    by (simp add: ex_scanned_rows)
  note cells = conjunct2[OF x, unfolded tw ex_row_index]
  have e1: "m_BoardSide (snd (fill_rows_with ?X 1 (0, 0) 4 0 ex_grid)) AR_SIDE_BOTTOM 1 2 = CELL_IS_ZONE"
    using cells ex_in_segments by simp
  have e2: "m_BoardSide (snd (fill_rows_with ?X 1 (0, 0) 4 0 ex_grid)) AR_SIDE_BOTTOM 2 2 = CELL_IS_EMPTY"
    using cells by simp
  have e3: "m_BoardSide (snd (fill_rows_with ?X 1 (0, 0) 4 0 ex_grid)) AR_SIDE_BOTTOM 3 2 = CELL_IS_EMPTY"
    using cells by simp
  show ?thesis using g a ex_crossing_sides b ex_scanned_rows c d e1 e2 e3 by (intro conjI)
qed

subsection \<open>The run\<close>

lemma foldl_keep_best_error:
  "fst (foldl (\<lambda>a p. keep_best legal score p a) acc cs) = 0 \<or>
   fst (foldl (\<lambda>a p. keep_best legal score p a) acc cs) = fst acc"
proof (induction cs rule: rev_induct)
  case Nil
  then show ?case by simp
next
  case (snoc c cs)
  obtain e l m where a: "foldl (\<lambda>a p. keep_best legal score p a) acc cs = (e, l, m)"
    by (cases "foldl (\<lambda>a p. keep_best legal score p a) acc cs") auto
  have "fst (keep_best legal score c (e, l, m)) = 0 \<or> fst (keep_best legal score c (e, l, m)) = e"
    by (simp add: keep_best_def)
  with snoc a show ?case by auto
qed

lemma getOptimalFPPlacement_error_01:
  "fst (getOptimalFPPlacement env st i) = 0 \<or> fst (getOptimalFPPlacement env st i) = 1"
  using foldl_keep_best_error[of "legal_position st i" "position_score env st i"
      "(1, GetOrigin (m_BrdBox (m_matrix st)), - 1)" "candidate_list st i"]
  by (simp add: getOptimalFPPlacement_foldl split_beta)

lemma try_orientation_error:
  assumes "e \<noteq> AR_ABORT_PLACEMENT"
  shows "fst (try_orientation env i io angle rot (e, bs, br, st)) \<noteq> AR_ABORT_PLACEMENT"
proof (cases "rot = 0")
  case True
  with assms show ?thesis by (simp add: try_orientation_def)
next
  case False
  define st1 where "st1 = rotateFootprint st i angle True"
  have "fst (try_orientation env i io angle rot (e, bs, br, st)) = fst (getOptimalFPPlacement env st1 i)"
    using assms False by (simp add: try_orientation_def Let_def split_beta st1_def)
  with getOptimalFPPlacement_error_01[of env st1 i] show ?thesis
    by (auto simp: AR_ABORT_PLACEMENT_def)
qed

lemma orientation_trials_error:
  "fst (orientation_trials env st i) \<noteq> AR_ABORT_PLACEMENT"
proof -
  define st0 where "st0 = snd (getOptimalFPPlacement env st i)"
  define e0 where "e0 = fst (getOptimalFPPlacement env st i)"
  define io where "io = GetOrientation (footprints st ! i)"
  define r where "r = GetPlacementCost90 (footprints st0 ! i)"
  define a1 where "a1 = try_orientation env i io 1800
                  (GetPlacementCost180 (footprints st0 ! i)) (e0, m_minCost st0, 0, st0)"
  define a2 where "a2 = try_orientation env i io 900 r a1"
  have ot: "orientation_trials env st i = try_orientation env i io 2700 r a2"
    unfolding orientation_trials_def a2_def a1_def r_def io_def e0_def st0_def
    by (simp add: Let_def split_beta)
  have "e0 \<noteq> AR_ABORT_PLACEMENT"
    using getOptimalFPPlacement_error_01[of env st i] by (auto simp: e0_def AR_ABORT_PLACEMENT_def)
  then have 1: "fst a1 \<noteq> AR_ABORT_PLACEMENT" unfolding a1_def by (rule try_orientation_error)
  obtain e1 b1 r1 s1 where A1: "a1 = (e1, b1, r1, s1)" by (cases a1) auto
  from 1 A1 have "fst a2 \<noteq> AR_ABORT_PLACEMENT"
    unfolding a2_def by (simp add: try_orientation_error)
  moreover obtain e2 b2 r2 s2 where A2: "a2 = (e2, b2, r2, s2)" by (cases a2) auto
  ultimately show ?thesis unfolding ot by (simp add: try_orientation_error)
qed

lemma place_step_not_aborted: "fst (place_step env st i cnt) \<noteq> Aborted"
  using orientation_trials_error[of env st i]
  by (auto simp: place_step_def Let_def split_beta split: option.splits)

lemma place_step_result:
  "place_step env st i cnt =
     (case Reporter env of None \<Rightarrow> Continue
        | Some KeepRefreshing \<Rightarrow> if \<not> KeepRefreshing cnt then Cancelled else Continue,
      commit_footprint env (snd (snd (snd (orientation_trials env st i)))) i
        (fst (snd (snd (orientation_trials env st i))) + GetOrientation (footprints st ! i)))"
  using orientation_trials_error[of env st i]
  by (auto simp: place_step_def Let_def split_beta split: option.splits)

lemma pick_loop_None:
  "pick_loop fps xs None = (None, None) \<Longrightarrow> \<forall>i \<in> set xs. \<not> NeedsPlaced (fps ! i)"
proof (induction xs)
  case Nil
  then show ?case by simp
next
  case (Cons x xs)
  show ?case
  proof (cases "NeedsPlaced (fps ! x)")
    case False
    with Cons show ?thesis by simp
  next
    case True
    show ?thesis
    proof (cases "GetFlag (fps ! x) = 0")
      case False
      with True Cons.prems show ?thesis by simp
    next
      case zero: True
      obtain b a where ba: "pick_loop fps xs (Some x) = (b, a)" by (cases "pick_loop fps xs (Some x)") auto
      have "a \<noteq> None"
      proof
        assume "a = None"
        have "\<And>alt b. pick_loop fps xs alt = (b, None) \<Longrightarrow> alt = None"
          by (induction xs) (auto split: if_splits)
        with ba \<open>a = None\<close> show False by blast
      qed
      with True zero Cons.prems ba show ?thesis by simp
    qed
  qed
qed

lemma pickFootprint_None:
  assumes "fst (pickFootprint env st) = None" "j < length (footprints st)"
  shows "\<not> fp_NeedsPlaced (footprints st ! j)"
proof -
  define fps where "fps = pick_flags env (footprints st)"
  define l where "l = sort_by (\<lambda>a b. sortFootprintsByRatsnestSize (fps ! a) (fps ! b))
      (sort_by (\<lambda>a b. sortFootprintsByComplexity (footprints st ! a) (footprints st ! b)) [0..<length (footprints st)])"
  obtain b a where ba: "pick_loop fps l None = (b, a)" by (cases "pick_loop fps l None") auto
  have res: "(if b \<noteq> None then b else a) = None"
    using assms(1) ba unfolding pickFootprint_def Let_def fps_def l_def pick_flags_def
    by (simp split: prod.splits)
  then have "b = None" "a = None" by (auto split: if_splits)
  with ba pick_loop_None[of fps l] have "\<forall>i \<in> set l. \<not> NeedsPlaced (fps ! i)" by simp
  moreover have "set l = {0..<length (footprints st)}" unfolding l_def by (simp add: set_sort_by)
  ultimately have "\<not> NeedsPlaced (fps ! j)" using assms(2) by simp
  moreover from nth_pick_flags[OF assms(2), of env] obtain n where
    "fps ! j = (footprints st ! j)\<lparr>fp_Flag := n\<rparr>" unfolding fps_def by auto
  ultimately show ?thesis by (simp add: NeedsPlaced_def)
qed

lemma pose_frame_nth:
  assumes "pose_frame i fps fps'" "j < length fps"
  shows "fps' ! j = (fps ! j)\<lparr>fp_Pos := fp_Pos (fps' ! j), fp_Orient := fp_Orient (fps' ! j)\<rparr>"
    and "j \<noteq> i \<Longrightarrow> fps' ! j = fps ! j"
  using assms by (simp_all add: pose_frame_def)

lemma place_step_length:
  "length (footprints (snd (place_step env st i cnt))) = length (footprints st)"
proof -
  obtain ex st' where r: "place_step env st i cnt = (ex, st')" by (cases "place_step env st i cnt") auto
  from place_step_footprints[OF r] obtain fps1 where
    p: "pose_frame i (footprints st) fps1" and
    f: "footprints st' = (if ex = Aborted then fps1
          else fps1[i := (fps1 ! i)\<lparr>fp_IsPlaced := True, fp_NeedsPlaced := False\<rparr>])"
    by blast
  have l: "length fps1 = length (footprints st)" using p by (simp add: pose_frame_def)
  from f l show ?thesis by (simp add: r)
qed

lemma place_step_other:
  assumes "j \<noteq> i" "j < length (footprints st)"
  shows "footprints (snd (place_step env st i cnt)) ! j = footprints st ! j"
proof -
  obtain ex st' where r: "place_step env st i cnt = (ex, st')" by (cases "place_step env st i cnt") auto
  from place_step_footprints[OF r] obtain fps1 where
    p: "pose_frame i (footprints st) fps1" and
    f: "footprints st' = (if ex = Aborted then fps1
          else fps1[i := (fps1 ! i)\<lparr>fp_IsPlaced := True, fp_NeedsPlaced := False\<rparr>])"
    by blast
  have l: "length fps1 = length (footprints st)" using p by (simp add: pose_frame_def)
  from pose_frame_nth(2)[OF p assms(2) assms(1)] f assms(1) l
  show "footprints (snd (place_step env st i cnt)) ! j = footprints st ! j" by (simp add: r)
qed

lemma place_step_self:
  assumes "i < length (footprints st)"
  shows "\<exists>p a. footprints (snd (place_step env st i cnt)) ! i =
           (footprints st ! i)\<lparr>fp_Pos := p, fp_Orient := a, fp_IsPlaced := True, fp_NeedsPlaced := False\<rparr>"
proof -
  obtain ex st' where r: "place_step env st i cnt = (ex, st')" by (cases "place_step env st i cnt") auto
  from place_step_footprints[OF r] obtain fps1 where
    p: "pose_frame i (footprints st) fps1" and
    f: "footprints st' = (if ex = Aborted then fps1
          else fps1[i := (fps1 ! i)\<lparr>fp_IsPlaced := True, fp_NeedsPlaced := False\<rparr>])"
    by blast
  have ex: "ex \<noteq> Aborted" using place_step_not_aborted[of env st i cnt] r by simp
  have l: "length fps1 = length (footprints st)" using p by (simp add: pose_frame_def)
  have a: "footprints st' ! i = (fps1 ! i)\<lparr>fp_IsPlaced := True, fp_NeedsPlaced := False\<rparr>"
    using f ex l assms by simp
  have b: "fps1 ! i = (footprints st ! i)\<lparr>fp_Pos := fp_Pos (fps1 ! i), fp_Orient := fp_Orient (fps1 ! i)\<rparr>"
    by (rule pose_frame_nth(1)[OF p assms])
  have "footprints (snd (place_step env st i cnt)) ! i =
        (footprints st ! i)\<lparr>fp_Pos := fp_Pos (fps1 ! i), fp_Orient := fp_Orient (fps1 ! i),
                               fp_IsPlaced := True, fp_NeedsPlaced := False\<rparr>"
    unfolding r snd_conv a by (subst b) (rule refl)
  then show ?thesis by (intro exI)
qed

lemma autoplace_loop_rel:
  assumes refl: "\<And>a. R a a" and trans: "\<And>a b c. R a b \<Longrightarrow> R b c \<Longrightarrow> R a c"
    and flag: "\<And>a n. R a (a\<lparr>fp_Flag := n\<rparr>)"
    and commit: "\<And>st i cnt. i < length (footprints st) \<Longrightarrow> fp_NeedsPlaced (footprints st ! i) \<Longrightarrow>
        R (footprints st ! i) (footprints (snd (place_step env st i cnt)) ! i)"
  shows "list_all2 R (footprints st) (footprints (snd (autoplace_loop env st cnt)))"
  using commit
proof (induction env st cnt rule: autoplace_loop.induct)
  case (1 env st cnt)
  note commit = "1.prems"
  obtain r st1 where pk: "pickFootprint env st = (r, st1)" by (cases "pickFootprint env st") auto
  have st1: "st1 = st\<lparr>footprints := pick_flags env (footprints st)\<rparr>"
    using pickFootprint_state[of env st] pk by simp
  have r1: "list_all2 R (footprints st) (footprints st1)"
    unfolding list_all2_conv_all_nth
  proof (intro conjI allI impI)
    show "length (footprints st) = length (footprints st1)" by (simp add: st1 length_pick_flags)
    fix j assume j: "j < length (footprints st)"
    from nth_pick_flags[OF j, of env] obtain n where
      "pick_flags env (footprints st) ! j = (footprints st ! j)\<lparr>fp_Flag := n\<rparr>" by auto
    then show "R (footprints st ! j) (footprints st1 ! j)" using flag by (simp add: st1)
  qed
  show ?case
  proof (cases r)
    case None
    then have "autoplace_loop env st cnt = (False, st1)"
      using pk by (subst autoplace_loop.simps) simp
    with r1 show ?thesis by simp
  next
    case (Some i)
    obtain ex st2 where ps: "place_step env st1 i cnt = (ex, st2)"
      by (cases "place_step env st1 i cnt") auto
    from pickFootprint_Some[of env st i st1] pk Some
    have i: "i < length (footprints st)" and np: "fp_NeedsPlaced (footprints st ! i)" by simp_all
    from nth_pick_flags[OF i, of env] obtain n where
      "pick_flags env (footprints st) ! i = (footprints st ! i)\<lparr>fp_Flag := n\<rparr>" by auto
    with np have np1: "fp_NeedsPlaced (footprints st1 ! i)" by (simp add: st1)
    have i1: "i < length (footprints st1)" using i by (simp add: st1 length_pick_flags)
    have s2: "snd (place_step env st1 i cnt) = st2" using ps by simp
    have r2: "list_all2 R (footprints st1) (footprints st2)"
      unfolding list_all2_conv_all_nth
    proof (intro conjI allI impI)
      show "length (footprints st1) = length (footprints st2)"
        using place_step_length[of env st1 i cnt, unfolded s2] by simp
      fix j assume j: "j < length (footprints st1)"
      show "R (footprints st1 ! j) (footprints st2 ! j)"
      proof (cases "j = i")
        case True
        with commit[OF i1 np1, of cnt, unfolded s2] show ?thesis by simp
      next
        case False
        with place_step_other[OF False j, of env cnt, unfolded s2] refl show ?thesis by simp
      qed
    qed
    have r12: "list_all2 R (footprints st) (footprints st2)"
      by (rule list_all2_trans[OF trans r1 r2])
    show ?thesis
    proof (cases ex)
      case Continue
      then have eq: "autoplace_loop env st cnt = autoplace_loop env st2 (cnt + 1)"
        using pk Some ps by (subst autoplace_loop.simps) simp
      have r3: "list_all2 R (footprints st2) (footprints (snd (autoplace_loop env st2 (cnt + 1))))"
        using "1.IH"[OF pk[symmetric] Some ps[symmetric] Continue] commit by blast
      show ?thesis unfolding eq
        by (rule list_all2_trans[OF trans r12 r3])
    next
      case Aborted
      then have "autoplace_loop env st cnt = (False, st2)"
        using pk Some ps by (subst autoplace_loop.simps) simp
      with r12 show ?thesis by simp
    next
      case Cancelled
      then have "autoplace_loop env st cnt = (True, st2)"
        using pk Some ps by (subst autoplace_loop.simps) simp
      with r12 show ?thesis by simp
    qed
  qed
qed

lemma genPlacementRoutingMatrix_footprints:
  "footprints (snd (genPlacementRoutingMatrix env st)) = footprints st"
  by (simp add: genPlacementRoutingMatrix_def Let_def split_beta)

lemma genPlacementRoutingMatrix_built:
  "fst (genPlacementRoutingMatrix env st) = 0 \<longleftrightarrow>
     GetWidth (brd_BBox env) = 0 \<or> GetHeight (brd_BBox env) = 0"
  by (simp add: genPlacementRoutingMatrix_def Let_def split_beta)

lemma AutoplaceFootprints_unfold:
  assumes "GetWidth (brd_BBox env) \<noteq> 0" "GetHeight (brd_BBox env) \<noteq> 0"
  shows "AutoplaceFootprints env st fs off =
     (if fst (autoplace_loop env (prelude_state env st fs off) 0) then AR_CANCELLED else AR_COMPLETED,
      (snd (autoplace_loop env (prelude_state env st fs off) 0))
        \<lparr>m_curPosition := m_curPosition st,
         m_matrix := UnInitRoutingMatrix (m_matrix (snd (autoplace_loop env (prelude_state env st fs off) 0)))\<rparr>)"
  using assms genPlacementRoutingMatrix_built[of env]
  unfolding AutoplaceFootprints_def prelude_state_def Let_def split_beta
  by simp

lemma mark_for_placement_footprints:
  "footprints (fold mark_for_placement xs st) =
   fold (\<lambda>i fps. fps[i := SetNeedsPlaced (fps ! i) True]) xs (footprints st)"
  by (induction xs arbitrary: st) (simp_all add: mark_for_placement_def)

lemma fold_mark_rel:
  assumes refl: "\<And>a. R a a" and trans: "\<And>a b c. R a b \<Longrightarrow> R b c \<Longrightarrow> R a c"
    and needs: "\<And>a b. R a (a\<lparr>fp_NeedsPlaced := b\<rparr>)"
  shows "list_all2 R fps (fold (\<lambda>i fps. fps[i := SetNeedsPlaced (fps ! i) True]) xs fps)"
proof (induction xs arbitrary: fps)
  case Nil
  then show ?case using refl by (simp add: list_all2_conv_all_nth)
next
  case (Cons x xs)
  have "list_all2 R fps (fps[x := SetNeedsPlaced (fps ! x) True])"
    unfolding list_all2_conv_all_nth
  proof (intro conjI allI impI)
    fix j assume "j < length fps"
    then show "R (fps ! j) (fps[x := SetNeedsPlaced (fps ! x) True] ! j)"
      using refl needs by (cases "j = x") (simp_all add: SetNeedsPlaced_def)
  qed simp
  from list_all2_trans[OF trans this Cons.IH] show ?case by simp
qed

lemma prelude_rel:
  assumes refl: "\<And>a. R a a" and trans: "\<And>a b c. R a b \<Longrightarrow> R b c \<Longrightarrow> R a c"
    and needs: "\<And>a b. R a (a\<lparr>fp_NeedsPlaced := b\<rparr>)"
  shows "list_all2 R (footprints st) (footprints (prelude_state env st fs off))"
proof -
  define fps0 where "fps0 = map (\<lambda>footprint. SetNeedsPlaced footprint False) (footprints st)"
  have r0: "list_all2 R (footprints st) fps0"
    unfolding fps0_def list_all2_conv_all_nth using needs by (simp add: SetNeedsPlaced_def)
  obtain xs where f: "footprints (prelude_state env st fs off) =
      fold (\<lambda>i fps. fps[i := SetNeedsPlaced (fps ! i) True]) xs fps0"
  proof -
    define s1 where "s1 = (snd (genPlacementRoutingMatrix env
        (if m_GridRouting (m_matrix (st\<lparr>m_matrix := (m_matrix st)\<lparr>m_GridRouting := m_gridSize st\<rparr>\<rparr>)) < QuarterMillimeter env
         then (st\<lparr>m_matrix := (m_matrix st)\<lparr>m_GridRouting := m_gridSize st\<rparr>\<rparr>)\<lparr>m_matrix := (m_matrix (st\<lparr>m_matrix := (m_matrix st)\<lparr>m_GridRouting := m_gridSize st\<rparr>\<rparr>))\<lparr>m_GridRouting := QuarterMillimeter env\<rparr>\<rparr>
         else st\<lparr>m_matrix := (m_matrix st)\<lparr>m_GridRouting := m_gridSize st\<rparr>\<rparr>)))
        \<lparr>footprints := fps0\<rparr>"
    define ob where "ob = (if off
             then filter (\<lambda>i. \<not> Contains (m_BrdBox (m_matrix s1)) (GetPosition (footprints s1 ! i)))
                    [0..<length (footprints s1)]
             else [])"
    have "footprints (prelude_state env st fs off) =
          footprints (fold mark_for_placement ob (fold mark_for_placement fs s1))"
      unfolding prelude_state_def Let_def s1_def ob_def fps0_def
      by (simp add: genPlacementRoutingMatrix_footprints)
    also have "\<dots> = fold (\<lambda>i fps. fps[i := SetNeedsPlaced (fps ! i) True]) (fs @ ob) fps0"
      by (simp add: mark_for_placement_footprints s1_def)
    finally show ?thesis using that by blast
  qed
  from list_all2_trans[OF trans r0 fold_mark_rel[OF refl trans needs, of _ fps0 xs]] f
  show ?thesis by simp
qed

lemma AutoplaceFootprints_rel:
  assumes refl: "\<And>a. R a a" and trans: "\<And>a b c. R a b \<Longrightarrow> R b c \<Longrightarrow> R a c"
    and flag: "\<And>a n. R a (a\<lparr>fp_Flag := n\<rparr>)"
    and needs: "\<And>a b. R a (a\<lparr>fp_NeedsPlaced := b\<rparr>)"
    and commit: "\<And>st i cnt. i < length (footprints st) \<Longrightarrow> fp_NeedsPlaced (footprints st ! i) \<Longrightarrow>
        R (footprints st ! i) (footprints (snd (place_step env st i cnt)) ! i)"
  shows "list_all2 R (footprints st) (footprints (snd (AutoplaceFootprints env st fs off)))"
proof (cases "GetWidth (brd_BBox env) = 0 \<or> GetHeight (brd_BBox env) = 0")
  case True
  have "genPlacementRoutingMatrix env s = (0, s\<lparr>m_matrix := UnInitRoutingMatrix (m_matrix s)\<rparr>)" for s
    using True unfolding genPlacementRoutingMatrix_def Let_def by auto
  then have "footprints (snd (AutoplaceFootprints env st fs off)) = footprints st"
    unfolding AutoplaceFootprints_def Let_def by simp
  then show ?thesis using refl by (simp add: list_all2_conv_all_nth)
next
  case False
  then have nd: "GetWidth (brd_BBox env) \<noteq> 0" "GetHeight (brd_BBox env) \<noteq> 0" by simp_all
  have a: "list_all2 R (footprints st) (footprints (prelude_state env st fs off))"
    by (rule prelude_rel[OF refl trans needs])
  have b: "list_all2 R (footprints (prelude_state env st fs off))
             (footprints (snd (autoplace_loop env (prelude_state env st fs off) 0)))"
    by (rule autoplace_loop_rel[OF refl trans flag commit])
  show ?thesis
    unfolding AutoplaceFootprints_unfold[OF nd]
    using list_all2_trans[OF trans a b] by simp
qed

lemma try_orientation_forbidden:
  "try_orientation env i io angle 0 acc = acc"
  by (cases acc) (simp add: try_orientation_def)

lemma orientation_trials_forbidden:
  assumes "fp_CntRot180 (footprints st ! i) = 0" "fp_CntRot90 (footprints st ! i) = 0"
  shows "orientation_trials env st i =
     (fst (getOptimalFPPlacement env st i), m_minCost (snd (getOptimalFPPlacement env st i)), 0,
      snd (getOptimalFPPlacement env st i))"
  using assms
  by (simp add: orientation_trials_def Let_def split_beta footprints_getOptimalFPPlacement
      GetPlacementCost180_def GetPlacementCost90_def try_orientation_forbidden)

lemma place_step_orient_forbidden:
  assumes "i < length (footprints st)"
    "fp_CntRot180 (footprints st ! i) = 0" "fp_CntRot90 (footprints st ! i) = 0"
  shows "fp_Orient (footprints (snd (place_step env st i cnt)) ! i) = fp_Orient (footprints st ! i)"
  using assms(1)
  by (simp add: place_step_result orientation_trials_forbidden[OF assms(2,3)]
      commit_footprint_def Let_def footprints_getOptimalFPPlacement placeFootprint_def
      GetOrientation_def SetPosition_def SetNeedsPlaced_def SetIsPlaced_def)

text \<open>
  Claim C3, amended. A unit whose rotation cost classes for 180 degrees and for 90 degrees
  are both 0 has, after every run, the orientation that it had before the run. (The class
  for 180 degrees gates the trial at 180 degrees only; the trials at 90 and 270 degrees
  are gated by the class for 90 degrees.)
\<close>

theorem AutoplaceFootprints_rotation_forbidden:
  assumes "j < length (footprints st)"
    and "fp_CntRot180 (footprints st ! j) = 0" and "fp_CntRot90 (footprints st ! j) = 0"
  shows "fp_Orient (footprints (snd (AutoplaceFootprints env st aFootprints aPlaceOffboardModules)) ! j) =
         fp_Orient (footprints st ! j)"
proof -
  have commit: "keeps_forbidden_orient (footprints s ! i) (footprints (snd (place_step env s i cnt)) ! i)"
    if "i < length (footprints s)" for s i cnt
  proof -
    from place_step_self[OF that, of env cnt] obtain p a where
      e: "footprints (snd (place_step env s i cnt)) ! i =
          (footprints s ! i)\<lparr>fp_Pos := p, fp_Orient := a, fp_IsPlaced := True, fp_NeedsPlaced := False\<rparr>"
      by blast
    have "fp_CntRot90 (footprints (snd (place_step env s i cnt)) ! i) = fp_CntRot90 (footprints s ! i)"
      "fp_CntRot180 (footprints (snd (place_step env s i cnt)) ! i) = fp_CntRot180 (footprints s ! i)"
      unfolding e by simp_all
    with place_step_orient_forbidden[OF that, of env cnt] show ?thesis
      unfolding keeps_forbidden_orient_def by blast
  qed
  have "list_all2 keeps_forbidden_orient (footprints st)
          (footprints (snd (AutoplaceFootprints env st aFootprints aPlaceOffboardModules)))"
  proof (rule AutoplaceFootprints_rel)
    show "\<And>a. keeps_forbidden_orient a a" by (simp add: keeps_forbidden_orient_def)
    show "\<And>a b c. keeps_forbidden_orient a b \<Longrightarrow> keeps_forbidden_orient b c \<Longrightarrow> keeps_forbidden_orient a c"
      by (simp add: keeps_forbidden_orient_def)
    show "\<And>a n. keeps_forbidden_orient a (a\<lparr>fp_Flag := n\<rparr>)" by (simp add: keeps_forbidden_orient_def)
    show "\<And>a b. keeps_forbidden_orient a (a\<lparr>fp_NeedsPlaced := b\<rparr>)" by (simp add: keeps_forbidden_orient_def)
    show "\<And>st i cnt. i < length (footprints st) \<Longrightarrow> fp_NeedsPlaced (footprints st ! i) \<Longrightarrow>
        keeps_forbidden_orient (footprints st ! i) (footprints (snd (place_step env st i cnt)) ! i)"
      using commit by blast
  qed
  then have "keeps_forbidden_orient (footprints st ! j)
          (footprints (snd (AutoplaceFootprints env st aFootprints aPlaceOffboardModules)) ! j)"
    using assms(1) by (simp add: list_all2_conv_all_nth)
  with assms(2,3) show ?thesis by (simp add: keeps_forbidden_orient_def)
qed

lemma autoplace_loop_keeps_placed:
  assumes "j < length (footprints st)" "\<not> fp_NeedsPlaced (footprints st ! j)"
  shows "fp_Pos (footprints (snd (autoplace_loop env st cnt)) ! j) = fp_Pos (footprints st ! j) \<and>
         fp_Orient (footprints (snd (autoplace_loop env st cnt)) ! j) = fp_Orient (footprints st ! j)"
proof -
  have "list_all2 keeps_placed_pose (footprints st) (footprints (snd (autoplace_loop env st cnt)))"
    by (rule autoplace_loop_rel) (auto simp: keeps_placed_pose_def)
  then have "keeps_placed_pose (footprints st ! j) (footprints (snd (autoplace_loop env st cnt)) ! j)"
    using assms(1) by (simp add: list_all2_conv_all_nth)
  with assms(2) show ?thesis by (simp add: keeps_placed_pose_def)
qed

lemma AutoplaceFootprints_not_failure:
  assumes "GetWidth (brd_BBox env) \<noteq> 0" "GetHeight (brd_BBox env) \<noteq> 0"
  shows "fst (AutoplaceFootprints env st fs off) \<noteq> AR_FAILURE"
  unfolding AutoplaceFootprints_unfold[OF assms] by simp

subsection \<open>The example runs\<close>

lemma fold_fill_fields:
  "m_BrdBox (fold (fill_scanned_row env m0) rows m) = m_BrdBox m \<and>
   m_GridRouting (fold (fill_scanned_row env m0) rows m) = m_GridRouting m \<and>
   m_Nrows (fold (fill_scanned_row env m0) rows m) = m_Nrows m \<and>
   m_Ncols (fold (fill_scanned_row env m0) rows m) = m_Ncols m \<and>
   m_RoutingLayersCount (fold (fill_scanned_row env m0) rows m) = m_RoutingLayersCount m"
  by (induction rows arbitrary: m) (simp_all add: fill_scanned_row_def fill_row_fields)

lemma fillMatrix_fields:
  "m_BrdBox (snd (fillMatrix env m)) = m_BrdBox m \<and>
   m_GridRouting (snd (fillMatrix env m)) = m_GridRouting m \<and>
   m_Nrows (snd (fillMatrix env m)) = m_Nrows m \<and>
   m_Ncols (snd (fillMatrix env m)) = m_Ncols m \<and>
   m_RoutingLayersCount (snd (fillMatrix env m)) = m_RoutingLayersCount m"
  unfolding fillMatrix_fold snd_conv by (rule fold_fill_fields)

lemma ex_env_fields:
  "brd_BBox ex_env = \<lparr>m_Pos = (0, 0), m_Size = (4, 4)\<rparr>" "QuarterMillimeter ex_env = 1"
  "Reporter ex_env = None" "TraceDrawings ex_env = (\<lambda>m. m)"
  "ComputeMatrixSize ex_env = (\<lambda>g bbox. (bbox, GetHeight bbox sdiv g + 1, GetWidth bbox sdiv g + 1))"
  "RatsnestEdges ex_env = (\<lambda>fps i. 0)"
  by (simp_all add: ex_env_def)

lemma ex_genModule: "genModuleOnRoutingMatrix ex_env m fp = m"
proof -
  have "fold (\<lambda>pad m. m) pads m = m" for pads :: "PAD list"
    by (induction pads) simp_all
  then show ?thesis
    by (simp add: genModuleOnRoutingMatrix_def ex_env_def Let_def)
qed

lemma ex_stamp_fold:
  "fold (\<lambda>footprint m. if NeedsPlaced footprint then m else genModuleOnRoutingMatrix ex_env m footprint) fps m = m"
  by (induction fps) (simp_all add: ex_genModule)

lemma ex_genPlacement_fields:
  assumes "m_GridRouting (m_matrix st) = g"
  shows "m_BrdBox (m_matrix (snd (genPlacementRoutingMatrix ex_env st))) = \<lparr>m_Pos = (0, 0), m_Size = (4, 4)\<rparr>"
    and "m_GridRouting (m_matrix (snd (genPlacementRoutingMatrix ex_env st))) = g"
    and "m_RoutingLayersCount (m_matrix (snd (genPlacementRoutingMatrix ex_env st))) = 2"
  using assms
  by (simp_all add: genPlacementRoutingMatrix_def Let_def split_beta ex_env_fields GetWidth_def
      GetHeight_def fillMatrix_fields InitRoutingMatrix_def UnInitRoutingMatrix_def)

lemma ex_prelude:
  assumes "m_gridSize st = 1"
  shows "m_BrdBox (m_matrix (prelude_state ex_env st fs False)) = \<lparr>m_Pos = (0, 0), m_Size = (4, 4)\<rparr>"
    and "m_GridRouting (m_matrix (prelude_state ex_env st fs False)) = 1"
    and "m_RoutingLayersCount (m_matrix (prelude_state ex_env st fs False)) = 2"
    and "footprints (prelude_state ex_env st fs False) =
         fold (\<lambda>i fps. fps[i := SetNeedsPlaced (fps ! i) True]) fs
           (map (\<lambda>footprint. SetNeedsPlaced footprint False) (footprints st))"
    and "m_curPosition (prelude_state ex_env st fs False) = m_curPosition st"
proof -
  define s0 where "s0 = st\<lparr>m_matrix := (m_matrix st)\<lparr>m_GridRouting := 1\<rparr>\<rparr>"
  define s1 where "s1 = (snd (genPlacementRoutingMatrix ex_env s0))
      \<lparr>footprints := map (\<lambda>footprint. SetNeedsPlaced footprint False) (footprints st)\<rparr>"
  have p: "prelude_state ex_env st fs False =
      (fold mark_for_placement fs s1)\<lparr>m_matrix := m_matrix (fold mark_for_placement fs s1)\<rparr>"
    unfolding prelude_state_def Let_def s1_def s0_def
    by (simp add: assms ex_env_fields ex_stamp_fold genPlacementRoutingMatrix_footprints)
  have m: "m_matrix (fold mark_for_placement xs s) = m_matrix s"
    "m_curPosition (fold mark_for_placement xs s) = m_curPosition s" for xs s
    by (induction xs arbitrary: s) (simp_all add: mark_for_placement_def)
  have g0: "m_GridRouting (m_matrix s0) = 1" by (simp add: s0_def)
  have c: "m_curPosition (snd (genPlacementRoutingMatrix ex_env s0)) = m_curPosition st"
    by (simp add: genPlacementRoutingMatrix_def Let_def split_beta s0_def)
  show "m_BrdBox (m_matrix (prelude_state ex_env st fs False)) = \<lparr>m_Pos = (0, 0), m_Size = (4, 4)\<rparr>"
    and "m_GridRouting (m_matrix (prelude_state ex_env st fs False)) = 1"
    and "m_RoutingLayersCount (m_matrix (prelude_state ex_env st fs False)) = 2"
    unfolding p using ex_genPlacement_fields[OF g0] by (simp_all add: m s1_def)
  show "footprints (prelude_state ex_env st fs False) =
         fold (\<lambda>i fps. fps[i := SetNeedsPlaced (fps ! i) True]) fs
           (map (\<lambda>footprint. SetNeedsPlaced footprint False) (footprints st))"
    unfolding p by (simp add: mark_for_placement_footprints s1_def)
  show "m_curPosition (prelude_state ex_env st fs False) = m_curPosition st"
    unfolding p by (simp add: m s1_def c)
qed

lemma getOptimalFPPlacement_no_candidate:
  assumes "candidate_list st i = []"
  shows "getOptimalFPPlacement env st i =
           (1, st\<lparr>m_curPosition := GetOrigin (m_BrdBox (m_matrix st)), m_minCost := - 1\<rparr>)"
  by (simp add: getOptimalFPPlacement_foldl assms)

lemma grid_steps_empty: "\<not> lo < hi \<Longrightarrow> grid_steps lo hi g = []"
  by (subst grid_steps.simps) simp

lemma candidate_list_empty:
  assumes "\<not> fst (search_origin st i) < fst (search_limit st i)"
  shows "candidate_list st i = []"
  by (simp add: candidate_list_def grid_steps_empty[OF assms])


lemma ex_big_search:
  assumes "m_BrdBox (m_matrix t) = \<lparr>m_Pos = (0, 0), m_Size = (4, 4)\<rparr>" "m_GridRouting (m_matrix t) = 1"
    "fp_Rect (footprints t ! 0) = (\<lambda>orient. \<lparr>m_Pos = (0, 0), m_Size = (10, 10)\<rparr>)"
  shows "getOptimalFPPlacement env t 0 = (1, t\<lparr>m_curPosition := (0, 0), m_minCost := - 1\<rparr>)"
proof -
  have "\<not> fst (search_origin t 0) < fst (search_limit t 0)"
    by (simp add: search_origin_def search_limit_def assms GetX_def GetY_def GetRight_def
        GetBottom_def Let_def signed_modulo_int_def)
  from getOptimalFPPlacement_no_candidate[OF candidate_list_empty[OF this], of env]
  show ?thesis by (simp add: assms GetOrigin_def)
qed

lemma ex_pick_single:
  assumes "footprints s = [u]" "fp_Flag u = 0"
  shows "pickFootprint ex_env s = ((if fp_NeedsPlaced u then Some 0 else None), s)"
proof -
  have u: "u\<lparr>fp_Flag := 0\<rparr> = u" using assms(2) by simp
  show ?thesis
    unfolding pickFootprint_def Let_def
    by (simp add: assms ex_env_fields sort_by_def SetFlag_def GetFlag_def NeedsPlaced_def u
        enumerate_eq_zip)
qed


lemmas ex_step_simps =
  place_step_def orientation_trials_def try_orientation_def commit_footprint_def
  rotateFootprint_def placeFootprint_def ex_big_search ex_genModule ex_env_fields
  GetOrientation_def SetOrientation_def SetPosition_def SetNeedsPlaced_def SetIsPlaced_def
  GetPlacementCost90_def GetPlacementCost180_def OrientationPenalty_def AR_ABORT_PLACEMENT_def
  Let_def

lemma ex_rot_place_step:
  assumes "m_BrdBox (m_matrix s) = \<lparr>m_Pos = (0, 0), m_Size = (4, 4)\<rparr>" "m_GridRouting (m_matrix s) = 1"
    "footprints s = [ex_big_unit\<lparr>fp_CntRot90 := 5, fp_NeedsPlaced := True\<rparr>]"
  shows "fst (place_step ex_env s 0 cnt) = Continue \<and>
         footprints (snd (place_step ex_env s 0 cnt)) =
           [ex_big_unit\<lparr>fp_CntRot90 := 5, fp_Orient := 900, fp_Pos := (0, 0), fp_IsPlaced := True\<rparr>]"
  by (simp add: ex_step_simps assms ex_big_unit_def)

lemma ex_big_place_step:
  assumes "m_BrdBox (m_matrix s) = \<lparr>m_Pos = (0, 0), m_Size = (4, 4)\<rparr>" "m_GridRouting (m_matrix s) = 1"
    "footprints s = [ex_big_unit\<lparr>fp_NeedsPlaced := True\<rparr>]"
  shows "fst (place_step ex_env s 0 cnt) = Continue \<and>
         footprints (snd (place_step ex_env s 0 cnt)) =
           [ex_big_unit\<lparr>fp_Pos := (0, 0), fp_IsPlaced := True\<rparr>]"
  by (simp add: ex_step_simps assms ex_big_unit_def)

lemma ex_single_loop:
  assumes "footprints s = [u]" "fp_Flag u = 0" "fp_NeedsPlaced u"
    and "fst (place_step ex_env s 0 0) = Continue"
    and "footprints (snd (place_step ex_env s 0 0)) = [v]" "fp_Flag v = 0" "\<not> fp_NeedsPlaced v"
  shows "fst (autoplace_loop ex_env s 0) = False \<and> footprints (snd (autoplace_loop ex_env s 0)) = [v]"
proof -
  obtain s2 where ps: "place_step ex_env s 0 0 = (Continue, s2)"
    using assms(4) by (cases "place_step ex_env s 0 0") auto
  then have f2: "footprints s2 = [v]" using assms(5) by simp
  have "autoplace_loop ex_env s 0 = autoplace_loop ex_env s2 1"
    by (subst autoplace_loop.simps) (simp add: ex_pick_single[OF assms(1,2)] assms(3) ps)
  also have "\<dots> = (False, s2)"
    by (subst autoplace_loop.simps) (simp add: ex_pick_single[OF f2 assms(6)] assms(7))
  finally show ?thesis using f2 by simp
qed


lemma ex_big_state_fields:
  "m_gridSize ex_big_state = 1" "footprints ex_big_state = [ex_big_unit]"
  "m_gridSize ex_rot_state = 1" "footprints ex_rot_state = [ex_big_unit\<lparr>fp_CntRot90 := 5\<rparr>]"
  by (simp_all add: ex_big_state_def ex_rot_state_def ex_state_def)

lemma ex_nondegenerate: "GetWidth (brd_BBox ex_env) \<noteq> 0" "GetHeight (brd_BBox ex_env) \<noteq> 0"
  by (simp_all add: ex_env_fields GetWidth_def GetHeight_def)

lemma ex_big_run:
  "fst (AutoplaceFootprints ex_env ex_big_state [0] False) = AR_COMPLETED"
  "footprints (snd (AutoplaceFootprints ex_env ex_big_state [0] False)) =
     [ex_big_unit\<lparr>fp_Pos := (0, 0), fp_IsPlaced := True\<rparr>]"
proof -
  define s where "s = prelude_state ex_env ex_big_state [0] False"
  note pre = ex_prelude[OF ex_big_state_fields(1), of "[0]", folded s_def]
  have f: "footprints s = [ex_big_unit\<lparr>fp_NeedsPlaced := True\<rparr>]"
    unfolding pre(4) by (simp add: ex_big_state_fields SetNeedsPlaced_def)
  note ps = ex_big_place_step[OF pre(1) pre(2) f, of 0]
  have l: "fst (autoplace_loop ex_env s 0) = False \<and>
        footprints (snd (autoplace_loop ex_env s 0)) = [ex_big_unit\<lparr>fp_Pos := (0, 0), fp_IsPlaced := True\<rparr>]"
    by (rule ex_single_loop[OF f _ _ conjunct1[OF ps] conjunct2[OF ps]]) (simp_all add: ex_big_unit_def)
  show "fst (AutoplaceFootprints ex_env ex_big_state [0] False) = AR_COMPLETED"
    unfolding AutoplaceFootprints_unfold[OF ex_nondegenerate] s_def[symmetric] using l by simp
  show "footprints (snd (AutoplaceFootprints ex_env ex_big_state [0] False)) =
     [ex_big_unit\<lparr>fp_Pos := (0, 0), fp_IsPlaced := True\<rparr>]"
    unfolding AutoplaceFootprints_unfold[OF ex_nondegenerate] s_def[symmetric] using l by simp
qed

lemma ex_big_no_legal:
  "fst (getOptimalFPPlacement ex_env (prelude_state ex_env ex_big_state [0] False) 0) = 1"
proof -
  define s where "s = prelude_state ex_env ex_big_state [0] False"
  note pre = ex_prelude[OF ex_big_state_fields(1), of "[0]", folded s_def]
  have f: "footprints s = [ex_big_unit\<lparr>fp_NeedsPlaced := True\<rparr>]"
    unfolding pre(4) by (simp add: ex_big_state_fields SetNeedsPlaced_def)
  have "fp_Rect (footprints s ! 0) = (\<lambda>orient. \<lparr>m_Pos = (0, 0), m_Size = (10, 10)\<rparr>)"
    by (simp add: f ex_big_unit_def)
  from ex_big_search[OF pre(1) pre(2) this, of ex_env] show ?thesis
    unfolding s_def by simp
qed

lemma ex_rot_run:
  "footprints (snd (AutoplaceFootprints ex_env ex_rot_state [0] False)) =
     [ex_big_unit\<lparr>fp_CntRot90 := 5, fp_Orient := 900, fp_Pos := (0, 0), fp_IsPlaced := True\<rparr>]"
proof -
  define s where "s = prelude_state ex_env ex_rot_state [0] False"
  note pre = ex_prelude[OF ex_big_state_fields(3), of "[0]", folded s_def]
  have f: "footprints s = [ex_big_unit\<lparr>fp_CntRot90 := 5, fp_NeedsPlaced := True\<rparr>]"
    unfolding pre(4) by (simp add: ex_big_state_fields SetNeedsPlaced_def)
  note ps = ex_rot_place_step[OF pre(1) pre(2) f, of 0]
  have l: "fst (autoplace_loop ex_env s 0) = False \<and>
        footprints (snd (autoplace_loop ex_env s 0)) =
          [ex_big_unit\<lparr>fp_CntRot90 := 5, fp_Orient := 900, fp_Pos := (0, 0), fp_IsPlaced := True\<rparr>]"
    by (rule ex_single_loop[OF f _ _ conjunct1[OF ps] conjunct2[OF ps]]) (simp_all add: ex_big_unit_def)
  show ?thesis
    unfolding AutoplaceFootprints_unfold[OF ex_nondegenerate] s_def[symmetric] using l by simp
qed

lemma ex_big_not_aborted:
  "fst (place_step ex_env (prelude_state ex_env ex_big_state [0] False) 0 0) = Continue"
proof -
  define s where "s = prelude_state ex_env ex_big_state [0] False"
  note pre = ex_prelude[OF ex_big_state_fields(1), of "[0]", folded s_def]
  have f: "footprints s = [ex_big_unit\<lparr>fp_NeedsPlaced := True\<rparr>]"
    unfolding pre(4) by (simp add: ex_big_state_fields SetNeedsPlaced_def)
  from ex_big_place_step[OF pre(1) pre(2) f, of 0] show ?thesis unfolding s_def by (rule conjunct1)
qed

text \<open>
  Claim C1 asks that a unit without a legal placement aborts the run and is not committed.
  \<^verbatim>\<open>AutoplaceFootprints\<close> tests for the abort value \<open>AR_ABORT_PLACEMENT = - 1\<close> after every
  search, but the search reports a unit without a legal position with 1, which no test
  looks for. At the example the unit exceeds the board in both dimensions: the search
  returns 1, the pass of the loop does not leave by the abort branch, and the run
  completes with the unit committed at the origin of the board, flagged as placed and as
  no longer to be placed.
\<close>

theorem AutoplaceFootprints_oversized_unit_committed:
  "GetWidth (GetFootprintRect ex_big_unit) > GetWidth (brd_BBox ex_env) \<and>
   GetHeight (GetFootprintRect ex_big_unit) > GetHeight (brd_BBox ex_env) \<and>
   fst (getOptimalFPPlacement ex_env (prelude_state ex_env ex_big_state [0] False) 0) = 1 \<and>
   AR_ABORT_PLACEMENT = - 1 \<and>
   fst (place_step ex_env (prelude_state ex_env ex_big_state [0] False) 0 0) = Continue \<and>
   fst (AutoplaceFootprints ex_env ex_big_state [0] False) = AR_COMPLETED \<and>
   fp_IsPlaced (footprints (snd (AutoplaceFootprints ex_env ex_big_state [0] False)) ! 0) \<and>
   \<not> fp_NeedsPlaced (footprints (snd (AutoplaceFootprints ex_env ex_big_state [0] False)) ! 0) \<and>
   fp_Pos (footprints (snd (AutoplaceFootprints ex_env ex_big_state [0] False)) ! 0) = (0, 0) \<and>
   fp_Pos (footprints ex_big_state ! 0) = (20, 20)"
  by (simp add: ex_big_run ex_big_no_legal ex_big_not_aborted ex_env_fields GetWidth_def GetHeight_def
      GetFootprintRect_def Move_def ex_big_unit_def AR_ABORT_PLACEMENT_def ex_big_state_fields)

text \<open>
  Claim C3 as stated fails: the 180-degree class of the unit is 0, its 90-degree class is 5,
  and the run commits it at 90 degrees from its original orientation.
\<close>

theorem AutoplaceFootprints_rotation_forbidden_counterexample:
  "fp_CntRot180 (footprints ex_rot_state ! 0) = 0 \<and> fp_Orient (footprints ex_rot_state ! 0) = 0 \<and>
   fp_Orient (footprints (snd (AutoplaceFootprints ex_env ex_rot_state [0] False)) ! 0) = 900"
  by (simp add: ex_rot_run ex_big_state_fields ex_big_unit_def)

text \<open>The amended claim C3 at the example run with both classes 0.\<close>

theorem AutoplaceFootprints_rotation_forbidden_witness:
  "0 < length (footprints ex_big_state) \<and> fp_CntRot180 (footprints ex_big_state ! 0) = 0 \<and>
   fp_CntRot90 (footprints ex_big_state ! 0) = 0 \<and>
   fp_Orient (footprints (snd (AutoplaceFootprints ex_env ex_big_state [0] False)) ! 0) =
     fp_Orient (footprints ex_big_state ! 0)"
proof -
  have l: "0 < length (footprints ex_big_state)" by (simp add: ex_big_state_fields)
  have a: "fp_CntRot180 (footprints ex_big_state ! 0) = 0" "fp_CntRot90 (footprints ex_big_state ! 0) = 0"
    by (simp_all add: ex_big_state_fields ex_big_unit_def)
  from AutoplaceFootprints_rotation_forbidden[OF l a, of ex_env "[0]" False] l a
  show ?thesis by (intro conjI)
qed

subsection \<open>The ratsnest cost\<close>

lemma nearestPad_pads_foldl:
  "nearestPad_pads env aRefPad aOffset pads acc =
     foldl (nearest_step (pad_distance env aRefPad aOffset)) acc (same_net_pads aRefPad pads)"
proof (induction pads arbitrary: acc)
  case Nil
  show ?case by (simp add: same_net_pads_def)
next
  case (Cons pad rest)
  obtain n d where acc: "acc = (n, d)" by (cases acc)
  show ?case unfolding acc
    by (simp add: Cons.IH same_net_pads_def nearest_step_def pad_distance_def Let_def)
qed

lemma nearestPad_fps_foldl:
  "nearestPad_fps env brdBox aRefFP aRefPad aOffset ifps acc =
     foldl (nearest_step (pad_distance env aRefPad aOffset)) acc
       (concat (map (\<lambda>(i, fp). if i \<noteq> aRefFP \<and> Contains brdBox (GetPosition fp)
                               then same_net_pads aRefPad (Pads fp) else []) ifps))"
proof (induction ifps arbitrary: acc)
  case Nil
  show ?case by simp
next
  case (Cons a rest)
  obtain i fp where a: "a = (i, fp)" by (cases a)
  show ?case unfolding a by (simp add: Cons.IH nearestPad_pads_foldl)
qed

lemma foldl_nearest_step:
  "foldl (nearest_step dst) (n, d) cs =
     (if cs = [] then (n, d)
      else if dst (arg_min_list dst cs) < d then (Some (arg_min_list dst cs), dst (arg_min_list dst cs))
      else (n, d))"
proof (induction cs arbitrary: n d)
  case Nil
  show ?case by simp
next
  case (Cons c cs)
  show ?case
  proof (cases cs)
    case Nil
    then show ?thesis by (simp add: nearest_step_def)
  next
    case (Cons y zs)
    have m: "arg_min_list dst (c # cs) =
        (if dst c \<le> dst (arg_min_list dst cs) then c else arg_min_list dst cs)"
      unfolding Cons by (simp add: Let_def)
    have ne: "cs \<noteq> []" using Cons by simp
    show ?thesis
    proof (cases "dst c < d")
      case True
      then have "foldl (nearest_step dst) (n, d) (c # cs) = foldl (nearest_step dst) (Some c, dst c) cs"
        by (simp add: nearest_step_def)
      also have "\<dots> = (if dst (arg_min_list dst cs) < dst c
           then (Some (arg_min_list dst cs), dst (arg_min_list dst cs)) else (Some c, dst c))"
        using Cons.IH[of "Some c" "dst c"] ne by simp
      finally show ?thesis using True unfolding m by auto
    next
      case False
      then have "foldl (nearest_step dst) (n, d) (c # cs) = foldl (nearest_step dst) (n, d) cs"
        by (simp add: nearest_step_def)
      also have "\<dots> = (if dst (arg_min_list dst cs) < d
           then (Some (arg_min_list dst cs), dst (arg_min_list dst cs)) else (n, d))"
        using Cons.IH[of n d] ne by simp
      finally show ?thesis using False unfolding m by auto
    qed
  qed
qed

lemma nearestPad_nearest_of:
  assumes "\<forall>c \<in> set (board_candidates st aRefFP aRefPad). pad_distance env aRefPad aOffset c < INT64_MAX"
  shows "nearestPad env st aRefFP aRefPad aOffset =
           nearest_of (pad_distance env aRefPad aOffset) (board_candidates st aRefFP aRefPad)"
proof (cases "board_candidates st aRefFP aRefPad = []")
  case True
  then show ?thesis
    unfolding nearestPad_def nearestPad_fps_foldl board_candidates_def[symmetric] nearest_of_def
    by simp
next
  case False
  then have "arg_min_list (pad_distance env aRefPad aOffset) (board_candidates st aRefFP aRefPad)
      \<in> set (board_candidates st aRefFP aRefPad)"
    by (rule arg_min_list_in)
  with assms have
    "pad_distance env aRefPad aOffset
       (arg_min_list (pad_distance env aRefPad aOffset) (board_candidates st aRefFP aRefPad)) < INT64_MAX"
    by blast
  then show ?thesis
    unfolding nearestPad_def nearestPad_fps_foldl board_candidates_def[symmetric] nearest_of_def
      foldl_nearest_step
    using False by simp
qed

lemma connection_cost_swap:
  "connection_cost start end' =
     (let dx = fst end' - fst start; dy = snd end' - snd start; dx = \<bar>dx\<bar>; dy = \<bar>dy\<bar>;
          (dx, dy) = (if dx < dy then (dy, dx) else (dx, dy))
      in hypot (real_of_int dx) (real_of_int dy * 2))"
  by (simp add: connection_cost_def Let_def max_def min_def mult.commute)

lemma ratsnest_loop_sum:
  "ratsnest_loop env st aFootprint aOffset pads curr_cost =
     curr_cost + (\<Sum>pad\<leftarrow>pads. case nearestPad env st aFootprint pad aOffset of
                      None \<Rightarrow> 0
                    | Some n \<Rightarrow> connection_cost (pt_sub (pad_Pos pad) aOffset) (pad_Pos n))"
proof (induction pads arbitrary: curr_cost)
  case Nil
  show ?case by simp
next
  case (Cons pad rest)
  show ?case
    by (cases "nearestPad env st aFootprint pad aOffset")
       (simp_all add: Cons.IH connection_cost_swap Let_def split_beta)
qed

lemma nearest_of_minimal:
  assumes "nearest_of dst cands = Some n"
  shows "n \<in> set cands \<and> (\<forall>c \<in> set cands. dst n \<le> dst c)"
proof -
  from assms have ne: "cands \<noteq> []" and n: "n = arg_min_list dst cands"
    by (auto simp: nearest_of_def split: if_splits)
  show ?thesis unfolding n using arg_min_list_in[OF ne] f_arg_min_list_f[OF ne, of dst]
    by auto
qed

text \<open>
  Claim C4, amended. The ratsnest cost of a unit at a trial offset is the sum, over the pads
  of the unit, of the cost of the connection from the pad, moved back by the offset, to
  its nearest pad; a pad without a nearest pad adds nothing. The nearest pad is the first
  pad of least distance among the pads on the same positive net that belong to other units
  whose position lies in the board box of the matrix: a unit outside of that box is
  skipped even when it is already positioned, and the flags of a unit are not read. A
  unit none of whose pads has such a candidate has cost 0. (Every
  distance is assumed to be below \<open>INT64_MAX\<close>, as every value of the C type of the norm
  is.)
\<close>

theorem computePlacementRatsnestCost_sum:
  assumes "\<forall>pad \<in> set (Pads (footprints st ! aFootprint)).
             \<forall>c \<in> set (board_candidates st aFootprint pad).
               pad_distance env pad aOffset c < INT64_MAX"
  shows "computePlacementRatsnestCost env st aFootprint aOffset =
           ratsnest_sum env (board_candidates st aFootprint) aOffset (Pads (footprints st ! aFootprint)) \<and>
         (\<forall>pad \<in> set (Pads (footprints st ! aFootprint)).
            nearestPad env st aFootprint pad aOffset =
              nearest_of (pad_distance env pad aOffset) (board_candidates st aFootprint pad) \<and>
            (\<forall>n. nearestPad env st aFootprint pad aOffset = Some n \<longrightarrow>
               n \<in> set (board_candidates st aFootprint pad) \<and>
               (\<forall>c \<in> set (board_candidates st aFootprint pad).
                  pad_distance env pad aOffset n \<le> pad_distance env pad aOffset c))) \<and>
         ((\<forall>pad \<in> set (Pads (footprints st ! aFootprint)). board_candidates st aFootprint pad = []) \<longrightarrow>
            computePlacementRatsnestCost env st aFootprint aOffset = 0)"
proof -
  have near: "nearestPad env st aFootprint pad aOffset =
      nearest_of (pad_distance env pad aOffset) (board_candidates st aFootprint pad)"
    if "pad \<in> set (Pads (footprints st ! aFootprint))" for pad
    using assms that by (intro nearestPad_nearest_of) blast
  have cost: "computePlacementRatsnestCost env st aFootprint aOffset =
      ratsnest_sum env (board_candidates st aFootprint) aOffset (Pads (footprints st ! aFootprint))"
    unfolding computePlacementRatsnestCost_def ratsnest_loop_sum ratsnest_sum_def
    by (simp add: near cong: map_cong)
  have zero: "computePlacementRatsnestCost env st aFootprint aOffset = 0"
    if "\<forall>pad \<in> set (Pads (footprints st ! aFootprint)). board_candidates st aFootprint pad = []"
  proof -
    have "(\<Sum>pad\<leftarrow>Pads (footprints st ! aFootprint).
             case nearest_of (pad_distance env pad aOffset) (board_candidates st aFootprint pad) of
               None \<Rightarrow> 0
             | Some n \<Rightarrow> connection_cost (pt_sub (pad_Pos pad) aOffset) (pad_Pos n)) =
          (\<Sum>pad\<leftarrow>Pads (footprints st ! aFootprint). (0::real))"
      using that by (intro arg_cong[where f = sum_list] map_cong) (simp_all add: nearest_of_def)
    then show ?thesis unfolding cost ratsnest_sum_def by simp
  qed
  have min: "n \<in> set (board_candidates st aFootprint pad) \<and>
       (\<forall>c \<in> set (board_candidates st aFootprint pad).
          pad_distance env pad aOffset n \<le> pad_distance env pad aOffset c)"
    if "pad \<in> set (Pads (footprints st ! aFootprint))"
      and "nearestPad env st aFootprint pad aOffset = Some n" for pad n
    using nearest_of_minimal[of "pad_distance env pad aOffset" "board_candidates st aFootprint pad" n]
      near[OF that(1)] that(2) by simp
  show ?thesis using cost near zero min by blast
qed

lemma sqrt_search_eval:
  "sqrt_search 0 25 = 5"
  by (simp add: sqrt_search.simps)

lemma ex_net_pads:
  "Pads (footprints (ex_net_state p) ! 0) = [ex_pad]"
  "Pads (footprints (ex_net_state p) ! Suc 0) = [ex_pad\<lparr>pad_Pos := p\<rparr>]"
  by (simp_all add: ex_net_state_def ex_net_unit_def ex_fixed_unit_def Pads_def pt_add_def ex_pad_def)

lemma ex_net_candidates:
  "positioned_unit_candidates (ex_net_state p) 0 ex_pad = [ex_pad\<lparr>pad_Pos := p\<rparr>]"
  "board_candidates (ex_net_state p) 0 ex_pad =
     (if Contains \<lparr>m_Pos = (0, 0), m_Size = (4, 4)\<rparr> p then [ex_pad\<lparr>pad_Pos := p\<rparr>] else [])"
  by (simp_all add: positioned_unit_candidates_def board_candidates_def ex_net_state_def
      ex_net_unit_def ex_fixed_unit_def same_net_pads_def Pads_def pt_add_def ex_pad_def ex_state_def
      ex_matrix_def GetPosition_def enumerate_eq_zip upt_rec)

lemma ex_net_fixed:
  "fp_IsPlaced (footprints (ex_net_state p) ! Suc 0)"
  "\<not> fp_NeedsPlaced (footprints (ex_net_state p) ! Suc 0)"
  "GetPosition (footprints (ex_net_state p) ! Suc 0) = p"
  "m_BrdBox (m_matrix (ex_net_state p)) = \<lparr>m_Pos = (0, 0), m_Size = (4, 4)\<rparr>"
  by (simp_all add: ex_net_state_def ex_fixed_unit_def ex_net_unit_def GetPosition_def ex_state_def
      ex_matrix_def)

lemma nearestPad_foldl:
  "nearestPad env st aRefFP aRefPad aOffset =
     fst (foldl (nearest_step (pad_distance env aRefPad aOffset)) (None, INT64_MAX)
            (board_candidates st aRefFP aRefPad))"
  unfolding nearestPad_def nearestPad_fps_foldl board_candidates_def ..

lemma ex_net_off_board_nearest:
  "nearestPad ex_env (ex_net_state (10, 3)) 0 ex_pad (0, 0) = None"
  by (simp add: nearestPad_foldl ex_net_candidates Contains_def)

lemma ex_net_distance:
  "pad_distance ex_env ex_pad (0, 0) (ex_pad\<lparr>pad_Pos := (3, 4)\<rparr>) = 5"
  by (simp add: pad_distance_def ex_env_def ex_norm_def pt_sub_def ex_pad_def sqrt_search_eval)

lemma ex_net_off_board_cost:
  "computePlacementRatsnestCost ex_env (ex_net_state (10, 3)) 0 (0, 0) = 0"
  unfolding computePlacementRatsnestCost_def ratsnest_loop_sum ex_net_pads
  by (simp add: ex_net_off_board_nearest)

lemma ex_net_claimed_cost:
  "ratsnest_sum ex_env (positioned_unit_candidates (ex_net_state (10, 3)) 0) (0, 0)
     (Pads (footprints (ex_net_state (10, 3)) ! 0)) = hypot 10 6"
  unfolding ratsnest_sum_def ex_net_pads
  by (simp add: ex_net_candidates nearest_of_def) (simp add: connection_cost_def pt_sub_def ex_pad_def)

text \<open>
  Claim C4 as stated fails: the second unit is already positioned (flagged as placed, not to
  be placed) at \<open>(10, 3)\<close>, outside of the board box, and its pad is on the net of the pad
  of the first unit. Summed over the pads of the other positioned units the cost is
  \<open>hypot 10 6\<close>, which is positive; the code skips the unit, finds no nearest pad, and the
  cost is 0.
\<close>

theorem computePlacementRatsnestCost_off_board_counterexample:
  "fp_IsPlaced (footprints (ex_net_state (10, 3)) ! 1) \<and>
   \<not> fp_NeedsPlaced (footprints (ex_net_state (10, 3)) ! 1) \<and>
   \<not> Contains (m_BrdBox (m_matrix (ex_net_state (10, 3))))
       (GetPosition (footprints (ex_net_state (10, 3)) ! 1)) \<and>
   positioned_unit_candidates (ex_net_state (10, 3)) 0 ex_pad = [ex_pad\<lparr>pad_Pos := (10, 3)\<rparr>] \<and>
   ratsnest_sum ex_env (positioned_unit_candidates (ex_net_state (10, 3)) 0) (0, 0)
     (Pads (footprints (ex_net_state (10, 3)) ! 0)) = hypot 10 6 \<and>
   0 < hypot 10 6 \<and>
   nearestPad ex_env (ex_net_state (10, 3)) 0 ex_pad (0, 0) = None \<and>
   computePlacementRatsnestCost ex_env (ex_net_state (10, 3)) 0 (0, 0) = 0"
proof -
  have "nearestPad ex_env (ex_net_state (10, 3)) 0 ex_pad (0, 0) = None"
    by (rule ex_net_off_board_nearest)
  moreover have "0 < hypot 10 6" by (simp add: hypot_def)
  moreover have "\<not> Contains (m_BrdBox (m_matrix (ex_net_state (10, 3))))
       (GetPosition (footprints (ex_net_state (10, 3)) ! 1))"
    by (simp add: ex_net_fixed Contains_def)
  moreover have "fp_IsPlaced (footprints (ex_net_state (10, 3)) ! 1)"
    "\<not> fp_NeedsPlaced (footprints (ex_net_state (10, 3)) ! 1)"
    by (simp_all add: ex_net_fixed)
  ultimately show ?thesis
    using ex_net_candidates(1)[of "(10, 3)"] ex_net_claimed_cost ex_net_off_board_cost
    by (intro conjI)
qed

text \<open>
  The amended claim C4 at the example with the second unit at \<open>(3, 4)\<close>, inside the board
  box: the deltas 3 and 4 are swapped and the cost is \<open>hypot 4 6\<close>.
\<close>

theorem computePlacementRatsnestCost_sum_witness:
  "board_candidates (ex_net_state (3, 4)) 0 ex_pad = [ex_pad\<lparr>pad_Pos := (3, 4)\<rparr>] \<and>
   pad_distance ex_env ex_pad (0, 0) (ex_pad\<lparr>pad_Pos := (3, 4)\<rparr>) < INT64_MAX \<and>
   nearestPad ex_env (ex_net_state (3, 4)) 0 ex_pad (0, 0) = Some (ex_pad\<lparr>pad_Pos := (3, 4)\<rparr>) \<and>
   computePlacementRatsnestCost ex_env (ex_net_state (3, 4)) 0 (0, 0) = hypot 4 6"
proof -
  have c: "board_candidates (ex_net_state (3, 4)) 0 ex_pad = [ex_pad\<lparr>pad_Pos := (3, 4)\<rparr>]"
    by (simp add: ex_net_candidates Contains_def)
  have d: "pad_distance ex_env ex_pad (0, 0) (ex_pad\<lparr>pad_Pos := (3, 4)\<rparr>) < INT64_MAX"
    by (simp add: ex_net_distance INT64_MAX_def)
  have h: "\<forall>pad \<in> set (Pads (footprints (ex_net_state (3, 4)) ! 0)).
             \<forall>c \<in> set (board_candidates (ex_net_state (3, 4)) 0 pad).
               pad_distance ex_env pad (0, 0) c < INT64_MAX"
    unfolding ex_net_pads using c d by simp
  note t = computePlacementRatsnestCost_sum[OF h]
  from t have "nearestPad ex_env (ex_net_state (3, 4)) 0 ex_pad (0, 0) =
      nearest_of (pad_distance ex_env ex_pad (0, 0)) (board_candidates (ex_net_state (3, 4)) 0 ex_pad)"
    unfolding ex_net_pads by simp
  then have n: "nearestPad ex_env (ex_net_state (3, 4)) 0 ex_pad (0, 0) = Some (ex_pad\<lparr>pad_Pos := (3, 4)\<rparr>)"
    unfolding c by (simp add: nearest_of_def)
  from t have "computePlacementRatsnestCost ex_env (ex_net_state (3, 4)) 0 (0, 0) =
      ratsnest_sum ex_env (board_candidates (ex_net_state (3, 4)) 0) (0, 0)
        (Pads (footprints (ex_net_state (3, 4)) ! 0))"
    by (rule conjunct1)
  also have "\<dots> = hypot 4 6"
    unfolding ratsnest_sum_def ex_net_pads
    by (simp add: c nearest_of_def) (simp add: connection_cost_def pt_sub_def ex_pad_def)
  finally show ?thesis using c d n by (intro conjI)
qed

subsection \<open>The connection cost when a pad moves away\<close>

lemma weighted_squares_strict_mono:
  fixes a a' b :: int
  assumes "0 \<le> a" "a < a'" "0 \<le> b"
  shows "(max a b)\<^sup>2 + 4 * (min a b)\<^sup>2 < (max a' b)\<^sup>2 + 4 * (min a' b)\<^sup>2"
proof -
  have sq: "x\<^sup>2 < y\<^sup>2" if "0 \<le> x" "x < y" for x y :: int
    using that by (intro power_strict_mono) simp_all
  have sqle: "x\<^sup>2 \<le> y\<^sup>2" if "0 \<le> x" "x \<le> y" for x y :: int
    using that by (intro power_mono) simp_all
  consider "b \<le> a" | "a < b" "b \<le> a'" | "a' < b" by linarith
  then show ?thesis
  proof cases
    case 1
    then have "max a b = a" "min a b = b" "max a' b = a'" "min a' b = b"
      using assms by simp_all
    moreover have "a\<^sup>2 < a'\<^sup>2" by (rule sq[OF assms(1,2)])
    ultimately show ?thesis by simp
  next
    case 2
    then have "max a b = b" "min a b = a" "max a' b = a'" "min a' b = b"
      using assms by simp_all
    moreover have "a\<^sup>2 < b\<^sup>2" by (rule sq[OF assms(1) 2(1)])
    moreover have "b\<^sup>2 \<le> a'\<^sup>2" by (rule sqle[OF assms(3) 2(2)])
    ultimately show ?thesis by simp
  next
    case 3
    then have "max a b = b" "min a b = a" "max a' b = b" "min a' b = a'"
      using assms by simp_all
    moreover have "a\<^sup>2 < a'\<^sup>2" by (rule sq[OF assms(1,2)])
    ultimately show ?thesis by simp
  qed
qed

lemma ratsnest_loop_lib_exact:
  "ratsnest_loop_lib hypot env st aFootprint aOffset pads curr_cost =
   ratsnest_loop env st aFootprint aOffset pads curr_cost"
  by (induction pads arbitrary: curr_cost) (simp_all add: Let_def split: option.splits)

lemma computePlacementRatsnestCost_lib_exact:
  "computePlacementRatsnestCost_lib hypot env st aFootprint aOffset =
   computePlacementRatsnestCost env st aFootprint aOffset"
  by (simp add: computePlacementRatsnestCost_lib_def computePlacementRatsnestCost_def
      ratsnest_loop_lib_exact)

lemma ratsnest_loop_lib_none:
  assumes "\<forall>p \<in> set pads. nearestPad env st aFootprint p aOffset = None"
  shows "ratsnest_loop_lib h env st aFootprint aOffset pads curr_cost = curr_cost"
  using assms by (induction pads arbitrary: curr_cost) simp_all

lemma ratsnest_loop_lib_append:
  "ratsnest_loop_lib h env st aFootprint aOffset (xs @ ys) curr_cost =
   ratsnest_loop_lib h env st aFootprint aOffset ys
     (ratsnest_loop_lib h env st aFootprint aOffset xs curr_cost)"
  by (induction xs arbitrary: curr_cost) (simp_all add: Let_def split_beta split: option.splits)

lemma single_connection_cost:
  assumes "Pads (footprints st ! aFootprint) = before @ pad # after"
    and "\<forall>p \<in> set before \<union> set after. nearestPad env st aFootprint p aOffset = None"
    and "nearestPad env st aFootprint pad aOffset = Some n"
  shows "computePlacementRatsnestCost_lib h env st aFootprint aOffset =
         h (real_of_int (max \<bar>fst (pad_Pos n) - fst (pt_sub (pad_Pos pad) aOffset)\<bar>
                             \<bar>snd (pad_Pos n) - snd (pt_sub (pad_Pos pad) aOffset)\<bar>))
           (real_of_int (min \<bar>fst (pad_Pos n) - fst (pt_sub (pad_Pos pad) aOffset)\<bar>
                             \<bar>snd (pad_Pos n) - snd (pt_sub (pad_Pos pad) aOffset)\<bar>) * 2)"
proof -
  have b: "\<forall>p \<in> set before. nearestPad env st aFootprint p aOffset = None"
    and a: "\<forall>p \<in> set after. nearestPad env st aFootprint p aOffset = None"
    using assms(2) by auto
  show ?thesis
    unfolding computePlacementRatsnestCost_lib_def assms(1) ratsnest_loop_lib_append
      ratsnest_loop_lib_none[OF b]
    by (simp add: assms(3) ratsnest_loop_lib_none[OF a] Let_def max_def min_def)
qed


lemma weighted_hypot:
  "hypot (real_of_int (max a b)) (real_of_int (min a b) * 2) =
   sqrt (real_of_int ((max a b)\<^sup>2 + 4 * (min a b)\<^sup>2))"
  by (simp add: hypot_def power_mult_distrib)

lemma weighted_hypot_strict_mono:
  assumes "moved_away p p' n"
  shows "hypot (real_of_int (max \<bar>fst n - fst p\<bar> \<bar>snd n - snd p\<bar>))
               (real_of_int (min \<bar>fst n - fst p\<bar> \<bar>snd n - snd p\<bar>) * 2) <
         hypot (real_of_int (max \<bar>fst n - fst p'\<bar> \<bar>snd n - snd p'\<bar>))
               (real_of_int (min \<bar>fst n - fst p'\<bar> \<bar>snd n - snd p'\<bar>) * 2)"
proof -
  from assms consider
      (x) "snd p' = snd p" "\<bar>fst n - fst p\<bar> < \<bar>fst n - fst p'\<bar>"
    | (y) "fst p' = fst p" "\<bar>snd n - snd p\<bar> < \<bar>snd n - snd p'\<bar>"
    unfolding moved_away_def by blast
  then show ?thesis
  proof cases
    case x
    have "(max \<bar>fst n - fst p\<bar> \<bar>snd n - snd p\<bar>)\<^sup>2 + 4 * (min \<bar>fst n - fst p\<bar> \<bar>snd n - snd p\<bar>)\<^sup>2
        < (max \<bar>fst n - fst p'\<bar> \<bar>snd n - snd p\<bar>)\<^sup>2 + 4 * (min \<bar>fst n - fst p'\<bar> \<bar>snd n - snd p\<bar>)\<^sup>2"
      using x(2) by (intro weighted_squares_strict_mono) simp_all
    then show ?thesis
      unfolding weighted_hypot real_sqrt_less_iff of_int_less_iff x(1) .
  next
    case y
    have "(max \<bar>snd n - snd p\<bar> \<bar>fst n - fst p\<bar>)\<^sup>2 + 4 * (min \<bar>snd n - snd p\<bar> \<bar>fst n - fst p\<bar>)\<^sup>2
        < (max \<bar>snd n - snd p'\<bar> \<bar>fst n - fst p\<bar>)\<^sup>2 + 4 * (min \<bar>snd n - snd p'\<bar> \<bar>fst n - fst p\<bar>)\<^sup>2"
      using y(2) by (intro weighted_squares_strict_mono) simp_all
    then show ?thesis
      unfolding weighted_hypot real_sqrt_less_iff of_int_less_iff y(1)
      by (simp add: max.commute min.commute)
  qed
qed

text \<open>
  Claim C8, amended. The unit has a single connected pad, and the nearest pad of that pad
  is the same for the two trial offsets. When the second offset puts the pad where the
  first one puts it moved away from the nearest pad along one coordinate axis, the exact
  cost is strictly larger at the second offset, and the cost that the code computes is
  not smaller, for every \<^verbatim>\<open>hypot\<close> that rounds the exact length monotonically; the rounding
  can make the two computed costs equal. When the second offset puts the pad on the
  nearest pad, the cost is the \<^verbatim>\<open>hypot\<close> of 0 and 0, and the exact cost is 0.
\<close>

theorem computePlacementRatsnestCost_moved_away:
  assumes "Pads (footprints st ! aFootprint) = before @ pad # after"
    and "\<forall>p \<in> set before \<union> set after.
           nearestPad env st aFootprint p aOffset = None \<and>
           nearestPad env st aFootprint p aOffset' = None"
    and "nearestPad env st aFootprint pad aOffset = Some n"
    and "nearestPad env st aFootprint pad aOffset' = Some n"
  shows "(moved_away (pt_sub (pad_Pos pad) aOffset) (pt_sub (pad_Pos pad) aOffset') (pad_Pos n) \<longrightarrow>
           computePlacementRatsnestCost env st aFootprint aOffset <
             computePlacementRatsnestCost env st aFootprint aOffset' \<and>
           (\<forall>r. (\<forall>x y. 0 \<le> x \<and> x \<le> y \<longrightarrow> r x \<le> r y) \<longrightarrow>
              computePlacementRatsnestCost_lib (\<lambda>a b. r (hypot a b)) env st aFootprint aOffset \<le>
                computePlacementRatsnestCost_lib (\<lambda>a b. r (hypot a b)) env st aFootprint aOffset')) \<and>
         (pt_sub (pad_Pos pad) aOffset' = pad_Pos n \<longrightarrow>
           computePlacementRatsnestCost_lib h env st aFootprint aOffset' = h 0 0 \<and>
           computePlacementRatsnestCost env st aFootprint aOffset' = 0)"
proof -
  have n1: "\<forall>p \<in> set before \<union> set after. nearestPad env st aFootprint p aOffset = None"
    and n2: "\<forall>p \<in> set before \<union> set after. nearestPad env st aFootprint p aOffset' = None"
    using assms(2) by auto
  define a b a' b' where "a = \<bar>fst (pad_Pos n) - fst (pt_sub (pad_Pos pad) aOffset)\<bar>"
    and "b = \<bar>snd (pad_Pos n) - snd (pt_sub (pad_Pos pad) aOffset)\<bar>"
    and "a' = \<bar>fst (pad_Pos n) - fst (pt_sub (pad_Pos pad) aOffset')\<bar>"
    and "b' = \<bar>snd (pad_Pos n) - snd (pt_sub (pad_Pos pad) aOffset')\<bar>"
  have c1: "computePlacementRatsnestCost_lib g env st aFootprint aOffset =
      g (real_of_int (max a b)) (real_of_int (min a b) * 2)" for g
    unfolding a_def b_def by (rule single_connection_cost[OF assms(1) n1 assms(3)])
  have c2: "computePlacementRatsnestCost_lib g env st aFootprint aOffset' =
      g (real_of_int (max a' b')) (real_of_int (min a' b') * 2)" for g
    unfolding a'_def b'_def by (rule single_connection_cost[OF assms(1) n2 assms(4)])
  have away: "computePlacementRatsnestCost env st aFootprint aOffset <
             computePlacementRatsnestCost env st aFootprint aOffset' \<and>
           (\<forall>r. (\<forall>x y. 0 \<le> x \<and> x \<le> y \<longrightarrow> r x \<le> r y) \<longrightarrow>
              computePlacementRatsnestCost_lib (\<lambda>a b. r (hypot a b)) env st aFootprint aOffset \<le>
                computePlacementRatsnestCost_lib (\<lambda>a b. r (hypot a b)) env st aFootprint aOffset')"
    if m: "moved_away (pt_sub (pad_Pos pad) aOffset) (pt_sub (pad_Pos pad) aOffset') (pad_Pos n)"
  proof -
    have lt: "hypot (real_of_int (max a b)) (real_of_int (min a b) * 2) <
              hypot (real_of_int (max a' b')) (real_of_int (min a' b') * 2)"
      unfolding a_def b_def a'_def b'_def by (rule weighted_hypot_strict_mono[OF m])
    have ex: "computePlacementRatsnestCost env st aFootprint aOffset <
             computePlacementRatsnestCost env st aFootprint aOffset'"
      unfolding computePlacementRatsnestCost_lib_exact[symmetric] c1 c2 by (rule lt)
    have rd: "computePlacementRatsnestCost_lib (\<lambda>a b. r (hypot a b)) env st aFootprint aOffset \<le>
                computePlacementRatsnestCost_lib (\<lambda>a b. r (hypot a b)) env st aFootprint aOffset'"
      if r: "\<forall>x y. 0 \<le> x \<and> x \<le> y \<longrightarrow> r x \<le> r y" for r :: "real \<Rightarrow> real"
    proof -
      have "0 \<le> hypot (real_of_int (max a b)) (real_of_int (min a b) * 2)" by (rule hypot_nonneg)
      moreover have "hypot (real_of_int (max a b)) (real_of_int (min a b) * 2) \<le>
              hypot (real_of_int (max a' b')) (real_of_int (min a' b') * 2)"
        using lt by (rule less_imp_le)
      ultimately have "r (hypot (real_of_int (max a b)) (real_of_int (min a b) * 2)) \<le>
              r (hypot (real_of_int (max a' b')) (real_of_int (min a' b') * 2))"
        using r by blast
      then show ?thesis unfolding c1 c2 .
    qed
    show ?thesis using ex rd by blast
  qed
  have coincide: "computePlacementRatsnestCost_lib h env st aFootprint aOffset' = h 0 0 \<and>
           computePlacementRatsnestCost env st aFootprint aOffset' = 0"
    if e: "pt_sub (pad_Pos pad) aOffset' = pad_Pos n"
  proof -
    have z: "a' = 0" "b' = 0" unfolding a'_def b'_def e by simp_all
    have "computePlacementRatsnestCost_lib h env st aFootprint aOffset' = h 0 0"
      unfolding c2 z by simp
    moreover have "computePlacementRatsnestCost env st aFootprint aOffset' = 0"
      unfolding computePlacementRatsnestCost_lib_exact[symmetric] c2 z by (simp add: hypot_def)
    ultimately show ?thesis ..
  qed
  show ?thesis using away coincide by blast
qed


lemma sqrt_search_le: "k \<le> n \<Longrightarrow> sqrt_search k n \<le> n"
proof (induction k n rule: sqrt_search.induct)
  case (1 k n)
  show ?case
  proof (cases "(k + 1) * (k + 1) \<le> n")
    case True
    have "k + 1 \<le> (k + 1) * (k + 1)" by simp
    with True have "k + 1 \<le> n" by linarith
    with "1.IH"[OF True] True show ?thesis by (subst sqrt_search.simps) simp
  next
    case False
    with "1.prems" show ?thesis by (subst sqrt_search.simps) simp
  qed
qed

lemma ex_norm_le: "ex_norm v \<le> fst v * fst v + snd v * snd v"
proof -
  have "0 \<le> fst v * fst v + snd v * snd v" by simp
  then have "int (nat (fst v * fst v + snd v * snd v)) = fst v * fst v + snd v * snd v" by simp
  moreover have "sqrt_search 0 (nat (fst v * fst v + snd v * snd v)) \<le> nat (fst v * fst v + snd v * snd v)"
    by (rule sqrt_search_le) simp
  ultimately show ?thesis unfolding ex_norm_def by linarith
qed

lemma nearestPad_single:
  assumes "board_candidates st aRefFP aRefPad = [c]"
    and "pad_distance env aRefPad aOffset c < INT64_MAX"
  shows "nearestPad env st aRefFP aRefPad aOffset = Some c"
  unfolding nearestPad_foldl assms(1) using assms(2) by (simp add: nearest_step_def)

lemma ex_far_fields:
  "Pads (footprints ex_far_state ! 0) = [ex_pad, ex_free_pad]"
  "board_candidates ex_far_state 0 ex_pad = [ex_pad\<lparr>pad_Pos := (134217728, 0)\<rparr>]"
  "board_candidates ex_far_state 0 ex_free_pad = []"
  by (simp_all add: ex_far_state_def board_candidates_def ex_net_unit_def ex_fixed_unit_def
      same_net_pads_def Pads_def pt_add_def ex_pad_def ex_free_pad_def ex_state_def
      GetPosition_def Contains_def enumerate_eq_zip upt_rec)

lemma ex_far_free: "nearestPad ex_env ex_far_state 0 ex_free_pad off = None"
  by (simp add: nearestPad_foldl ex_far_fields)

lemma ex_far_distance:
  "pad_distance ex_env ex_pad (0, 0) (ex_pad\<lparr>pad_Pos := (134217728, 0)\<rparr>) < INT64_MAX"
  "pad_distance ex_env ex_pad (0, 1) (ex_pad\<lparr>pad_Pos := (134217728, 0)\<rparr>) < INT64_MAX"
  "pad_distance ex_env ex_pad (- 134217728, 0) (ex_pad\<lparr>pad_Pos := (134217728, 0)\<rparr>) < INT64_MAX"
proof -
  have e: "EuclideanNorm ex_env = ex_norm" by (simp add: ex_env_def)
  show "pad_distance ex_env ex_pad (0, 0) (ex_pad\<lparr>pad_Pos := (134217728, 0)\<rparr>) < INT64_MAX"
    unfolding pad_distance_def e
    using ex_norm_le[of "pt_sub (pt_sub (pad_Pos ex_pad) (0, 0)) (pad_Pos (ex_pad\<lparr>pad_Pos := (134217728, 0)\<rparr>))"]
    by (simp add: pt_sub_def ex_pad_def INT64_MAX_def)
  show "pad_distance ex_env ex_pad (0, 1) (ex_pad\<lparr>pad_Pos := (134217728, 0)\<rparr>) < INT64_MAX"
    unfolding pad_distance_def e
    using ex_norm_le[of "pt_sub (pt_sub (pad_Pos ex_pad) (0, 1)) (pad_Pos (ex_pad\<lparr>pad_Pos := (134217728, 0)\<rparr>))"]
    by (simp add: pt_sub_def ex_pad_def INT64_MAX_def)
  show "pad_distance ex_env ex_pad (- 134217728, 0) (ex_pad\<lparr>pad_Pos := (134217728, 0)\<rparr>) < INT64_MAX"
    unfolding pad_distance_def e
    using ex_norm_le[of "pt_sub (pt_sub (pad_Pos ex_pad) (- 134217728, 0)) (pad_Pos (ex_pad\<lparr>pad_Pos := (134217728, 0)\<rparr>))"]
    by (simp add: pt_sub_def ex_pad_def INT64_MAX_def)
qed

lemma ex_far_nearest:
  "nearestPad ex_env ex_far_state 0 ex_pad (0, 0) = Some (ex_pad\<lparr>pad_Pos := (134217728, 0)\<rparr>)"
  "nearestPad ex_env ex_far_state 0 ex_pad (0, 1) = Some (ex_pad\<lparr>pad_Pos := (134217728, 0)\<rparr>)"
  "nearestPad ex_env ex_far_state 0 ex_pad (- 134217728, 0) = Some (ex_pad\<lparr>pad_Pos := (134217728, 0)\<rparr>)"
  by (rule nearestPad_single[OF ex_far_fields(2)], rule ex_far_distance)+

lemma hypot_binary64_example:
  "hypot_binary64 134217728 0 = 134217728" "hypot_binary64 134217728 2 = 134217728"
  "hypot_binary64 0 0 = 0"
  unfolding hypot_binary64_def hypot_def using binary64_example
  by (simp_all add: binary64_zero)

lemma ex_far_moved_away:
  "moved_away (pt_sub (pad_Pos ex_pad) (0, 0)) (pt_sub (pad_Pos ex_pad) (0, 1)) (134217728, 0)"
  by (simp add: moved_away_def pt_sub_def ex_pad_def)

lemma ex_far_pads: "Pads (footprints ex_far_state ! 0) = [] @ ex_pad # [ex_free_pad]"
  by (simp add: ex_far_fields)

lemma ex_far_others:
  "\<forall>p \<in> set [] \<union> set [ex_free_pad].
     nearestPad ex_env ex_far_state 0 p off = None \<and> nearestPad ex_env ex_far_state 0 p off' = None"
  by (simp add: ex_far_free)

lemma ex_far_cost:
  "computePlacementRatsnestCost_lib h ex_env ex_far_state 0 (0, 0) = h 134217728 0"
  "computePlacementRatsnestCost_lib h ex_env ex_far_state 0 (0, 1) = h 134217728 2"
proof -
  have o: "\<forall>p \<in> set [] \<union> set [ex_free_pad]. nearestPad ex_env ex_far_state 0 p off = None" for off
    by (simp add: ex_far_free)
  show "computePlacementRatsnestCost_lib h ex_env ex_far_state 0 (0, 0) = h 134217728 0"
    unfolding single_connection_cost[OF ex_far_pads o ex_far_nearest(1)]
    by (simp add: pt_sub_def ex_pad_def)
  show "computePlacementRatsnestCost_lib h ex_env ex_far_state 0 (0, 1) = h 134217728 2"
    unfolding single_connection_cost[OF ex_far_pads o ex_far_nearest(2)]
    by (simp add: pt_sub_def ex_pad_def)
qed

text \<open>
  Claim C8 as stated fails: the unit has one connected pad, whose nearest pad is \<open>2 ^ 27\<close>
  to the right of it; the pad moves by 1 along the other axis, away from the nearest pad, which stays the nearest.
  With a \<^verbatim>\<open>hypot\<close> that returns the nearest double, the cost is \<open>2 ^ 27\<close> before and after
  the move: the exact length after the move is less than half a unit in the last place
  above \<open>2 ^ 27\<close>.
\<close>

theorem computePlacementRatsnestCost_rounding_counterexample:
  "Pads (footprints ex_far_state ! 0) = [ex_pad, ex_free_pad] \<and>
   nearestPad ex_env ex_far_state 0 ex_free_pad (0, 0) = None \<and>
   nearestPad ex_env ex_far_state 0 ex_free_pad (0, 1) = None \<and>
   nearestPad ex_env ex_far_state 0 ex_pad (0, 0) = Some (ex_pad\<lparr>pad_Pos := (134217728, 0)\<rparr>) \<and>
   nearestPad ex_env ex_far_state 0 ex_pad (0, 1) = Some (ex_pad\<lparr>pad_Pos := (134217728, 0)\<rparr>) \<and>
   moved_away (pt_sub (pad_Pos ex_pad) (0, 0)) (pt_sub (pad_Pos ex_pad) (0, 1)) (134217728, 0) \<and>
   computePlacementRatsnestCost_lib hypot_binary64 ex_env ex_far_state 0 (0, 0) = 134217728 \<and>
   computePlacementRatsnestCost_lib hypot_binary64 ex_env ex_far_state 0 (0, 1) = 134217728"
  using ex_far_fields(1) ex_far_free[of "(0, 0)"] ex_far_free[of "(0, 1)"] ex_far_nearest(1,2)
    ex_far_moved_away ex_far_cost[of hypot_binary64, unfolded hypot_binary64_example]
  by (intro conjI)


text \<open>
  The amended claim C8 at the same example: the exact cost grows, the rounded cost does
  not decrease, and the offset that puts the pad on the nearest pad gives cost 0.
\<close>

theorem computePlacementRatsnestCost_moved_away_witness:
  "Pads (footprints ex_far_state ! 0) = [] @ ex_pad # [ex_free_pad] \<and>
   nearestPad ex_env ex_far_state 0 ex_free_pad (0, 0) = None \<and>
   nearestPad ex_env ex_far_state 0 ex_free_pad (0, 1) = None \<and>
   nearestPad ex_env ex_far_state 0 ex_free_pad (- 134217728, 0) = None \<and>
   nearestPad ex_env ex_far_state 0 ex_pad (0, 0) = Some (ex_pad\<lparr>pad_Pos := (134217728, 0)\<rparr>) \<and>
   nearestPad ex_env ex_far_state 0 ex_pad (0, 1) = Some (ex_pad\<lparr>pad_Pos := (134217728, 0)\<rparr>) \<and>
   nearestPad ex_env ex_far_state 0 ex_pad (- 134217728, 0) = Some (ex_pad\<lparr>pad_Pos := (134217728, 0)\<rparr>) \<and>
   moved_away (pt_sub (pad_Pos ex_pad) (0, 0)) (pt_sub (pad_Pos ex_pad) (0, 1)) (134217728, 0) \<and>
   computePlacementRatsnestCost ex_env ex_far_state 0 (0, 0) <
     computePlacementRatsnestCost ex_env ex_far_state 0 (0, 1) \<and>
   computePlacementRatsnestCost_lib (\<lambda>a b. binary64 (hypot a b)) ex_env ex_far_state 0 (0, 0) \<le>
     computePlacementRatsnestCost_lib (\<lambda>a b. binary64 (hypot a b)) ex_env ex_far_state 0 (0, 1) \<and>
   pt_sub (pad_Pos ex_pad) (- 134217728, 0) = (134217728, 0) \<and>
   computePlacementRatsnestCost_lib hypot_binary64 ex_env ex_far_state 0 (- 134217728, 0) = 0 \<and>
   computePlacementRatsnestCost ex_env ex_far_state 0 (- 134217728, 0) = 0"
proof -
  note p = ex_far_pads
  note e = ex_far_others
  have pn: "pad_Pos (ex_pad\<lparr>pad_Pos := (134217728, 0)\<rparr>) = (134217728, 0)" by simp
  have mono: "\<forall>x y. 0 \<le> x \<and> x \<le> y \<longrightarrow> binary64 x \<le> binary64 y"
    using binary64_mono by blast
  have c: "pt_sub (pad_Pos ex_pad) (- 134217728, 0) = (134217728, 0)"
    by (simp add: pt_sub_def ex_pad_def)
  note t1 = computePlacementRatsnestCost_moved_away[OF p e ex_far_nearest(1) ex_far_nearest(2),
      unfolded pn, of hypot_binary64]
  note t2 = computePlacementRatsnestCost_moved_away[OF p e ex_far_nearest(1) ex_far_nearest(3),
      unfolded pn, of hypot_binary64]
  from t1 ex_far_moved_away have a:
    "computePlacementRatsnestCost ex_env ex_far_state 0 (0, 0) <
       computePlacementRatsnestCost ex_env ex_far_state 0 (0, 1)"
    by blast
  from t1 ex_far_moved_away have
    "\<forall>r. (\<forall>x y. 0 \<le> x \<and> x \<le> y \<longrightarrow> r x \<le> r y) \<longrightarrow>
       computePlacementRatsnestCost_lib (\<lambda>a b. r (hypot a b)) ex_env ex_far_state 0 (0, 0) \<le>
       computePlacementRatsnestCost_lib (\<lambda>a b. r (hypot a b)) ex_env ex_far_state 0 (0, 1)"
    by blast
  with mono have b:
    "computePlacementRatsnestCost_lib (\<lambda>a b. binary64 (hypot a b)) ex_env ex_far_state 0 (0, 0) \<le>
       computePlacementRatsnestCost_lib (\<lambda>a b. binary64 (hypot a b)) ex_env ex_far_state 0 (0, 1)"
    by blast
  from t2 c have d:
    "computePlacementRatsnestCost_lib hypot_binary64 ex_env ex_far_state 0 (- 134217728, 0) =
       hypot_binary64 0 0 \<and>
     computePlacementRatsnestCost ex_env ex_far_state 0 (- 134217728, 0) = 0"
    by blast
  from d have d1: "computePlacementRatsnestCost_lib hypot_binary64 ex_env ex_far_state 0 (- 134217728, 0) = 0"
    by (simp add: hypot_binary64_example)
  from d have d2: "computePlacementRatsnestCost ex_env ex_far_state 0 (- 134217728, 0) = 0"
    by (rule conjunct2)
  show ?thesis
    using p ex_far_free[of "(0, 0)"] ex_far_free[of "(0, 1)"] ex_far_free[of "(- 134217728, 0)"]
      ex_far_nearest ex_far_moved_away a b c d1 d2
    by (intro conjI)
qed

end
